(* ===== verification/Prelude.thy ===== *)
theory Prelude
  imports Main "HOL-Library.Word" "HOL-Library.AList"
begin

text \<open>
  Shared vocabulary of the development: machine integers, byte strings, and the two
  collections of Rust's standard library that the runtime keeps its state in.

  A \<^verbatim>\<open>HashMap\<close> is an association list and a \<^verbatim>\<open>HashSet\<close> a list, each in the order an
  iteration visits it. Rust leaves that order unspecified, so the theorems of the
  component theories are stated for every list; the code's observable behaviour is read
  off with \<open>hm_get\<close>, \<open>hm_has\<close> and membership, which do not depend on the order.
\<close>

type_synonym u8 = "8 word"
type_synonym u32 = "32 word"
type_synonym u64 = "64 word"
type_synonym bytes = "8 word list"

named_theorems hm_simps \<open>reading a hash map or hash set after an update\<close>

section \<open>Hash maps\<close>

type_synonym ('k, 'v) hmap = "('k \<times> 'v) list"

definition hm_get :: "('k, 'v) hmap \<Rightarrow> 'k \<Rightarrow> 'v option" where
  "hm_get m k = map_of m k"

definition hm_has :: "('k, 'v) hmap \<Rightarrow> 'k \<Rightarrow> bool" where
  "hm_has m k = (map_of m k \<noteq> None)"

definition hm_insert :: "'k \<Rightarrow> 'v \<Rightarrow> ('k, 'v) hmap \<Rightarrow> ('k, 'v) hmap" where
  "hm_insert k v m = AList.update k v m"

definition hm_remove :: "'k \<Rightarrow> ('k, 'v) hmap \<Rightarrow> ('k, 'v) hmap" where
  "hm_remove k m = AList.delete k m"

text \<open>\<^verbatim>\<open>if let Some(v) = m.get_mut(k) { ... }\<close>: change the value in place, if there is one.\<close>

definition hm_modify :: "'k \<Rightarrow> ('v \<Rightarrow> 'v) \<Rightarrow> ('k, 'v) hmap \<Rightarrow> ('k, 'v) hmap" where
  "hm_modify k f m = AList.map_entry k f m"

definition hm_retain :: "('k \<Rightarrow> 'v \<Rightarrow> bool) \<Rightarrow> ('k, 'v) hmap \<Rightarrow> ('k, 'v) hmap" where
  "hm_retain P m = filter (\<lambda>(k, v). P k v) m"

definition hm_map_values :: "('v \<Rightarrow> 'w) \<Rightarrow> ('k, 'v) hmap \<Rightarrow> ('k, 'w) hmap" where
  "hm_map_values f m = map (\<lambda>(k, v). (k, f v)) m"

definition hm_keys :: "('k, 'v) hmap \<Rightarrow> 'k list" where
  "hm_keys m = map fst m"

text \<open>A hash map holds a key once.\<close>

definition hm_wf :: "('k, 'v) hmap \<Rightarrow> bool" where
  "hm_wf m \<longleftrightarrow> distinct (map fst m)"

lemma hm_get_Nil [simp]: "hm_get [] k = None"
  by (simp add: hm_get_def)

lemma hm_get_Cons [simp]: "hm_get ((k', v) # m) k = (if k = k' then Some v else hm_get m k)"
  by (auto simp: hm_get_def)

lemma hm_has_iff: "hm_has m k \<longleftrightarrow> hm_get m k \<noteq> None"
  by (simp add: hm_has_def hm_get_def)

lemma hm_has_iff_keys: "hm_has m k \<longleftrightarrow> k \<in> set (hm_keys m)"
  by (simp add: hm_has_def hm_keys_def map_of_eq_None_iff)

lemma hm_get_insert [simp, hm_simps]:
  "hm_get (hm_insert k v m) j = (if j = k then Some v else hm_get m j)"
  by (simp add: hm_get_def hm_insert_def update_conv)

lemma hm_get_remove [simp, hm_simps]:
  "hm_get (hm_remove k m) j = (if j = k then None else hm_get m j)"
  by (simp add: hm_get_def hm_remove_def delete_conv)

lemma hm_get_modify [simp, hm_simps]:
  "hm_get (hm_modify k f m) j = (if j = k then map_option f (hm_get m j) else hm_get m j)"
  by (induction m) (auto simp: hm_get_def hm_modify_def)

lemma hm_get_map_values [simp, hm_simps]:
  "hm_get (hm_map_values f m) k = map_option f (hm_get m k)"
  by (simp add: hm_get_def hm_map_values_def map_of_map)

lemma hm_keys_map_values [simp, hm_simps]: "hm_keys (hm_map_values f m) = hm_keys m"
  by (simp add: hm_keys_def hm_map_values_def split_def comp_def)

lemma hm_keys_modify [simp, hm_simps]: "hm_keys (hm_modify k f m) = hm_keys m"
  by (induction m) (auto simp: hm_keys_def hm_modify_def)

lemma hm_wf_Nil [simp]: "hm_wf []"
  by (simp add: hm_wf_def)

lemma hm_wf_insert [simp, intro]: "hm_wf m \<Longrightarrow> hm_wf (hm_insert k v m)"
  by (simp add: hm_wf_def hm_insert_def distinct_update)

lemma hm_wf_remove [simp, intro]: "hm_wf m \<Longrightarrow> hm_wf (hm_remove k m)"
  by (simp add: hm_wf_def hm_remove_def distinct_delete)

lemma hm_wf_modify [simp, intro]: "hm_wf (hm_modify k f m) = hm_wf m"
  using hm_keys_modify[of k f m] by (simp add: hm_wf_def hm_keys_def)

lemma hm_wf_map_values [simp]: "hm_wf (hm_map_values f m) = hm_wf m"
  using hm_keys_map_values[of f m] by (simp add: hm_wf_def hm_keys_def)

lemma hm_wf_retain [simp, intro]: "hm_wf m \<Longrightarrow> hm_wf (hm_retain P m)"
  by (simp add: hm_wf_def hm_retain_def distinct_map_filter)

lemma hm_get_retain:
  "hm_wf m \<Longrightarrow>
   hm_get (hm_retain P m) k = (case hm_get m k of None \<Rightarrow> None | Some v \<Rightarrow> if P k v then Some v else None)"
  by (induction m)
    (auto simp: hm_get_def hm_wf_def hm_retain_def map_of_eq_None_iff image_iff
          split: option.splits)

lemma hm_get_in_set: "hm_get m k = Some v \<Longrightarrow> (k, v) \<in> set m"
  by (simp add: hm_get_def map_of_SomeD)

lemma hm_in_set_iff: "hm_wf m \<Longrightarrow> (k, v) \<in> set m \<longleftrightarrow> hm_get m k = Some v"
  by (simp add: hm_get_def hm_wf_def map_of_eq_Some_iff)

lemma hm_length_remove_le: "length (hm_remove k m) \<le> length m"
  by (simp add: hm_remove_def AList.delete_eq)

lemma hm_length_remove_less: "hm_has m k \<Longrightarrow> length (hm_remove k m) < length m"
proof (induction m)
  case (Cons p m)
  show ?case
  proof (cases "fst p = k")
    case True
    then show ?thesis
      using hm_length_remove_le[of k m] by (simp add: hm_remove_def less_Suc_eq_le)
  next
    case False
    with Cons have "length (hm_remove k m) < length m"
      by (auto simp: hm_has_def split: if_splits)
    with False show ?thesis by (simp add: hm_remove_def)
  qed
qed (simp add: hm_has_def)

lemma hm_length_modify [simp]: "length (hm_modify k f m) = length m"
  by (induction m) (auto simp: hm_modify_def)

lemma hm_set_remove: "set (hm_remove k m) = {p \<in> set m. fst p \<noteq> k}"
  by (auto simp: hm_remove_def AList.delete_eq)

lemma hm_remove_filter: "hm_remove k m = filter (\<lambda>e. fst e \<noteq> k) m"
  unfolding hm_remove_def AList.delete_eq by (rule filter_cong) auto

lemma hm_has_simps [simp, hm_simps]:
  "hm_has (hm_insert k v m) j \<longleftrightarrow> j = k \<or> hm_has m j"
  "hm_has (hm_remove k m) j \<longleftrightarrow> j \<noteq> k \<and> hm_has m j"
  "hm_has (hm_modify k f m) j \<longleftrightarrow> hm_has m j"
  "hm_has (hm_map_values g m) j \<longleftrightarrow> hm_has m j"
  by (auto simp: hm_has_iff)

lemma hm_has_Nil [simp]: "\<not> hm_has [] k"
  by (simp add: hm_has_def)

section \<open>Hash sets\<close>

definition hs_insert :: "'a \<Rightarrow> 'a list \<Rightarrow> 'a list" where
  "hs_insert x xs = (if x \<in> set xs then xs else xs @ [x])"

definition hs_remove :: "'a \<Rightarrow> 'a list \<Rightarrow> 'a list" where
  "hs_remove x xs = filter (\<lambda>y. y \<noteq> x) xs"

lemma set_hs_insert [simp, hm_simps]: "set (hs_insert x xs) = insert x (set xs)"
  by (auto simp: hs_insert_def)

lemma set_hs_remove [simp, hm_simps]: "set (hs_remove x xs) = set xs - {x}"
  by (auto simp: hs_remove_def)

lemma distinct_hs_insert [simp, intro]: "distinct xs \<Longrightarrow> distinct (hs_insert x xs)"
  by (simp add: hs_insert_def)

lemma distinct_hs_remove [simp, intro]: "distinct xs \<Longrightarrow> distinct (hs_remove x xs)"
  by (simp add: hs_remove_def)

section \<open>Positions in a list\<close>

text \<open>\<^verbatim>\<open>iter().position(p)\<close>: the index of the first element that satisfies \<open>p\<close>.\<close>

fun position :: "('a \<Rightarrow> bool) \<Rightarrow> 'a list \<Rightarrow> nat option" where
  "position p [] = None"
| "position p (x # xs) = (if p x then Some 0 else map_option Suc (position p xs))"

text \<open>\<^verbatim>\<open>Vec::remove(i)\<close> and \<^verbatim>\<open>VecDeque::remove(i)\<close>, for an index in range.\<close>

definition remove_at :: "nat \<Rightarrow> 'a list \<Rightarrow> 'a list" where
  "remove_at i xs = take i xs @ drop (Suc i) xs"

lemma position_None_iff: "position p xs = None \<longleftrightarrow> (\<forall>x \<in> set xs. \<not> p x)"
  by (induction xs) auto

lemma position_SomeD:
  assumes "position p xs = Some i"
  shows "i < length xs \<and> p (xs ! i) \<and> (\<forall>j < i. \<not> p (xs ! j))"
  using assms
proof (induction xs arbitrary: i)
  case (Cons x xs)
  then show ?case by (auto simp: less_Suc_eq_0_disj split: if_splits)
qed simp

lemma position_append_first:
  "\<forall>x \<in> set ys. \<not> p x \<Longrightarrow> p x \<Longrightarrow> position p (ys @ x # zs) = Some (length ys)"
  by (induction ys) auto

lemma remove_at_append [simp]: "remove_at (length ys) (ys @ x # zs) = ys @ zs"
  by (simp add: remove_at_def)

lemma in_set_remove_at: "x \<in> set (remove_at k xs) \<Longrightarrow> x \<in> set xs"
  by (auto simp: remove_at_def dest: in_set_takeD in_set_dropD)

lemma position_split:
  assumes "position p xs = Some i"
  obtains ys x zs where "xs = ys @ x # zs" and "length ys = i" and "p x"
    and "\<forall>y \<in> set ys. \<not> p y" and "xs ! i = x" and "remove_at i xs = ys @ zs"
proof -
  from position_SomeD[OF assms] have i: "i < length xs" "p (xs ! i)" "\<forall>j < i. \<not> p (xs ! j)"
    by auto
  have "\<forall>y \<in> set (take i xs). \<not> p y"
    using i by (auto simp: in_set_conv_nth)
  with i show ?thesis
    using that[of "take i xs" "xs ! i" "drop (Suc i) xs"] id_take_nth_drop[OF i(1)]
    by (simp add: remove_at_def)
qed

lemma nth_update_any: "j < length xs \<Longrightarrow> xs[i := x] ! j = (if i = j then x else xs ! j)"
  by (cases "i = j") simp_all

section \<open>The first element that satisfies a test\<close>

lemma find_SomeD: "find P xs = Some x \<Longrightarrow> x \<in> set xs \<and> P x"
  by (auto simp: find_Some_iff)

end
