(* ===== verification/Pids.thy ===== *)
theory Pids
  imports Prelude
begin

text \<open>
  Particle identifiers (\<^verbatim>\<open>src/pid.rs\<close>): the pid itself and its derived order, the
  generator, the display form and the lossless key form with its parser.

  An \<^verbatim>\<open>EndpointId\<close> belongs to the iroh crate. It is a type parameter \<open>'n\<close>; where the code
  compares node ids the parameter is a linear order. The conversions the code calls
  (\<^verbatim>\<open>as_bytes\<close>, \<^verbatim>\<open>from_bytes\<close>, \<^verbatim>\<open>hex::encode\<close>, \<^verbatim>\<open>hex::decode\<close>) are the fields of
  \<open>node_codec\<close>, and \<open>codec_ok\<close> lists what the crates document about them.
\<close>

section \<open>Pids and their order\<close>

datatype 'n pid = Pid (node: 'n) (seq: u64)

instantiation pid :: (linorder) linorder
begin

definition less_eq_pid :: "'a pid \<Rightarrow> 'a pid \<Rightarrow> bool" where
  "less_eq_pid p q \<longleftrightarrow> node p < node q \<or> (node p = node q \<and> seq p \<le> seq q)"

definition less_pid :: "'a pid \<Rightarrow> 'a pid \<Rightarrow> bool" where
  "less_pid p q \<longleftrightarrow> node p < node q \<or> (node p = node q \<and> seq p < seq q)"

instance
  by standard (auto simp: less_eq_pid_def less_pid_def pid.expand)

end

definition is_local_to :: "'n pid \<Rightarrow> 'n \<Rightarrow> bool" where
  "is_local_to p n \<longleftrightarrow> node p = n"

lemma is_local_to_node [simp]: "is_local_to p (node p)"
  by (simp add: is_local_to_def)

section \<open>The generator\<close>

record 'n pid_gen =
  gen_node :: 'n
  next_seq :: u64

definition pid_gen_new :: "'n \<Rightarrow> 'n pid_gen" where
  "pid_gen_new n = \<lparr>gen_node = n, next_seq = 1\<rparr>"

text \<open>\<^verbatim>\<open>fetch_add\<close> returns the old counter and wraps around at \<open>2 ^ 64\<close>.\<close>

definition next_pid :: "'n pid_gen \<Rightarrow> 'n pid \<times> 'n pid_gen" where
  "next_pid g = (Pid (gen_node g) (next_seq g), g\<lparr>next_seq := next_seq g + 1\<rparr>)"

fun next_pids :: "nat \<Rightarrow> 'n pid_gen \<Rightarrow> 'n pid list \<times> 'n pid_gen" where
  "next_pids 0 g = ([], g)"
| "next_pids (Suc k) g =
     (let (p, g') = next_pid g; (ps, g'') = next_pids k g' in (p # ps, g''))"

lemma next_pid_simps [simp]:
  "fst (next_pid g) = Pid (gen_node g) (next_seq g)"
  "gen_node (snd (next_pid g)) = gen_node g"
  "next_seq (snd (next_pid g)) = next_seq g + 1"
  by (simp_all add: next_pid_def)

lemma next_pids_eq:
  "fst (next_pids k g) = map (\<lambda>i. Pid (gen_node g) (next_seq g + of_nat i)) [0..<k]"
proof (induction k arbitrary: g)
  case (Suc k)
  have "[0..<Suc k] = 0 # map Suc [0..<k]"
    by (simp add: upt_conv_Cons map_Suc_upt del: upt_Suc)
  with Suc show ?case
    by (simp add: Let_def split_def next_pid_def comp_def algebra_simps del: upt_Suc)
qed simp

lemma of_nat_u64_inj:
  "i < 2 ^ 64 \<Longrightarrow> j < 2 ^ 64 \<Longrightarrow> (of_nat i :: u64) = of_nat j \<longleftrightarrow> i = j"
  by (auto simp: word_of_nat_eq_iff take_bit_nat_eq_self)

text \<open>Up to a full turn of the counter, the generator never repeats itself.\<close>

lemma next_pids_distinct: "k \<le> 2 ^ 64 \<Longrightarrow> distinct (fst (next_pids k g))"
  by (auto simp: next_pids_eq distinct_map inj_on_def of_nat_u64_inj)

section \<open>Decimal numbers, as \<^verbatim>\<open>u64\<close> prints and parses them\<close>

definition digit_char :: "nat \<Rightarrow> char" where
  "digit_char d = char_of (48 + d)"

definition digit_val :: "char \<Rightarrow> nat option" where
  "digit_val c = (let n = of_char c :: nat in if 48 \<le> n \<and> n \<le> 57 then Some (n - 48) else None)"

fun show_nat :: "nat \<Rightarrow> string" where
  "show_nat n = (if n < 10 then [digit_char n] else show_nat (n div 10) @ [digit_char (n mod 10)])"

declare show_nat.simps [simp del]

definition show_u64 :: "u64 \<Rightarrow> string" where
  "show_u64 w = show_nat (unat w)"

definition push_digit :: "nat option \<Rightarrow> char \<Rightarrow> nat option" where
  "push_digit acc c =
     (case acc of None \<Rightarrow> None | Some a \<Rightarrow>
        (case digit_val c of None \<Rightarrow> None | Some d \<Rightarrow>
           if a * 10 + d < 2 ^ 64 then Some (a * 10 + d) else None))"

text \<open>
  \<^verbatim>\<open>str::parse::<u64>\<close>: a leading plus sign is accepted, an empty digit string, a
  character that is no digit and an overflow are refused.
\<close>

definition parse_u64 :: "string \<Rightarrow> u64 option" where
  "parse_u64 s =
     (let ds = (case s of [] \<Rightarrow> [] | c # cs \<Rightarrow> if c = CHR ''+'' then cs else s)
      in if ds = [] then None else map_option of_nat (foldl push_digit (Some 0) ds))"

lemma digit_val_char [simp]: "d < 10 \<Longrightarrow> digit_val (digit_char d) = Some d"
  by (simp add: digit_val_def digit_char_def Let_def)

lemma show_nat_nonempty [simp]: "show_nat n \<noteq> []"
  by (subst show_nat.simps) simp

lemma show_nat_digits: "c \<in> set (show_nat n) \<Longrightarrow> digit_val c \<noteq> None"
proof (induction n rule: show_nat.induct)
  case (1 n)
  then show ?case
    by (cases "n < 10") (auto simp: show_nat.simps[of n])
qed

lemma push_digit_Some:
  "d < 10 \<Longrightarrow> a * 10 + d < 2 ^ 64 \<Longrightarrow> push_digit (Some a) (digit_char d) = Some (a * 10 + d)"
  by (simp add: push_digit_def)

lemma push_show_nat: "n < 2 ^ 64 \<Longrightarrow> foldl push_digit (Some 0) (show_nat n) = Some n"
proof (induction n rule: show_nat.induct)
  case (1 n)
  show ?case
  proof (cases "n < 10")
    case True
    then show ?thesis by (simp add: show_nat.simps[of n] push_digit_def)
  next
    case False
    have "n div 10 < 2 ^ 64" using "1.prems" by simp
    with "1.IH" False have "foldl push_digit (Some 0) (show_nat (n div 10)) = Some (n div 10)"
      by blast
    then have "foldl push_digit (Some 0) (show_nat n) = push_digit (Some (n div 10)) (digit_char (n mod 10))"
      using False by (simp add: show_nat.simps[of n])
    also have "\<dots> = Some (n div 10 * 10 + n mod 10)"
      using "1.prems" by (simp add: push_digit_Some)
    finally show ?thesis by simp
  qed
qed

lemma not_digit_sign: "digit_val CHR ''+'' = None" "digit_val CHR ''.'' = None"
  by (simp_all add: digit_val_def)

lemma parse_show_u64: "parse_u64 (show_u64 w) = Some w"
proof -
  have "hd (show_nat (unat w)) \<noteq> CHR ''+''"
    using show_nat_digits[OF hd_in_set[OF show_nat_nonempty[of "unat w"]]] not_digit_sign(1)
    by (cases "hd (show_nat (unat w)) = CHR ''+''") auto
  then have "(case show_nat (unat w) of [] \<Rightarrow> [] | c # cs \<Rightarrow> if c = CHR ''+'' then cs
      else show_nat (unat w)) = show_nat (unat w)"
    by (cases "show_nat (unat w)") auto
  then show ?thesis
    using push_show_nat[of "unat w"] unsigned_less[of w, where 'a = nat]
    by (simp add: parse_u64_def show_u64_def Let_def)
qed

lemma dot_notin_show_u64: "CHR ''.'' \<notin> set (show_u64 w)"
  using show_nat_digits[of "CHR ''.''" "unat w"] not_digit_sign by (auto simp: show_u64_def)

section \<open>Keys and display strings\<close>

record 'n node_codec =
  as_bytes :: "'n \<Rightarrow> bytes"
  from_bytes :: "bytes \<Rightarrow> 'n option"
  hex_encode :: "bytes \<Rightarrow> string"
  hex_decode :: "string \<Rightarrow> bytes option"

definition codec_ok :: "'n node_codec \<Rightarrow> bool" where
  "codec_ok c \<longleftrightarrow>
     (\<forall>n. length (as_bytes c n) = 32 \<and> from_bytes c (as_bytes c n) = Some n) \<and>
     (\<forall>bs. hex_decode c (hex_encode c bs) = Some bs \<and> length (hex_encode c bs) = 2 * length bs)"

text \<open>\<^verbatim>\<open>rsplit_once('.')\<close>: the text before and after the last separator.\<close>

definition rsplit_once :: "char \<Rightarrow> string \<Rightarrow> (string \<times> string) option" where
  "rsplit_once c s =
     (case position (\<lambda>x. x = c) (rev s) of
        None \<Rightarrow> None
      | Some i \<Rightarrow> Some (rev (drop (Suc i) (rev s)), rev (take i (rev s))))"

datatype key_error = NoSeparator | BadHex | BadLength | BadNode | BadSeq

definition node_prefix :: "'n node_codec \<Rightarrow> 'n pid \<Rightarrow> string" where
  "node_prefix c p = hex_encode c (take 4 (as_bytes c (node p)))"

definition show_pid :: "'n node_codec \<Rightarrow> 'n pid \<Rightarrow> string" where
  "show_pid c p = ''<'' @ node_prefix c p @ ''.'' @ show_u64 (seq p) @ ''>''"

definition to_key :: "'n node_codec \<Rightarrow> 'n pid \<Rightarrow> string" where
  "to_key c p = hex_encode c (as_bytes c (node p)) @ ''.'' @ show_u64 (seq p)"

definition from_key :: "'n node_codec \<Rightarrow> string \<Rightarrow> key_error + 'n pid" where
  "from_key c s =
     (case rsplit_once CHR ''.'' s of None \<Rightarrow> Inl NoSeparator | Some (node_hex, seq_str) \<Rightarrow>
      (case hex_decode c node_hex of None \<Rightarrow> Inl BadHex | Some bs \<Rightarrow>
       if length bs \<noteq> 32 then Inl BadLength else
       (case from_bytes c bs of None \<Rightarrow> Inl BadNode | Some n \<Rightarrow>
        (case parse_u64 seq_str of None \<Rightarrow> Inl BadSeq | Some k \<Rightarrow> Inr (Pid n k)))))"

lemma rsplit_once_append: "c \<notin> set b \<Longrightarrow> rsplit_once c (a @ c # b) = Some (a, b)"
proof -
  assume "c \<notin> set b"
  then have "position (\<lambda>x. x = c) (rev b @ c # rev a) = Some (length (rev b))"
    by (intro position_append_first) auto
  then show ?thesis by (simp add: rsplit_once_def)
qed

lemma rsplit_once_None: "rsplit_once c s = None \<longleftrightarrow> c \<notin> set s"
  by (simp add: rsplit_once_def position_None_iff option.case_eq_if) blast

lemma rsplit_once_SomeD:
  assumes "rsplit_once c s = Some (a, b)"
  shows "s = a @ c # b \<and> c \<notin> set b"
proof -
  from assms obtain i where "position (\<lambda>x. x = c) (rev s) = Some i"
    and ab: "a = rev (drop (Suc i) (rev s))" "b = rev (take i (rev s))"
    by (auto simp: rsplit_once_def split: option.splits)
  then obtain ys zs where rs: "rev s = ys @ c # zs" and i: "length ys = i"
    and ys: "\<forall>y \<in> set ys. y \<noteq> c"
    by (elim position_split) auto
  have "s = rev (ys @ c # zs)" using rs by (metis rev_rev_ident)
  with ab rs i ys show ?thesis by auto
qed

lemma from_to_key: "codec_ok c \<Longrightarrow> from_key c (to_key c p) = Inr p"
proof -
  assume ok: "codec_ok c"
  have "rsplit_once CHR ''.'' (to_key c p) = Some (hex_encode c (as_bytes c (node p)), show_u64 (seq p))"
    by (simp add: to_key_def rsplit_once_append dot_notin_show_u64)
  with ok show ?thesis
    by (simp add: from_key_def codec_ok_def parse_show_u64)
qed

lemma to_key_inj: "codec_ok c \<Longrightarrow> to_key c p = to_key c q \<Longrightarrow> p = q"
  by (metis from_to_key sum.inject(2))

text \<open>A node whose display prefix agrees with another's renders the same pids.\<close>

lemma show_pid_ambiguous:
  "take 4 (as_bytes c m) = take 4 (as_bytes c n) \<Longrightarrow>
   show_pid c (Pid m k) = show_pid c (Pid n k)"
  by (simp add: show_pid_def node_prefix_def)

section \<open>A codec that satisfies the crates' contract\<close>

text \<open>
  Used by the witnesses: node ids of one byte, padded to 32, and lower-case hexadecimal.
\<close>

definition nibble_char :: "nat \<Rightarrow> char" where
  "nibble_char d = char_of (if d < 10 then 48 + d else 87 + d)"

definition nibble_val :: "char \<Rightarrow> nat option" where
  "nibble_val c =
     (let n = of_char c :: nat
      in if 48 \<le> n \<and> n \<le> 57 then Some (n - 48)
         else if 97 \<le> n \<and> n \<le> 102 then Some (n - 87) else None)"

definition hex_of :: "bytes \<Rightarrow> string" where
  "hex_of bs = concat (map (\<lambda>b. [nibble_char (unat b div 16), nibble_char (unat b mod 16)]) bs)"

fun unhex :: "string \<Rightarrow> bytes option" where
  "unhex [] = Some []"
| "unhex [c] = None"
| "unhex (c # d # cs) =
     (case (nibble_val c, nibble_val d, unhex cs) of
        (Some h, Some l, Some bs) \<Rightarrow> Some (of_nat (16 * h + l) # bs)
      | _ \<Rightarrow> None)"

definition byte_codec :: "u8 node_codec" where
  "byte_codec = \<lparr>as_bytes = (\<lambda>n. n # replicate 31 0),
     from_bytes = (\<lambda>bs. if length bs = 32 then Some (hd bs) else None),
     hex_encode = hex_of, hex_decode = unhex\<rparr>"

lemma nibble_val_char: "d < 16 \<Longrightarrow> nibble_val (nibble_char d) = Some d"
  by (auto simp: nibble_val_def nibble_char_def Let_def)

lemma unhex_hex_of: "unhex (hex_of bs) = Some bs"
proof (induction bs)
  case (Cons b bs)
  have b: "unat b < 256" using unsigned_less[of b, where 'a = nat] by simp
  then have h: "unat b div 16 < 16" by auto
  have "16 * (unat b div 16) + unat b mod 16 = unat b" by simp
  then have "(of_nat (16 * (unat b div 16) + unat b mod 16) :: u8) = b"
    by simp
  with Cons h show ?case by (simp add: hex_of_def nibble_val_char)
qed (simp add: hex_of_def)

lemma length_hex_of: "length (hex_of bs) = 2 * length bs"
  by (induction bs) (auto simp: hex_of_def)

lemma byte_codec_ok: "codec_ok byte_codec"
  by (simp add: codec_ok_def byte_codec_def unhex_hex_of length_hex_of)

end
