(* ===== verification/Messages.thy ===== *)
theory Messages
  imports Pids
begin

text \<open>
  The vocabulary particles and nodes exchange: exit reasons and system messages
  (\<^verbatim>\<open>src/message.rs\<close>), mailbox messages and spawn failures (\<^verbatim>\<open>src/mailbox.rs\<close>), and the
  policy set that travels with a component (\<^verbatim>\<open>src/policy.rs\<close>).
\<close>

datatype exit_reason =
    Normal
  | Kill
  | Killed
  | Shutdown string
  | Exception string
  | NoProc
  | NoConnection

definition is_abnormal :: "exit_reason \<Rightarrow> bool" where
  "is_abnormal r = (case r of Normal \<Rightarrow> False | _ \<Rightarrow> True)"

lemma is_abnormal_iff: "is_abnormal r \<longleftrightarrow> r \<noteq> Normal"
  by (cases r) (simp_all add: is_abnormal_def)

datatype 'n system_message =
    SysExit "'n pid" exit_reason
  | SysDown "'n pid" u64 exit_reason

datatype spawn_failure = ComponentNotFound | InitFailed | ResourceLimit | NodeUnreachable

datatype 'n mailbox_message =
    Data bytes
  | Tagged u64 bytes
  | MExit "'n pid" exit_reason
  | MDown "'n pid" u64 exit_reason
  | SpawnReply u64 "spawn_failure + 'n pid"

datatype send_error = NoParticle

section \<open>Policies\<close>

record policy_set =
  capabilities :: "string list"

definition policy_empty :: policy_set where
  "policy_empty = \<lparr>capabilities = []\<rparr>"

definition with_capabilities :: "string list \<Rightarrow> policy_set" where
  "with_capabilities caps = \<lparr>capabilities = foldl (\<lambda>s c. hs_insert c s) [] caps\<rparr>"

definition policy_all :: policy_set where
  "policy_all = with_capabilities
     [''logging'', ''particle:send'', ''particle:spawn'', ''particle:link'',
      ''particle:monitor'', ''particle:register'', ''particle:lookup'']"

definition allows :: "policy_set \<Rightarrow> string \<Rightarrow> bool" where
  "allows p c \<longleftrightarrow> c \<in> set (capabilities p)"

lemma set_foldl_hs_insert: "set (foldl (\<lambda>s c. hs_insert c s) acc caps) = set acc \<union> set caps"
  by (induction caps arbitrary: acc) auto

lemma allows_with_capabilities: "allows (with_capabilities caps) c \<longleftrightarrow> c \<in> set caps"
  by (simp add: allows_def with_capabilities_def set_foldl_hs_insert)

lemma allows_empty: "\<not> allows policy_empty c"
  by (simp add: allows_def policy_empty_def)

section \<open>The reasons of the component interface\<close>

text \<open>The \<^verbatim>\<open>exit-reason\<close> of the WIT world, and the two conversions of \<^verbatim>\<open>src/runtime/invoke.rs\<close>.\<close>

datatype wit_reason =
    WNormal
  | WKill
  | WKilled
  | WShutdown string
  | WException string
  | WNoproc
  | WNoconnection

definition wit_exit_reason_to_internal :: "wit_reason \<Rightarrow> exit_reason" where
  "wit_exit_reason_to_internal r =
     (case r of WNormal \<Rightarrow> Normal | WKill \<Rightarrow> Kill | WKilled \<Rightarrow> Killed | WShutdown s \<Rightarrow> Shutdown s
      | WException s \<Rightarrow> Exception s | WNoproc \<Rightarrow> NoProc | WNoconnection \<Rightarrow> NoConnection)"

definition internal_exit_reason_to_wit :: "exit_reason \<Rightarrow> wit_reason" where
  "internal_exit_reason_to_wit r =
     (case r of Normal \<Rightarrow> WNormal | Kill \<Rightarrow> WKill | Killed \<Rightarrow> WKilled | Shutdown s \<Rightarrow> WShutdown s
      | Exception s \<Rightarrow> WException s | NoProc \<Rightarrow> WNoproc | NoConnection \<Rightarrow> WNoconnection)"

lemma wit_reason_roundtrip [simp]:
  "wit_exit_reason_to_internal (internal_exit_reason_to_wit r) = r"
  "internal_exit_reason_to_wit (wit_exit_reason_to_internal w) = w"
  by (cases r; simp add: wit_exit_reason_to_internal_def internal_exit_reason_to_wit_def)
    (cases w; simp add: wit_exit_reason_to_internal_def internal_exit_reason_to_wit_def)

end
