(* ===== verification/Mailboxes.thy ===== *)
theory Mailboxes
  imports Messages
begin

text \<open>
  The particle's mailbox (\<^verbatim>\<open>src/mailbox.rs\<close>): an unbounded queue that data, tagged and
  spawn-reply messages join at the back and exit and down signals at the front, read
  either in order (\<open>recv\<close>) or by reference (\<open>recv_ref\<close>).

  Each operation runs under the mailbox's mutex and is one atomic function here. The two
  receiving loops wait on a \<^verbatim>\<open>Notify\<close> between attempts; they are run against a schedule
  that lists, for each wait, how long it lasts and what the other tasks do to the mailbox
  before the wake-up. \<^verbatim>\<open>usize\<close> is 64 bits wide.
\<close>

section \<open>State and operations\<close>

record 'n mailbox =
  queue :: "'n mailbox_message list"
  data_count :: u64
  closed :: bool

definition mailbox_new :: "'n mailbox" where
  "mailbox_new = \<lparr>queue = [], data_count = 0, closed = False\<rparr>"

definition push_data :: "'n mailbox \<Rightarrow> bytes \<Rightarrow> send_error + 'n mailbox" where
  "push_data mb msg =
     (if closed mb then Inl NoParticle
      else Inr (mb\<lparr>data_count := data_count mb + 1, queue := queue mb @ [Data msg]\<rparr>))"

definition push_tagged :: "'n mailbox \<Rightarrow> u64 \<Rightarrow> bytes \<Rightarrow> send_error + 'n mailbox" where
  "push_tagged mb ref_id payload =
     (if closed mb then Inl NoParticle
      else Inr (mb\<lparr>data_count := data_count mb + 1, queue := queue mb @ [Tagged ref_id payload]\<rparr>))"

definition push_spawn_reply :: "'n mailbox \<Rightarrow> u64 \<Rightarrow> spawn_failure + 'n pid \<Rightarrow> 'n mailbox" where
  "push_spawn_reply mb ref_id outcome =
     (if closed mb then mb else mb\<lparr>queue := queue mb @ [SpawnReply ref_id outcome]\<rparr>)"

definition system_to_mailbox :: "'n system_message \<Rightarrow> 'n mailbox_message" where
  "system_to_mailbox msg =
     (case msg of SysExit from reason \<Rightarrow> MExit from reason
                | SysDown from monitor_ref reason \<Rightarrow> MDown from monitor_ref reason)"

definition push_system :: "'n mailbox \<Rightarrow> 'n system_message \<Rightarrow> 'n mailbox" where
  "push_system mb msg = mb\<lparr>queue := system_to_mailbox msg # queue mb\<rparr>"

definition close_mailbox :: "'n mailbox \<Rightarrow> 'n mailbox" where
  "close_mailbox mb = mb\<lparr>closed := True\<rparr>"

text \<open>What one attempt of a receiving loop finds while it holds the mutex.\<close>

datatype 'n poll = Ready "'n mailbox_message" | Gone | Wait

definition counts_as_data :: "'n mailbox_message \<Rightarrow> bool" where
  "counts_as_data m = (case m of Data _ \<Rightarrow> True | Tagged _ _ \<Rightarrow> True | _ \<Rightarrow> False)"

definition is_tagged :: "'n mailbox_message \<Rightarrow> bool" where
  "is_tagged m = (case m of Tagged _ _ \<Rightarrow> True | _ \<Rightarrow> False)"

definition matches_ref :: "u64 \<Rightarrow> 'n mailbox_message \<Rightarrow> bool" where
  "matches_ref ref_id m =
     (case m of Tagged r _ \<Rightarrow> r = ref_id | MDown _ r _ \<Rightarrow> r = ref_id
              | SpawnReply r _ \<Rightarrow> r = ref_id | _ \<Rightarrow> False)"

definition poll_recv :: "'n mailbox \<Rightarrow> 'n poll \<times> 'n mailbox" where
  "poll_recv mb =
     (case queue mb of
        m # ms \<Rightarrow>
          (Ready m, mb\<lparr>queue := ms,
             data_count := if counts_as_data m then data_count mb - 1 else data_count mb\<rparr>)
      | [] \<Rightarrow> if closed mb then (Gone, mb) else (Wait, mb))"

definition poll_recv_ref :: "u64 \<Rightarrow> 'n mailbox \<Rightarrow> 'n poll \<times> 'n mailbox" where
  "poll_recv_ref ref_id mb =
     (case position (matches_ref ref_id) (queue mb) of
        Some pos \<Rightarrow>
          (let m = queue mb ! pos in
           (Ready m, mb\<lparr>queue := remove_at pos (queue mb),
              data_count := if is_tagged m then data_count mb - 1 else data_count mb\<rparr>))
      | None \<Rightarrow> if closed mb then (Gone, mb) else (Wait, mb))"

section \<open>The receiving loops\<close>

datatype 'n mb_op =
    OpData bytes
  | OpTagged u64 bytes
  | OpSpawnReply u64 "spawn_failure + 'n pid"
  | OpSystem "'n system_message"
  | OpClose

definition mb_apply :: "'n mailbox \<Rightarrow> 'n mb_op \<Rightarrow> 'n mailbox" where
  "mb_apply mb op =
     (case op of
        OpData d \<Rightarrow> (case push_data mb d of Inl _ \<Rightarrow> mb | Inr mb' \<Rightarrow> mb')
      | OpTagged r d \<Rightarrow> (case push_tagged mb r d of Inl _ \<Rightarrow> mb | Inr mb' \<Rightarrow> mb')
      | OpSpawnReply r out \<Rightarrow> push_spawn_reply mb r out
      | OpSystem msg \<Rightarrow> push_system mb msg
      | OpClose \<Rightarrow> close_mailbox mb)"

text \<open>
  A schedule entry \<open>(gap, ops)\<close> says that the next notification comes \<open>gap\<close> milliseconds
  after the wait began, with \<open>ops\<close> done to the mailbox in between. When the schedule is
  exhausted no notification comes any more.
\<close>

type_synonym 'n schedule = "(nat \<times> 'n mb_op list) list"

datatype 'n received = Got "'n mailbox_message" | Nothing | Blocked

record 'n recv_outcome =
  result :: "'n received"
  waited :: nat
  left :: "'n mailbox"

fun recv_loop ::
  "('n mailbox \<Rightarrow> 'n poll \<times> 'n mailbox) \<Rightarrow> nat option \<Rightarrow> 'n schedule \<Rightarrow> nat \<Rightarrow> 'n mailbox
     \<Rightarrow> 'n recv_outcome" where
  "recv_loop attempt timeout [] t mb =
     (case attempt mb of
        (Ready m, mb') \<Rightarrow> \<lparr>result = Got m, waited = t, left = mb'\<rparr>
      | (Gone, mb') \<Rightarrow> \<lparr>result = Nothing, waited = t, left = mb'\<rparr>
      | (Wait, mb') \<Rightarrow>
          (case timeout of
             Some dur \<Rightarrow> \<lparr>result = Nothing, waited = t + dur, left = mb'\<rparr>
           | None \<Rightarrow> \<lparr>result = Blocked, waited = t, left = mb'\<rparr>))"
| "recv_loop attempt timeout ((gap, ops) # ws) t mb =
     (case attempt mb of
        (Ready m, mb') \<Rightarrow> \<lparr>result = Got m, waited = t, left = mb'\<rparr>
      | (Gone, mb') \<Rightarrow> \<lparr>result = Nothing, waited = t, left = mb'\<rparr>
      | (Wait, mb') \<Rightarrow>
          (case timeout of
             Some dur \<Rightarrow>
               if gap \<le> dur then recv_loop attempt timeout ws (t + gap) (foldl mb_apply mb' ops)
               else \<lparr>result = Nothing, waited = t + dur, left = mb'\<rparr>
           | None \<Rightarrow> recv_loop attempt timeout ws (t + gap) (foldl mb_apply mb' ops)))"

definition recv :: "nat option \<Rightarrow> 'n schedule \<Rightarrow> 'n mailbox \<Rightarrow> 'n recv_outcome" where
  "recv timeout ws mb = recv_loop poll_recv timeout ws 0 mb"

definition recv_ref :: "u64 \<Rightarrow> nat option \<Rightarrow> 'n schedule \<Rightarrow> 'n mailbox \<Rightarrow> 'n recv_outcome" where
  "recv_ref ref_id timeout ws mb = recv_loop (poll_recv_ref ref_id) timeout ws 0 mb"

section \<open>The interface the registry relies on\<close>

text \<open>
  A box takes ordinary items at the back until it is shut, and urgent ones at the front
  always. The registry needs nothing else of a mailbox.
\<close>

locale message_box =
  fixes push :: "'b \<Rightarrow> 'd \<Rightarrow> 'e + 'b"
    and urgent :: "'b \<Rightarrow> 's \<Rightarrow> 'b"
    and shut :: "'b \<Rightarrow> 'b"
    and items :: "'b \<Rightarrow> 'm list"
    and is_shut :: "'b \<Rightarrow> bool"
    and wrap :: "'d \<Rightarrow> 'm"
    and wrap_urgent :: "'s \<Rightarrow> 'm"
  assumes push_shut: "is_shut b \<Longrightarrow> \<exists>e. push b d = Inl e"
    and push_open: "\<not> is_shut b \<Longrightarrow> \<exists>b'. push b d = Inr b' \<and> items b' = items b @ [wrap d] \<and> \<not> is_shut b'"
    and urgent_items: "items (urgent b s) = wrap_urgent s # items b"
    and urgent_shut: "is_shut (urgent b s) = is_shut b"
    and shut_items: "items (shut b) = items b"
    and shut_shut: "is_shut (shut b)"
begin

lemma push_fails_iff: "(\<exists>e. push b d = Inl e) \<longleftrightarrow> is_shut b"
  using push_shut push_open by (metis Inl_Inr_False)

lemma shut_refuses: "\<exists>e. push (shut b) d = Inl e"
  by (rule push_shut) (rule shut_shut)

lemma urgent_all_items: "items (foldl urgent b ss) = rev (map wrap_urgent ss) @ items b"
  by (induction ss arbitrary: b) (simp_all add: urgent_items)

lemma urgent_all_shut: "is_shut (foldl urgent b ss) = is_shut b"
  by (induction ss arbitrary: b) (simp_all add: urgent_shut)

text \<open>A run of pushes into an open box keeps the send order.\<close>

lemma push_all_items:
  assumes "\<not> is_shut b"
  shows "\<exists>b'. foldl (\<lambda>x d. case x of Inl e \<Rightarrow> Inl e | Inr b \<Rightarrow> push b d) (Inr b) ds = Inr b'
     \<and> items b' = items b @ map wrap ds \<and> \<not> is_shut b'"
  using assms
proof (induction ds arbitrary: b)
  case (Cons d ds)
  from push_open[OF Cons.prems] obtain b1 where "push b d = Inr b1"
    and "items b1 = items b @ [wrap d]" and "\<not> is_shut b1"
    by blast
  with Cons.IH[of b1] show ?case by auto
qed simp

end

interpretation data_box: message_box push_data push_system close_mailbox queue closed Data system_to_mailbox
  by unfold_locales
    (auto simp: push_data_def push_system_def close_mailbox_def)

interpretation tagged_box: message_box "\<lambda>mb (r, d). push_tagged mb r d" push_system close_mailbox
    queue closed "\<lambda>(r, d). Tagged r d" system_to_mailbox
  by unfold_locales
    (auto simp: push_tagged_def push_system_def close_mailbox_def)

section \<open>The counter agrees with the queue\<close>

definition mb_inv :: "'n mailbox \<Rightarrow> bool" where
  "mb_inv mb \<longleftrightarrow> data_count mb = of_nat (length (filter counts_as_data (queue mb)))"

named_theorems mb_defs \<open>definitions of the mailbox operations\<close>

lemmas [mb_defs] = push_data_def push_tagged_def push_spawn_reply_def push_system_def
  close_mailbox_def system_to_mailbox_def counts_as_data_def is_tagged_def matches_ref_def

lemma mb_inv_new: "mb_inv mailbox_new"
  by (simp add: mb_inv_def mailbox_new_def)

lemma mb_inv_push_data: "mb_inv mb \<Longrightarrow> push_data mb d = Inr mb' \<Longrightarrow> mb_inv mb'"
  by (auto simp: mb_inv_def mb_defs split: if_splits)

lemma mb_inv_push_tagged: "mb_inv mb \<Longrightarrow> push_tagged mb r d = Inr mb' \<Longrightarrow> mb_inv mb'"
  by (auto simp: mb_inv_def mb_defs split: if_splits)

lemma mb_inv_push_spawn_reply: "mb_inv mb \<Longrightarrow> mb_inv (push_spawn_reply mb r out)"
  by (auto simp: mb_inv_def mb_defs)

lemma mb_inv_push_system: "mb_inv mb \<Longrightarrow> mb_inv (push_system mb msg)"
  by (auto simp: mb_inv_def mb_defs split: system_message.splits)

lemma mb_inv_close: "mb_inv mb \<Longrightarrow> mb_inv (close_mailbox mb)"
  by (auto simp: mb_inv_def mb_defs)

lemma mb_inv_apply: "mb_inv mb \<Longrightarrow> mb_inv (mb_apply mb op)"
  by (cases op)
    (auto simp: mb_apply_def mb_inv_push_spawn_reply mb_inv_push_system mb_inv_close
      intro: mb_inv_push_data mb_inv_push_tagged split: sum.splits)

lemma mb_inv_apply_all: "mb_inv mb \<Longrightarrow> mb_inv (foldl mb_apply mb ops)"
  by (induction ops arbitrary: mb) (auto simp: mb_inv_apply)

lemma mb_inv_poll_recv: "mb_inv mb \<Longrightarrow> mb_inv (snd (poll_recv mb))"
  by (auto simp: mb_inv_def poll_recv_def split: list.splits)

lemma tagged_if_counted:
  "matches_ref r m \<Longrightarrow> counts_as_data m = is_tagged m"
  by (cases m) (auto simp: mb_defs)

lemma poll_recv_ref_Ready:
  assumes "poll_recv_ref r mb = (Ready m, mb')"
  obtains ys zs where "queue mb = ys @ m # zs" and "matches_ref r m"
    and "\<forall>y \<in> set ys. \<not> matches_ref r y" and "queue mb' = ys @ zs"
    and "data_count mb' = (if is_tagged m then data_count mb - 1 else data_count mb)"
    and "closed mb' = closed mb"
proof -
  from assms obtain i where pos: "position (matches_ref r) (queue mb) = Some i"
    and m: "m = queue mb ! i"
    and mb': "mb' = mb\<lparr>queue := remove_at i (queue mb),
        data_count := if is_tagged m then data_count mb - 1 else data_count mb\<rparr>"
    by (auto simp: poll_recv_ref_def Let_def split: option.splits if_splits)
  from pos obtain ys x zs where "queue mb = ys @ x # zs" "matches_ref r x"
    "\<forall>y \<in> set ys. \<not> matches_ref r y" "queue mb ! i = x" "remove_at i (queue mb) = ys @ zs"
    by (elim position_split) auto
  with m mb' show ?thesis by (intro that[of ys zs]) auto
qed

lemma poll_recv_ref_not_Ready:
  "poll_recv_ref r mb = (p, mb') \<Longrightarrow> (\<nexists>m. p = Ready m) \<Longrightarrow>
   mb' = mb \<and> (\<forall>m \<in> set (queue mb). \<not> matches_ref r m) \<and> p = (if closed mb then Gone else Wait)"
  by (auto simp: poll_recv_ref_def Let_def position_None_iff split: option.splits if_splits)

lemma mb_inv_poll_recv_ref: "mb_inv mb \<Longrightarrow> mb_inv (snd (poll_recv_ref r mb))"
proof -
  assume inv: "mb_inv mb"
  obtain p mb' where p: "poll_recv_ref r mb = (p, mb')" by fastforce
  show ?thesis
  proof (cases "\<exists>m. p = Ready m")
    case True
    then obtain m where "poll_recv_ref r mb = (Ready m, mb')" using p by auto
    then show ?thesis using inv p
      by (elim poll_recv_ref_Ready) (auto simp: mb_inv_def tagged_if_counted)
  next
    case False
    with poll_recv_ref_not_Ready[OF p] inv p show ?thesis by simp
  qed
qed

lemma mb_inv_recv_loop:
  assumes "\<And>mb. mb_inv mb \<Longrightarrow> mb_inv (snd (attempt mb))" and "mb_inv mb"
  shows "mb_inv (left (recv_loop attempt timeout ws t mb))"
  using assms(2)
proof (induction ws arbitrary: t mb)
  case Nil
  obtain p mb' where a: "attempt mb = (p, mb')" by fastforce
  with assms(1)[OF Nil] have "mb_inv mb'" by simp
  with a show ?case by (cases p) (auto split: option.splits)
next
  case (Cons w ws)
  obtain p mb' where a: "attempt mb = (p, mb')" by fastforce
  with assms(1)[OF Cons.prems] have "mb_inv mb'" by simp
  with a Cons.IH show ?case
    by (cases w; cases p) (auto simp: mb_inv_apply_all split: option.splits)
qed

lemma mb_inv_recv: "mb_inv mb \<Longrightarrow> mb_inv (left (recv timeout ws mb))"
  unfolding recv_def by (rule mb_inv_recv_loop) (rule mb_inv_poll_recv)

lemma mb_inv_recv_ref: "mb_inv mb \<Longrightarrow> mb_inv (left (recv_ref r timeout ws mb))"
  unfolding recv_ref_def by (rule mb_inv_recv_loop) (rule mb_inv_poll_recv_ref)

text \<open>A mailbox's life: any mixture of operations and receives.\<close>

datatype 'n mb_event =
    Op "'n mb_op"
  | Recv "nat option" "'n schedule"
  | RecvRef u64 "nat option" "'n schedule"

definition mb_step :: "'n mailbox \<Rightarrow> 'n mb_event \<Rightarrow> 'n mailbox" where
  "mb_step mb ev =
     (case ev of Op op \<Rightarrow> mb_apply mb op
               | Recv timeout ws \<Rightarrow> left (recv timeout ws mb)
               | RecvRef r timeout ws \<Rightarrow> left (recv_ref r timeout ws mb))"

lemma mb_inv_step: "mb_inv mb \<Longrightarrow> mb_inv (mb_step mb ev)"
  by (cases ev) (auto simp: mb_step_def mb_inv_apply mb_inv_recv mb_inv_recv_ref)

lemma mb_inv_life: "mb_inv mb \<Longrightarrow> mb_inv (foldl mb_step mb evs)"
  by (induction evs arbitrary: mb) (auto simp: mb_inv_step)

text \<open>
  C31: the mailbox's counter of user messages is exact through its whole life. Whatever
  mixture of pushes, closes and (selective) receives a mailbox has been through, its
  \<open>data_count\<close> is the number of data and tagged messages in the queue, so the two
  decrements in the receiving loops never go below zero.
\<close>

theorem data_count_exact:
  assumes "mb = foldl mb_step mailbox_new evs" and "length (queue mb) < 2 ^ 64"
  shows "unat (data_count mb) = length (filter counts_as_data (queue mb))"
proof -
  have "mb_inv mb" unfolding assms(1) by (rule mb_inv_life) (rule mb_inv_new)
  moreover have "length (filter counts_as_data (queue mb)) < 2 ^ 64"
    using assms(2) by (rule le_less_trans[OF length_filter_le])
  ultimately show ?thesis by (simp add: mb_inv_def unat_of_nat)
qed

theorem data_count_exact_witness:
  "unat (data_count (foldl mb_step (mailbox_new :: nat mailbox)
     [Op (OpData [1]), Op (OpTagged 7 [2]), Op (OpSystem (SysExit (Pid 0 1) Kill)), RecvRef 7 None []])) = 1"
  by (subst data_count_exact[OF refl])
    (simp_all add: mb_step_def mb_apply_def mb_defs mailbox_new_def recv_ref_def poll_recv_ref_def
      remove_at_def Let_def)

section \<open>Order of messages\<close>

fun ordinary :: "'n mb_op list \<Rightarrow> 'n mailbox_message list" where
  "ordinary [] = []"
| "ordinary (OpData d # ops) = Data d # ordinary ops"
| "ordinary (OpTagged r d # ops) = Tagged r d # ordinary ops"
| "ordinary (OpSpawnReply r out # ops) = SpawnReply r out # ordinary ops"
| "ordinary (_ # ops) = ordinary ops"

fun urgent_ops :: "'n mb_op list \<Rightarrow> 'n mailbox_message list" where
  "urgent_ops [] = []"
| "urgent_ops (OpSystem msg # ops) = urgent_ops ops @ [system_to_mailbox msg]"
| "urgent_ops (_ # ops) = urgent_ops ops"

lemma queue_mb_apply:
  "\<not> closed mb \<Longrightarrow> queue (mb_apply mb (OpData d)) = queue mb @ [Data d]"
  "\<not> closed mb \<Longrightarrow> queue (mb_apply mb (OpTagged r d)) = queue mb @ [Tagged r d]"
  "\<not> closed mb \<Longrightarrow> queue (mb_apply mb (OpSpawnReply r out)) = queue mb @ [SpawnReply r out]"
  "queue (mb_apply mb (OpSystem msg)) = system_to_mailbox msg # queue mb"
  "queue (mb_apply mb OpClose) = queue mb"
  by (auto simp: mb_apply_def mb_defs)

lemma mb_apply_closed: "op \<noteq> OpClose \<Longrightarrow> closed (mb_apply mb op) = closed mb"
  by (cases op) (auto simp: mb_apply_def mb_defs)

text \<open>
  C9: delivery order. Into an open mailbox, data, tagged and spawn-reply messages arrive in
  the order they were sent, behind what was already queued, and every exit or down signal
  is ahead of all of them, the latest signal first.
\<close>

theorem mailbox_order:
  assumes "\<not> closed mb" and "OpClose \<notin> set ops"
  shows "queue (foldl mb_apply mb ops) = urgent_ops ops @ queue mb @ ordinary ops"
  using assms
proof (induction ops arbitrary: mb)
  case (Cons op ops)
  from Cons.prems have "\<not> closed (mb_apply mb op)"
    by (auto simp: mb_apply_closed)
  with Cons have IH: "queue (foldl mb_apply (mb_apply mb op) ops)
      = urgent_ops ops @ queue (mb_apply mb op) @ ordinary ops"
    by simp
  then show ?case
    using Cons.prems by (cases op) (auto simp: queue_mb_apply)
qed simp

theorem mailbox_order_witness:
  "queue (foldl mb_apply (mailbox_new :: nat mailbox)
     [OpData [1], OpSystem (SysExit (Pid 0 1) Normal), OpData [2], OpSystem (SysDown (Pid 0 2) 5 Kill)])
   = [MDown (Pid 0 2) 5 Kill, MExit (Pid 0 1) Normal, Data [1], Data [2]]"
  by (subst mailbox_order) (simp_all add: mailbox_new_def mb_defs)

text \<open>
  C32: a selective receive takes the oldest message that carries the reference, be it a
  tagged message, a down signal or a spawn reply, and leaves every other message where
  it was.
\<close>

theorem recv_ref_first_match:
  "(\<exists>mb'. poll_recv_ref r mb = (Ready m, mb') \<and> queue mb' = rest) \<longleftrightarrow>
   (\<exists>ys zs. queue mb = ys @ m # zs \<and> matches_ref r m \<and> (\<forall>y \<in> set ys. \<not> matches_ref r y)
      \<and> rest = ys @ zs)" (is "?taken = ?split")
proof
  assume ?taken
  then show ?split by (auto elim!: poll_recv_ref_Ready)
next
  assume ?split
  then obtain ys zs where q: "queue mb = ys @ m # zs" and "matches_ref r m"
    and "\<forall>y \<in> set ys. \<not> matches_ref r y" and "rest = ys @ zs"
    by blast
  then have "position (matches_ref r) (queue mb) = Some (length ys)"
    by (simp add: position_append_first)
  with q \<open>rest = ys @ zs\<close> show ?taken
    by (simp add: poll_recv_ref_def Let_def)
qed

theorem recv_ref_first_match_witness:
  "\<exists>mb'. poll_recv_ref 7 \<lparr>queue = [Data [1], Tagged 7 [2], MDown (Pid (0::nat) 1) 7 Killed],
       data_count = 2, closed = False\<rparr> = (Ready (Tagged 7 [2]), mb')
     \<and> queue mb' = [Data [1], MDown (Pid 0 1) 7 Killed]"
  by (subst recv_ref_first_match, rule exI[of _ "[Data [1]]"], rule exI[of _ "[MDown (Pid 0 1) 7 Killed]"])
    (simp add: mb_defs)

section \<open>How long a receive waits\<close>

lemma mb_apply_wakes_recv: "fst (poll_recv (mb_apply mb op)) \<noteq> Wait"
  by (cases op) (auto simp: mb_apply_def mb_defs poll_recv_def split: list.splits)

lemma mb_apply_keeps_awake:
  "fst (poll_recv mb) \<noteq> Wait \<Longrightarrow> fst (poll_recv (foldl mb_apply mb ops)) \<noteq> Wait"
  by (induction ops arbitrary: mb) (auto simp: mb_apply_wakes_recv)

lemma recv_loop_no_wait:
  "fst (attempt mb) \<noteq> Wait \<Longrightarrow> waited (recv_loop attempt timeout ws t mb) = t"
  by (cases ws) (auto split: prod.splits poll.splits)

lemma recv_waits_once:
  assumes "\<forall>(gap, ops) \<in> set ws. ops \<noteq> []"
  shows "waited (recv (Some dur) ws mb) \<le> dur"
proof (cases ws)
  case Nil
  then show ?thesis by (auto simp: recv_def split: prod.splits poll.splits)
next
  case (Cons w ws')
  obtain gap ops where w: "w = (gap, ops)" by fastforce
  with assms Cons obtain op ops' where ops: "ops = op # ops'"
    by (cases ops) auto
  have "fst (poll_recv (foldl mb_apply mb' ops)) \<noteq> Wait" for mb' :: "'a mailbox"
    by (simp add: ops mb_apply_keeps_awake mb_apply_wakes_recv)
  then have "waited (recv_loop poll_recv (Some dur) ws' gap (foldl mb_apply mb' ops)) = gap"
    for mb' :: "'a mailbox"
    by (rule recv_loop_no_wait)
  with Cons w show ?thesis
    by (auto simp: recv_def split: prod.splits poll.splits)
qed

lemma recv_loop_returns: "result (recv_loop attempt (Some dur) ws t mb) \<noteq> Blocked"
  by (induction ws arbitrary: t mb) (auto split: prod.splits poll.splits if_splits)

text \<open>
  A receive with a timeout always returns, and if every wake-up comes from an operation
  on the mailbox, \<open>recv\<close> waits no longer than its timeout: the first operation either
  hands it a message or closes the mailbox.
\<close>

lemma recv_timeout_bounded:
  assumes "\<forall>(gap, ops) \<in> set ws. ops \<noteq> []"
  shows "result (recv (Some dur) ws mb) \<noteq> Blocked \<and> waited (recv (Some dur) ws mb) \<le> dur"
  using recv_waits_once[OF assms] recv_loop_returns[of poll_recv] by (simp add: recv_def)

lemma recv_timeout_bounded_witness:
  "result (recv (Some 100) [(40, [OpData [1]])] (mailbox_new :: nat mailbox)) \<noteq> Blocked
   \<and> waited (recv (Some 100) [(40, [OpData [1]])] (mailbox_new :: nat mailbox)) \<le> 100"
  by (rule recv_timeout_bounded) simp

lemma recv_ref_starves_from:
  assumes "\<forall>m \<in> set (queue mb). \<not> matches_ref r m" and "\<not> closed mb" and "gap \<le> dur"
  shows "recv_loop (poll_recv_ref r) (Some dur) (replicate n (gap, [OpData d])) t mb =
    \<lparr>result = Nothing, waited = t + n * gap + dur,
     left = foldl mb_apply mb (replicate n (OpData d))\<rparr>"
  using assms
proof (induction n arbitrary: t mb)
  case 0
  then show ?case by (simp add: poll_recv_ref_def position_None_iff[THEN iffD2])
next
  case (Suc n)
  have "poll_recv_ref r mb = (Wait, mb)"
    using Suc.prems by (simp add: poll_recv_ref_def position_None_iff[THEN iffD2])
  moreover have "\<forall>m \<in> set (queue (mb_apply mb (OpData d))). \<not> matches_ref r m"
    and "\<not> closed (mb_apply mb (OpData d))"
    using Suc.prems by (auto simp: mb_apply_def mb_defs)
  ultimately show ?case
    using Suc.IH[of "mb_apply mb (OpData d)" "t + gap"] Suc.prems(3) by simp
qed

text \<open>
  The timeout of a selective receive restarts at every wake-up. A particle that waits in
  \<open>recv_ref\<close> with a positive timeout can be kept waiting longer than any bound by
  messages that do not carry its reference, each arriving before the timeout would have
  run out; it then still reports that nothing came.
\<close>

theorem recv_ref_timeout_restarts:
  assumes "0 < dur"
  shows "\<exists>ws. (\<forall>(gap, ops) \<in> set ws. gap \<le> dur \<and> ops = [OpData []])
    \<and> result (recv_ref r (Some dur) ws mailbox_new) = Nothing
    \<and> bound < waited (recv_ref r (Some dur) ws mailbox_new)"
proof -
  have eq: "recv_ref r (Some dur) (replicate bound (dur, [OpData []])) mailbox_new =
    \<lparr>result = Nothing, waited = bound * dur + dur,
     left = foldl mb_apply mailbox_new (replicate bound (OpData []))\<rparr>"
    unfolding recv_ref_def by (subst recv_ref_starves_from) (simp_all add: mailbox_new_def)
  have "bound \<le> bound * dur" using assms by simp
  then have "bound < bound * dur + dur" using assms by linarith
  then show ?thesis
    by (intro exI[of _ "replicate bound (dur, [OpData []])"]) (auto simp: eq)
qed

lemma recv_ref_timeout_restarts_witness:
  "\<exists>ws. (\<forall>(gap, ops) \<in> set ws. gap \<le> 100 \<and> ops = [OpData []])
    \<and> result (recv_ref 7 (Some 100) ws (mailbox_new :: nat mailbox)) = Nothing
    \<and> 1000000 < waited (recv_ref 7 (Some 100) ws (mailbox_new :: nat mailbox))"
  by (rule recv_ref_timeout_restarts) simp

text \<open>
  A closed mailbox still hands out what it holds, then reports its end; it never waits.
\<close>

lemma recv_closed:
  "closed mb \<Longrightarrow> recv timeout ws mb =
     (case queue mb of
        [] \<Rightarrow> \<lparr>result = Nothing, waited = 0, left = mb\<rparr>
      | m # ms \<Rightarrow> \<lparr>result = Got m, waited = 0, left = snd (poll_recv mb)\<rparr>)"
  by (cases ws) (auto simp: recv_def poll_recv_def split: list.splits)

end
