(* ===== verification/Mailbox_Notify.thy ===== *)
theory Mailbox_Notify
  imports Mailboxes
begin

text \<open>
  The mailbox between its locks (\<^verbatim>\<open>src/mailbox.rs\<close>): the receiver tests the queue under the
  mutex, releases it, and only then starts to wait on the \<^verbatim>\<open>Notify\<close>; senders and closers
  change the queue under the mutex, release it, and only then notify. A step relation
  interleaves them.

  What is used of tokio's \<^verbatim>\<open>Notify\<close> is its documented contract: \<^verbatim>\<open>notify_one\<close> wakes a
  waiting receiver or leaves one permit for the next wait, \<^verbatim>\<open>notify_waiters\<close> wakes those
  that wait now and leaves no permit.
\<close>

datatype 'n reader = Checking | Armed | Parked | Returned "'n poll"

record 'n nworld =
  box :: "'n mailbox"
  permit :: bool
  reader :: "'n reader"
  notifying :: nat  \<comment> \<open>pushes that released the mutex and have not notified yet\<close>
  closing :: nat    \<comment> \<open>closes that released the mutex and have not notified yet\<close>

text \<open>A push reaches its \<^verbatim>\<open>notify_one\<close> unless it returned early on a closed mailbox.\<close>

definition notifies :: "'n mailbox \<Rightarrow> 'n mb_op \<Rightarrow> bool" where
  "notifies mb op = (case op of OpSystem _ \<Rightarrow> True | OpClose \<Rightarrow> False | _ \<Rightarrow> \<not> closed mb)"

definition wake_one :: "'n nworld \<Rightarrow> 'n nworld" where
  "wake_one s = (if reader s = Parked then s\<lparr>reader := Checking\<rparr> else s\<lparr>permit := True\<rparr>)"

definition wake_waiters :: "'n nworld \<Rightarrow> 'n nworld" where
  "wake_waiters s = (if reader s = Parked then s\<lparr>reader := Checking\<rparr> else s)"

definition check_queue :: "'n nworld \<Rightarrow> 'n nworld" where
  "check_queue s =
     (case poll_recv (box s) of
        (Wait, _) \<Rightarrow> s\<lparr>reader := Armed\<rparr>
      | (p, mb) \<Rightarrow> s\<lparr>box := mb, reader := Returned p\<rparr>)"

definition start_waiting :: "'n nworld \<Rightarrow> 'n nworld" where
  "start_waiting s =
     (if permit s then s\<lparr>permit := False, reader := Checking\<rparr> else s\<lparr>reader := Parked\<rparr>)"

inductive nstep :: "'n nworld \<Rightarrow> 'n nworld \<Rightarrow> bool" where
  n_push: "notifies (box s) op \<Longrightarrow>
     nstep s (s\<lparr>box := mb_apply (box s) op, notifying := Suc (notifying s)\<rparr>)"
| n_notify: "notifying s = Suc k \<Longrightarrow> nstep s (wake_one (s\<lparr>notifying := k\<rparr>))"
| n_close: "nstep s (s\<lparr>box := close_mailbox (box s), closing := Suc (closing s)\<rparr>)"
| n_waiters: "closing s = Suc k \<Longrightarrow> nstep s (wake_waiters (s\<lparr>closing := k\<rparr>))"
| n_check: "reader s = Checking \<Longrightarrow> nstep s (check_queue s)"
| n_wait: "reader s = Armed \<Longrightarrow> nstep s (start_waiting s)"
| n_again: "reader s = Returned p \<Longrightarrow> nstep s (s\<lparr>reader := Checking\<rparr>)"

definition nworld_init :: "'n nworld" where
  "nworld_init = \<lparr>box = mailbox_new, permit = False, reader = Checking, notifying = 0, closing = 0\<rparr>"

inductive nreachable :: "'n nworld \<Rightarrow> bool" where
  n_start: "nreachable nworld_init"
| n_step: "nreachable s \<Longrightarrow> nstep s s' \<Longrightarrow> nreachable s'"

inductive_cases nstepE: "nstep s s'"

text \<open>
  The invariant: a receiver past its test with something in the queue is about to be
  notified, or has not started to wait and will find the permit.
\<close>

definition wake_inv :: "'n nworld \<Rightarrow> bool" where
  "wake_inv s \<longleftrightarrow>
     (queue (box s) \<noteq> [] \<longrightarrow> (reader s = Parked \<longrightarrow> 0 < notifying s)
        \<and> (reader s = Armed \<longrightarrow> 0 < notifying s \<or> permit s))"

lemma wake_inv_init: "wake_inv nworld_init"
  by (simp add: wake_inv_def nworld_init_def mailbox_new_def)

lemma wake_inv_step: "nstep s s' \<Longrightarrow> wake_inv s \<Longrightarrow> wake_inv s'"
proof (induction rule: nstep.induct)
  case (n_check s)
  then show ?case
    by (auto simp: wake_inv_def check_queue_def poll_recv_def split: list.splits)
qed (auto simp: wake_inv_def wake_one_def wake_waiters_def start_waiting_def close_mailbox_def)

lemma wake_inv_reachable: "nreachable s \<Longrightarrow> wake_inv s"
  by (induction rule: nreachable.induct) (auto intro: wake_inv_init wake_inv_step)

text \<open>
  C13: no message is lost between the mailbox's locks. In every reachable interleaving, once
  no push is between its queue update and its notification, a receiver that waits has an
  empty queue: it never sleeps on a message.
\<close>

theorem no_lost_message:
  assumes "nreachable s" and "reader s = Parked" and "notifying s = 0"
  shows "queue (box s) = []"
  using wake_inv_reachable[OF assms(1)] assms(2,3) by (auto simp: wake_inv_def)

definition parked_world :: "nat nworld" where
  "parked_world = nworld_init\<lparr>reader := Parked\<rparr>"

lemma parked_reachable: "nreachable parked_world"
proof -
  have "nreachable (check_queue nworld_init :: nat nworld)"
    by (rule n_step[OF n_start], rule n_check) (simp add: nworld_init_def)
  then have "nreachable (start_waiting (check_queue nworld_init) :: nat nworld)"
    by (rule n_step, intro n_wait)
      (simp add: nworld_init_def check_queue_def poll_recv_def mailbox_new_def)
  moreover have "start_waiting (check_queue nworld_init) = parked_world"
    by (simp add: parked_world_def nworld_init_def check_queue_def poll_recv_def mailbox_new_def
        start_waiting_def)
  ultimately show ?thesis by simp
qed

theorem no_lost_message_witness:
  "nreachable parked_world \<and> reader parked_world = Parked \<and> queue (box parked_world) = []"
  using no_lost_message[OF parked_reachable] parked_reachable
  by (simp add: parked_world_def nworld_init_def)

text \<open>
  A close can be missed. There is a reachable interleaving in which the mailbox is
  closed, its closer has already notified, and the receiver waits all the same: it tested
  the mailbox before the close and started to wait after the notification. Every step out
  of that state is a new push or a new close, and a mailbox is closed because its particle
  has left the registry, so nobody is left to make one.
\<close>

lemma close_wakeup_lost:
  "\<exists>s :: 'n nworld. nreachable s \<and> closed (box s) \<and> reader s = Parked \<and> notifying s = 0
     \<and> closing s = 0 \<and> (\<forall>s'. nstep s s' \<longrightarrow> 0 < notifying s' \<or> 0 < closing s')"
proof -
  let ?mb = "close_mailbox mailbox_new :: 'n mailbox"
  let ?w = "\<lambda>b r c. \<lparr>box = b, permit = False, reader = r, notifying = 0, closing = c\<rparr> :: 'n nworld"
  have 0: "nreachable (?w mailbox_new Checking 0)"
    using n_start by (simp add: nworld_init_def)
  have 1: "nreachable (?w mailbox_new Armed 0)"
    using n_step[OF 0 n_check] by (simp add: check_queue_def poll_recv_def mailbox_new_def)
  have 2: "nreachable (?w ?mb Armed 1)"
    using n_step[OF 1 n_close] by simp
  have 3: "nreachable (?w ?mb Armed 0)"
    using n_step[OF 2 n_waiters[where k = 0]] by (simp add: wake_waiters_def)
  have 4: "nreachable (?w ?mb Parked 0)"
    using n_step[OF 3 n_wait] by (simp add: start_waiting_def)
  have "0 < notifying s' \<or> 0 < closing s'" if "nstep (?w ?mb Parked 0) s'" for s'
    using that by cases simp_all
  with 4 show ?thesis
    by (intro exI[of _ "?w ?mb Parked 0"]) (simp add: close_mailbox_def)
qed

lemma close_wakeup_lost_witness:
  "\<exists>s :: nat nworld. nreachable s \<and> closed (box s) \<and> reader s = Parked"
  using close_wakeup_lost by blast

end
