(* ===== verification/Supervisors.thy ===== *)
theory Supervisors
  imports Prelude
begin

text \<open>
  The supervision policy of the SDK (\<^verbatim>\<open>crates/plasmoid-sdk/src/supervisor.rs\<close>): a pure
  decision core that answers a child's exit with a list of actions for the driver. The
  static supervisor has a strategy over an ordered list of children, the dynamic one a pool
  of independent children; both brake a crash loop with a sliding window of restart stamps,
  which the locale \<open>restart_window\<close> states once.
\<close>

section \<open>Data\<close>

text \<open>The SDK's own exit reasons; the constructors are prefixed, the host has the same names.\<close>

datatype sdk_reason =
    SNormal
  | SKill
  | SKilled
  | SShutdown string
  | SException string
  | SNoProc
  | SNoConnection

definition warrants_restart :: "sdk_reason \<Rightarrow> bool" where
  "warrants_restart r = (case r of SNormal \<Rightarrow> False | SShutdown _ \<Rightarrow> False | _ \<Rightarrow> True)"

datatype restart = Permanent | Transient | Temporary

datatype shutdown_kind = BrutalKill | Timeout u64 | Infinity

definition default_shutdown :: shutdown_kind where
  "default_shutdown = Timeout 5000"

record start_spec =
  component :: string
  init_args :: string

record child_spec =
  child_id :: string
  start :: start_spec
  restart_type :: restart
  shutdown_type :: shutdown_kind

definition child_spec_new :: "string \<Rightarrow> string \<Rightarrow> child_spec" where
  "child_spec_new i c =
     \<lparr>child_id = i, start = \<lparr>component = c, init_args = []\<rparr>,
      restart_type = Permanent, shutdown_type = default_shutdown\<rparr>"

datatype strategy = OneForOne | OneForAll | RestForOne

record sup_flags =
  sup_strategy :: strategy
  intensity :: u32
  period_ms :: u64

definition default_flags :: sup_flags where
  "default_flags = \<lparr>sup_strategy = OneForOne, intensity = 1, period_ms = 5000\<rparr>"

datatype action = Start child_spec | Stop string shutdown_kind | GiveUp

definition stop_child :: "child_spec \<Rightarrow> action" where
  "stop_child c = Stop (child_id c) (shutdown_type c)"

definition restarts_with :: "restart \<Rightarrow> sdk_reason \<Rightarrow> bool" where
  "restarts_with r reason =
     (case r of Permanent \<Rightarrow> True | Temporary \<Rightarrow> False | Transient \<Rightarrow> warrants_restart reason)"

section \<open>The restart window\<close>

definition sat_sub :: "u64 \<Rightarrow> u64 \<Rightarrow> u64" where
  "sat_sub a b = (if b \<le> a then a - b else 0)"

definition forget_restarts_before :: "u64 \<Rightarrow> u64 list \<Rightarrow> u64 list" where
  "forget_restarts_before cutoff stamps = dropWhile (\<lambda>t. t < cutoff) stamps"

text \<open>\<^verbatim>\<open>restarts.len() as u32 > intensity\<close>: the cast keeps the low 32 bits of the length.\<close>

definition too_many :: "u32 \<Rightarrow> u64 list \<Rightarrow> bool" where
  "too_many limit stamps \<longleftrightarrow> limit < (of_nat (length stamps) :: u32)"

lemma unat_sat_sub: "unat (sat_sub a b) = unat a - unat b"
  by (auto simp: sat_sub_def unat_sub_if' word_le_nat_alt)

lemma sat_sub_mono: "a \<le> a' \<Longrightarrow> sat_sub a b \<le> sat_sub a' b"
  by (simp add: word_le_nat_alt unat_sat_sub diff_le_mono)

lemma forget_forget:
  "c' \<le> c \<Longrightarrow>
   forget_restarts_before c (forget_restarts_before c' xs @ ys) = forget_restarts_before c (xs @ ys)"
  unfolding forget_restarts_before_def
proof (induction xs)
  case (Cons x xs)
  then show ?case by (cases "x < c'") (simp_all add: less_le_trans)
qed simp

lemma filter_window:
  "filter (\<lambda>t. c \<le> t) (forget_restarts_before c xs) = filter (\<lambda>t. c \<le> t) xs"
  unfolding forget_restarts_before_def
proof (induction xs)
  case (Cons x xs)
  then show ?case by (cases "x < c") simp_all
qed simp

lemma in_window_le: "length (filter (\<lambda>t. c \<le> t) xs) \<le> length (forget_restarts_before c xs)"
  unfolding filter_window[of c xs, symmetric] by (rule length_filter_le)

lemma not_too_many:
  assumes "length stamps < 2 ^ 32"
  shows "too_many limit stamps \<longleftrightarrow> unat limit < length stamps"
proof -
  have "unat (of_nat (length stamps) :: u32) = length stamps"
    unfolding unat_of_nat using assms by (intro mod_less) simp
  then show ?thesis by (simp only: too_many_def word_less_nat_alt)
qed

text \<open>
  Whatever answers an event with actions: its window of stamps, how many restarts a batch
  makes, and how many one event can cause.
\<close>

fun run_until_give_up ::
  "('s \<Rightarrow> 'e \<Rightarrow> action list \<times> 's) \<Rightarrow> 's \<Rightarrow> 'e list \<Rightarrow> ('e \<times> action list) list \<times> 's" where
  "run_until_give_up f s [] = ([], s)"
| "run_until_give_up f s (e # es) =
     (let (acts, s') = f s e
      in if GiveUp \<in> set acts then ([(e, acts)], s')
         else (let (log, s'') = run_until_give_up f s' es in ((e, acts) # log, s'')))"

definition gave_up :: "('e \<times> action list) list \<Rightarrow> bool" where
  "gave_up log \<longleftrightarrow> (\<exists>(e, acts) \<in> set log. GiveUp \<in> set acts)"

definition stamps_of ::
  "('e \<Rightarrow> u64) \<Rightarrow> ('e \<Rightarrow> action list \<Rightarrow> nat) \<Rightarrow> ('e \<times> action list) list \<Rightarrow> u64 list" where
  "stamps_of time count log = concat (map (\<lambda>(e, acts). replicate (count e acts) (time e)) log)"

locale restart_window =
  fixes respond :: "'s \<Rightarrow> 'e \<Rightarrow> action list \<times> 's"
    and time :: "'e \<Rightarrow> u64"
    and count :: "'e \<Rightarrow> action list \<Rightarrow> nat"
    and stamps :: "'s \<Rightarrow> u64 list"
    and limit :: "'s \<Rightarrow> u32"
    and period :: "'s \<Rightarrow> u64"
    and fan_out :: "'s \<Rightarrow> nat"
  assumes constants: "respond s e = (acts, s') \<Longrightarrow>
      limit s' = limit s \<and> period s' = period s \<and> fan_out s' = fan_out s"
    and bounded: "respond s e = (acts, s') \<Longrightarrow> GiveUp \<notin> set acts \<Longrightarrow> count e acts \<le> fan_out s"
    and quiet: "respond s e = (acts, s') \<Longrightarrow> GiveUp \<notin> set acts \<Longrightarrow> count e acts = 0 \<Longrightarrow>
      stamps s' = stamps s"
    and stamped: "respond s e = (acts, s') \<Longrightarrow> GiveUp \<notin> set acts \<Longrightarrow> 0 < count e acts \<Longrightarrow>
      fan_out s < 2 ^ 32 \<Longrightarrow>
      stamps s' = forget_restarts_before (sat_sub (time e) (period s))
                    (stamps s @ replicate (count e acts) (time e))
      \<and> \<not> too_many (limit s) (stamps s')"
begin

text \<open>The window holds the stamps of the run from some cut-off on that has passed by now.\<close>

definition window_inv :: "'s \<Rightarrow> u64 list \<Rightarrow> u64 \<Rightarrow> bool" where
  "window_inv s log now \<longleftrightarrow>
     (\<exists>c. c \<le> sat_sub now (period s) \<and> stamps s = forget_restarts_before c log)
     \<and> length (stamps s) \<le> unat (limit s)"

lemma forget_length: "length (forget_restarts_before c xs) \<le> length xs"
  by (simp add: forget_restarts_before_def length_dropWhile_le)

lemma window_step:
  assumes inv: "window_inv s log now" and r: "respond s e = (acts, s')"
    and go: "GiveUp \<notin> set acts" and mono: "now \<le> time e"
    and small: "unat (limit s) + fan_out s < 2 ^ 32"
  shows "window_inv s' (log @ replicate (count e acts) (time e)) (time e)"
proof -
  from inv obtain c where c: "c \<le> sat_sub now (period s)"
    and st: "stamps s = forget_restarts_before c log" and len: "length (stamps s) \<le> unat (limit s)"
    by (auto simp: window_inv_def)
  note const = constants[OF r]
  have c': "c \<le> sat_sub (time e) (period s)"
    using c sat_sub_mono[OF mono] by (rule order_trans)
  show ?thesis
  proof (cases "count e acts = 0")
    case True
    then show ?thesis
      using quiet[OF r go] c' st len const by (auto simp: window_inv_def)
  next
    case False
    let ?c = "sat_sub (time e) (period s)" and ?new = "replicate (count e acts) (time e)"
    have st': "stamps s' = forget_restarts_before ?c (stamps s @ ?new)"
      and ok: "\<not> too_many (limit s) (stamps s')"
      using stamped[OF r go] False small by auto
    have "length (stamps s') \<le> length (stamps s) + count e acts"
      using forget_length[of ?c "stamps s @ ?new"] by (simp add: st')
    then have "length (stamps s') < 2 ^ 32"
      using len bounded[OF r go] small by linarith
    with ok have "length (stamps s') \<le> unat (limit s)"
      using not_too_many[of "stamps s'" "limit s"] by simp
    moreover have "stamps s' = forget_restarts_before ?c (log @ ?new)"
      using st' st forget_forget[OF c'] by simp
    ultimately show ?thesis using const by (auto simp: window_inv_def)
  qed
qed

lemma window_run:
  assumes "window_inv s log now" and "sorted (now # map time es)"
    and "unat (limit s) + fan_out s < 2 ^ 32"
    and "run_until_give_up respond s es = (out, s')" and "\<not> gave_up out"
  shows "window_inv s' (log @ stamps_of time count out) (last (now # map time es))
    \<and> period s' = period s \<and> limit s' = limit s"
  using assms
proof (induction es arbitrary: s log now out)
  case Nil
  then show ?case by (simp add: stamps_of_def)
next
  case (Cons e es)
  obtain acts s1 where r: "respond s e = (acts, s1)" by fastforce
  have go: "GiveUp \<notin> set acts"
    using Cons.prems(4,5) r by (auto simp: gave_up_def split: if_splits prod.splits)
  then obtain out1 where run: "run_until_give_up respond s1 es = (out1, s')"
    and out: "out = (e, acts) # out1"
    using Cons.prems(4) r by (auto split: prod.splits)
  have "window_inv s1 (log @ replicate (count e acts) (time e)) (time e)"
    using Cons.prems by (intro window_step[OF _ r go]) auto
  moreover have "sorted (time e # map time es)" using Cons.prems(2) by simp
  moreover have "unat (limit s1) + fan_out s1 < 2 ^ 32" using constants[OF r] Cons.prems(3) by simp
  moreover have "\<not> gave_up out1" using Cons.prems(5) out by (simp add: gave_up_def)
  ultimately have "window_inv s'
      ((log @ replicate (count e acts) (time e)) @ stamps_of time count out1) (last (time e # map time es))
      \<and> period s' = period s1 \<and> limit s' = limit s1"
    using Cons.IH[OF _ _ _ run] by blast
  moreover have "last (now # map time (e # es)) = last (time e # map time es)"
    by (simp only: list.map last_ConsR list.distinct not_False_eq_True)
  ultimately show ?case
    using out constants[OF r] by (simp add: stamps_of_def del: last.simps)
qed

theorem brake:
  assumes "stamps s = []" and "sorted (map time es)"
    and "unat (limit s) + fan_out s < 2 ^ 32"
    and "run_until_give_up respond s es = (out, s')" and "\<not> gave_up out"
    and "\<forall>e \<in> set es. time e \<le> now"
  shows "length (filter (\<lambda>t. sat_sub now (period s) \<le> t) (stamps_of time count out))
    \<le> unat (limit s)"
proof -
  let ?L = "stamps_of time count out"
  have "window_inv s [] 0"
    using assms(1) by (auto simp: window_inv_def forget_restarts_before_def intro!: exI[of _ 0])
  moreover have "sorted (0 # map time es)" using assms(2) by simp
  ultimately have "window_inv s' ([] @ ?L) (last (0 # map time es))
      \<and> period s' = period s \<and> limit s' = limit s"
    using window_run assms(3,4,5) by blast
  then obtain c where c: "c \<le> sat_sub (last (0 # map time es)) (period s)"
    and st: "stamps s' = forget_restarts_before c ?L" and len: "length (stamps s') \<le> unat (limit s)"
    by (auto simp: window_inv_def)
  have "last (0 # map time es) \<le> now"
    using assms(6) last_in_set[of "map time es"] by (cases "es = []") auto
  then have "c \<le> sat_sub now (period s)"
    using c sat_sub_mono order_trans by blast
  then have "length (filter (\<lambda>t. sat_sub now (period s) \<le> t) ?L) \<le> length (filter (\<lambda>t. c \<le> t) ?L)"
    by (induction ?L rule: list.induct) (auto simp: length_filter_conv_card intro!: card_mono)
  also have "\<dots> \<le> length (stamps s')" using in_window_le[of c ?L] st by simp
  finally show ?thesis using len by linarith
qed

end

section \<open>The supervisor\<close>

record supervisor =
  flags :: sup_flags
  children :: "child_spec list"
  running :: "bool list"
  restarts :: "u64 list"

definition supervisor_new :: "sup_flags \<Rightarrow> child_spec list \<Rightarrow> supervisor" where
  "supervisor_new fl cs =
     \<lparr>flags = fl, children = cs, running = replicate (length cs) False, restarts = []\<rparr>"

definition index_of :: "supervisor \<Rightarrow> string \<Rightarrow> nat option" where
  "index_of s i = position (\<lambda>c. child_id c = i) (children s)"

definition is_running :: "supervisor \<Rightarrow> string \<Rightarrow> bool" where
  "is_running s i = (case index_of s i of Some k \<Rightarrow> running s ! k | None \<Rightarrow> False)"

text \<open>The loop of \<^verbatim>\<open>init\<close>: mark and start, left to right.\<close>

fun init_loop :: "child_spec list \<Rightarrow> nat list \<Rightarrow> bool list \<Rightarrow> action list \<times> bool list" where
  "init_loop cs [] run = ([], run)"
| "init_loop cs (i # is) run =
     (let (acts, run') = init_loop cs is (run[i := True]) in (Start (cs ! i) # acts, run'))"

definition sup_init :: "supervisor \<Rightarrow> action list \<times> supervisor" where
  "sup_init s =
     (let (acts, run) = init_loop (children s) [0..<length (children s)] (running s)
      in (acts, s\<lparr>running := run\<rparr>))"

text \<open>The loop shared by \<^verbatim>\<open>shutdown\<close> and the stopping half of \<^verbatim>\<open>on_child_exit\<close>.\<close>

fun stop_loop :: "child_spec list \<Rightarrow> nat list \<Rightarrow> bool list \<Rightarrow> action list \<times> bool list" where
  "stop_loop cs [] run = ([], run)"
| "stop_loop cs (i # is) run =
     (if run ! i
      then (let (acts, run') = stop_loop cs is (run[i := False]) in (stop_child (cs ! i) # acts, run'))
      else stop_loop cs is run)"

definition sup_shutdown :: "supervisor \<Rightarrow> action list \<times> supervisor" where
  "sup_shutdown s =
     (let (acts, run) = stop_loop (children s) (rev [0..<length (children s)]) (running s)
      in (acts, s\<lparr>running := run\<rparr>))"

definition give_up :: "supervisor \<Rightarrow> action list \<times> supervisor" where
  "give_up s = (let (acts, s') = sup_shutdown s in (acts @ [GiveUp], s'))"

definition should_restart :: "supervisor \<Rightarrow> nat \<Rightarrow> sdk_reason \<Rightarrow> bool" where
  "should_restart s idx reason = restarts_with (restart_type (children s ! idx)) reason"

definition affected :: "strategy \<Rightarrow> nat \<Rightarrow> nat \<Rightarrow> nat list" where
  "affected st idx n =
     (case st of OneForOne \<Rightarrow> [idx] | OneForAll \<Rightarrow> [0..<n] | RestForOne \<Rightarrow> [idx..<n])"

text \<open>The restarting half of \<^verbatim>\<open>on_child_exit\<close>, with its \<^verbatim>\<open>u32\<close> counter.\<close>

fun start_loop :: "child_spec list \<Rightarrow> nat list \<Rightarrow> bool list \<Rightarrow> u32 \<Rightarrow> action list \<times> bool list \<times> u32" where
  "start_loop cs [] run k = ([], run, k)"
| "start_loop cs (i # is) run k =
     (if restart_type (cs ! i) = Temporary then start_loop cs is run k
      else (let (acts, run', k') = start_loop cs is (run[i := True]) (k + 1)
            in (Start (cs ! i) # acts, run', k')))"

definition on_child_exit ::
  "supervisor \<Rightarrow> string \<Rightarrow> sdk_reason \<Rightarrow> u64 \<Rightarrow> action list \<times> supervisor" where
  "on_child_exit s i reason now =
     (case index_of s i of
        None \<Rightarrow> ([], s)
      | Some idx \<Rightarrow>
          (let cs = children s;
               s1 = s\<lparr>running := (running s)[idx := False]\<rparr>
           in if \<not> should_restart s1 idx reason then ([], s1)
              else
                (let aff = affected (sup_strategy (flags s)) idx (length cs);
                     (stops, run1) = stop_loop cs (filter (\<lambda>j. j \<noteq> idx) (rev aff)) (running s1);
                     (starts, run2, restarted) = start_loop cs aff run1 0;
                     stamps = forget_restarts_before (sat_sub now (period_ms (flags s)))
                                (restarts s @ replicate (unat restarted) now);
                     s2 = s1\<lparr>running := run2, restarts := stamps\<rparr>
                 in if too_many (intensity (flags s)) stamps then give_up s2
                    else (stops @ starts, s2))))"

subsection \<open>What the loops compute\<close>

definition sup_inv :: "supervisor \<Rightarrow> bool" where
  "sup_inv s \<longleftrightarrow> length (running s) = length (children s)"

lemma init_loop_eq:
  "init_loop cs is run = (map (\<lambda>i. Start (cs ! i)) is, foldl (\<lambda>r i. r[i := True]) run is)"
  by (induction "is" arbitrary: run) auto

lemma stop_loop_acts:
  "distinct is \<Longrightarrow> fst (stop_loop cs is run) = map (\<lambda>i. stop_child (cs ! i)) (filter (\<lambda>i. run ! i) is)"
proof (induction "is" arbitrary: run)
  case (Cons i "is")
  then have "j \<in> set is \<Longrightarrow> run[i := False] ! j = run ! j" for j
    by (metis distinct.simps(2) nth_list_update_neq)
  then have "filter (\<lambda>j. run[i := False] ! j) is = filter (\<lambda>j. run ! j) is"
    by (intro filter_cong) simp_all
  with Cons show ?case by (auto simp: split_def Let_def)
qed simp

lemma stop_loop_length [simp]: "length (snd (stop_loop cs is run)) = length run"
  by (induction "is" arbitrary: run) (auto simp: split_def Let_def)

lemma stop_loop_run:
  "j < length run \<Longrightarrow> snd (stop_loop cs is run) ! j \<longleftrightarrow> run ! j \<and> j \<notin> set is"
  by (induction "is" arbitrary: run) (auto simp: split_def Let_def nth_update_any)

lemma start_loop_acts:
  "fst (start_loop cs is run k) =
     map (\<lambda>i. Start (cs ! i)) (filter (\<lambda>i. restart_type (cs ! i) \<noteq> Temporary) is)"
  by (induction "is" arbitrary: run k) (auto simp: split_def Let_def)

lemma start_loop_count:
  "snd (snd (start_loop cs is run k)) =
     k + of_nat (length (filter (\<lambda>i. restart_type (cs ! i) \<noteq> Temporary) is))"
  by (induction "is" arbitrary: run k) (auto simp: split_def Let_def algebra_simps)

lemma start_loop_length [simp]: "length (fst (snd (start_loop cs is run k))) = length run"
  by (induction "is" arbitrary: run k) (auto simp: split_def Let_def)

lemma start_loop_run:
  "j < length run \<Longrightarrow> fst (snd (start_loop cs is run k)) ! j \<longleftrightarrow>
     run ! j \<or> (j \<in> set is \<and> restart_type (cs ! j) \<noteq> Temporary)"
  by (induction "is" arbitrary: run k) (auto simp: split_def Let_def nth_update_any)

lemma affected_props:
  "idx < n \<Longrightarrow> distinct (affected st idx n) \<and> set (affected st idx n) \<subseteq> {..<n}
     \<and> idx \<in> set (affected st idx n)"
  by (cases st) (auto simp: affected_def)

lemma index_of_SomeD:
  "index_of s i = Some k \<Longrightarrow> k < length (children s) \<and> child_id (children s ! k) = i"
  unfolding index_of_def by (drule position_SomeD) simp

lemma sup_shutdown_eq:
  "fst (sup_shutdown s) =
     map (\<lambda>i. stop_child (children s ! i)) (filter (\<lambda>i. running s ! i) (rev [0..<length (children s)]))"
  by (simp add: sup_shutdown_def split_def Let_def stop_loop_acts)

lemma sup_shutdown_fields [simp]:
  "children (snd (sup_shutdown s)) = children s" "flags (snd (sup_shutdown s)) = flags s"
  "restarts (snd (sup_shutdown s)) = restarts s"
  "length (running (snd (sup_shutdown s))) = length (running s)"
  by (simp_all add: sup_shutdown_def split_def Let_def)

lemma sup_shutdown_none_running:
  "sup_inv s \<Longrightarrow> k < length (children s) \<Longrightarrow> \<not> running (snd (sup_shutdown s)) ! k"
  by (auto simp: sup_shutdown_def split_def Let_def stop_loop_run sup_inv_def)

lemma give_up_simps [simp]:
  "fst (give_up s) = fst (sup_shutdown s) @ [GiveUp]" "snd (give_up s) = snd (sup_shutdown s)"
  by (simp_all add: give_up_def split_def Let_def)

subsection \<open>The answer to an exit\<close>

definition disturbs :: "strategy \<Rightarrow> nat \<Rightarrow> nat \<Rightarrow> bool" where
  "disturbs st idx k =
     (case st of OneForOne \<Rightarrow> k = idx | OneForAll \<Rightarrow> True | RestForOne \<Rightarrow> idx \<le> k)"

lemma affected_filter: "idx < n \<Longrightarrow> affected st idx n = filter (disturbs st idx) [0..<n]"
proof (induction n)
  case (Suc n)
  have "filter (\<lambda>k. k = idx) [0..<n] = [] \<or> idx < n" by (auto simp: filter_empty_conv)
  with Suc show ?case
    by (cases st; cases "idx = n") (auto simp: affected_def disturbs_def filter_empty_conv)
qed simp

text \<open>The stamps after a restart, and what the window decides on.\<close>

definition restart_count :: "supervisor \<Rightarrow> nat \<Rightarrow> nat" where
  "restart_count s idx =
     length (filter (\<lambda>k. disturbs (sup_strategy (flags s)) idx k
                       \<and> restart_type (children s ! k) \<noteq> Temporary) [0..<length (children s)])"

definition new_stamps :: "supervisor \<Rightarrow> nat \<Rightarrow> u64 \<Rightarrow> u64 list" where
  "new_stamps s idx now =
     forget_restarts_before (sat_sub now (period_ms (flags s)))
       (restarts s @ replicate (unat (of_nat (restart_count s idx) :: u32)) now)"

definition running_after :: "supervisor \<Rightarrow> nat \<Rightarrow> bool list" where
  "running_after s idx =
     (let aff = affected (sup_strategy (flags s)) idx (length (children s))
      in fst (snd (start_loop (children s) aff
           (snd (stop_loop (children s) (filter (\<lambda>j. j \<noteq> idx) (rev aff)) ((running s)[idx := False]))) 0)))"

lemma on_child_exit_restart:
  assumes i: "index_of s i = Some idx"
    and restart: "restarts_with (restart_type (children s ! idx)) reason"
  shows "on_child_exit s i reason now =
    (let s2 = s\<lparr>running := running_after s idx, restarts := new_stamps s idx now\<rparr>
     in if too_many (intensity (flags s)) (new_stamps s idx now) then give_up s2
        else
          (map (\<lambda>k. stop_child (children s ! k))
             (filter (\<lambda>k. disturbs (sup_strategy (flags s)) idx k \<and> k \<noteq> idx \<and> running s ! k)
                (rev [0..<length (children s)]))
           @ map (\<lambda>k. Start (children s ! k))
             (filter (\<lambda>k. disturbs (sup_strategy (flags s)) idx k
                        \<and> restart_type (children s ! k) \<noteq> Temporary) [0..<length (children s)]),
           s2))"
proof -
  let ?aff = "affected (sup_strategy (flags s)) idx (length (children s))"
  have idx: "idx < length (children s)" using index_of_SomeD[OF i] by simp
  note aff = affected_filter[OF idx]
  have [simp]: "filter P (filter Q xs) = filter (\<lambda>x. Q x \<and> P x) xs" for P Q and xs :: "nat list"
    by (simp add: conj_commute)
  have "filter ((!) ((running s)[idx := False])) (filter (\<lambda>j. j \<noteq> idx) (rev ?aff))
      = filter (\<lambda>k. disturbs (sup_strategy (flags s)) idx k \<and> k \<noteq> idx \<and> running s ! k)
          (rev [0..<length (children s)])"
    unfolding aff rev_filter by simp (rule filter_cong, auto)
  then have stops: "fst (stop_loop (children s) (filter (\<lambda>j. j \<noteq> idx) (rev ?aff)) ((running s)[idx := False]))
      = map (\<lambda>k. stop_child (children s ! k))
          (filter (\<lambda>k. disturbs (sup_strategy (flags s)) idx k \<and> k \<noteq> idx \<and> running s ! k)
             (rev [0..<length (children s)]))"
    using affected_props[OF idx] by (subst stop_loop_acts) simp_all
  have starts: "filter (\<lambda>k. restart_type (children s ! k) \<noteq> Temporary) ?aff
      = filter (\<lambda>k. disturbs (sup_strategy (flags s)) idx k
                  \<and> restart_type (children s ! k) \<noteq> Temporary) [0..<length (children s)]"
    unfolding aff by simp
  show ?thesis
    using i restart
    by (simp add: on_child_exit_def should_restart_def Let_def split_def stops starts start_loop_acts
        start_loop_count new_stamps_def restart_count_def running_after_def)
qed

lemma on_child_exit_other:
  "index_of s i = None \<Longrightarrow> on_child_exit s i reason now = ([], s)"
  "index_of s i = Some idx \<Longrightarrow> \<not> restarts_with (restart_type (children s ! idx)) reason \<Longrightarrow>
   on_child_exit s i reason now = ([], s\<lparr>running := (running s)[idx := False]\<rparr>)"
  by (simp_all add: on_child_exit_def should_restart_def Let_def)

lemma running_after_iff:
  assumes "sup_inv s" and "idx < length (children s)" and "k < length (children s)"
    and "restart_type (children s ! idx) \<noteq> Temporary"
  shows "running_after s idx ! k \<longleftrightarrow>
    (if disturbs (sup_strategy (flags s)) idx k then restart_type (children s ! k) \<noteq> Temporary
     else running s ! k)"
proof -
  have "disturbs st idx idx" for st by (cases st) (auto simp: disturbs_def)
  moreover have "(running s)[idx := False] ! k = (k \<noteq> idx \<and> running s ! k)"
    using assms by (simp add: sup_inv_def nth_update_any)
  ultimately show ?thesis
    using assms
    by (auto simp: running_after_def Let_def start_loop_run stop_loop_run sup_inv_def affected_filter)
qed

lemma length_running_after [simp]: "length (running_after s idx) = length (running s)"
  by (simp add: running_after_def Let_def)

lemma on_child_exit_constants:
  "children (snd (on_child_exit s i reason now)) = children s
   \<and> flags (snd (on_child_exit s i reason now)) = flags s"
proof (cases "index_of s i")
  case (Some idx)
  then show ?thesis
    by (cases "restarts_with (restart_type (children s ! idx)) reason")
      (simp_all add: on_child_exit_restart on_child_exit_other Let_def)
qed (simp add: on_child_exit_other)

lemma on_child_exit_inv: "sup_inv s \<Longrightarrow> sup_inv (snd (on_child_exit s i reason now))"
proof (cases "index_of s i")
  case (Some idx)
  assume "sup_inv s"
  with Some show ?thesis
    by (cases "restarts_with (restart_type (children s ! idx)) reason")
      (simp_all add: on_child_exit_restart on_child_exit_other Let_def sup_inv_def)
qed (simp add: on_child_exit_other)

text \<open>No batch but the last of a crash loop contains \<open>GiveUp\<close>.\<close>

lemma give_up_iff:
  "GiveUp \<in> set (fst (on_child_exit s i reason now)) \<longleftrightarrow>
   (\<exists>idx. index_of s i = Some idx \<and> restarts_with (restart_type (children s ! idx)) reason
      \<and> too_many (intensity (flags s)) (new_stamps s idx now))"
proof (cases "index_of s i")
  case (Some idx)
  then show ?thesis
    by (cases "restarts_with (restart_type (children s ! idx)) reason")
      (auto simp: on_child_exit_restart on_child_exit_other Let_def stop_child_def)
qed (simp add: on_child_exit_other)

section \<open>Properties of the supervisor\<close>

text \<open>
  C10: strategies. When a child that must be restarted exits and the supervisor does not give
  up, its batch stops the other running children the strategy disturbs, in reverse start
  order, and then starts every disturbed child that is not temporary, the dead one included,
  in start order; afterwards a disturbed child counts as running unless it is temporary, and
  every other child is as it was.
\<close>

theorem sup_strategy_batch:
  assumes "sup_inv s" and "index_of s i = Some idx"
    and "restarts_with (restart_type (children s ! idx)) reason"
    and "on_child_exit s i reason now = (acts, s')" and "GiveUp \<notin> set acts"
  shows "acts = map (\<lambda>k. stop_child (children s ! k))
           (filter (\<lambda>k. disturbs (sup_strategy (flags s)) idx k \<and> k \<noteq> idx \<and> running s ! k)
              (rev [0..<length (children s)]))
         @ map (\<lambda>k. Start (children s ! k))
           (filter (\<lambda>k. disturbs (sup_strategy (flags s)) idx k
                      \<and> restart_type (children s ! k) \<noteq> Temporary) [0..<length (children s)])
    \<and> (\<forall>k < length (children s). running s' ! k \<longleftrightarrow>
         (if disturbs (sup_strategy (flags s)) idx k then restart_type (children s ! k) \<noteq> Temporary
          else running s ! k))"
proof -
  have "\<not> too_many (intensity (flags s)) (new_stamps s idx now)"
    using assms give_up_iff[of s i reason now] by auto
  moreover have "restart_type (children s ! idx) \<noteq> Temporary"
    using assms(3) by (auto simp: restarts_with_def)
  ultimately show ?thesis
    using assms index_of_SomeD[OF assms(2)]
    by (auto simp: on_child_exit_restart Let_def running_after_iff)
qed

definition worker :: "string \<Rightarrow> restart \<Rightarrow> child_spec" where
  "worker i r = (child_spec_new i ''worker'')\<lparr>restart_type := r\<rparr>"

definition rest_sup :: supervisor where
  "rest_sup = snd (sup_init (supervisor_new
     \<lparr>sup_strategy = RestForOne, intensity = 100, period_ms = 5000\<rparr>
     [worker ''a'' Permanent, worker ''b'' Permanent, worker ''c'' Temporary, worker ''d'' Transient]))"

lemma rest_sup_eq:
  "rest_sup = \<lparr>flags = \<lparr>sup_strategy = RestForOne, intensity = 100, period_ms = 5000\<rparr>,
     children = [worker ''a'' Permanent, worker ''b'' Permanent, worker ''c'' Temporary, worker ''d'' Transient],
     running = [True, True, True, True], restarts = []\<rparr>"
  by (simp add: rest_sup_def sup_init_def supervisor_new_def Let_def split_def)

theorem sup_strategy_batch_witness:
  "fst (on_child_exit rest_sup ''b'' SKilled 7) =
     [Stop ''d'' (Timeout 5000), Stop ''c'' (Timeout 5000),
      Start (worker ''b'' Permanent), Start (worker ''d'' Transient)]"
proof -
  have i: "index_of rest_sup ''b'' = Some 1"
    by (simp add: index_of_def rest_sup_eq worker_def child_spec_new_def)
  have r: "restarts_with (restart_type (children rest_sup ! 1)) SKilled"
    by (simp add: rest_sup_eq worker_def restarts_with_def)
  have "GiveUp \<notin> set (fst (on_child_exit rest_sup ''b'' SKilled 7))"
    by code_simp
  moreover have "sup_inv rest_sup" by (simp add: sup_inv_def rest_sup_eq)
  ultimately show ?thesis
    using sup_strategy_batch[OF _ i r prod.collapse[symmetric], of 7]
    by (simp add: rest_sup_eq disturbs_def stop_child_def worker_def child_spec_new_def
        default_shutdown_def)
qed

text \<open>
  Teardown order. A shutdown stops exactly the children recorded as running, in reverse
  start order, each with its own setting, and leaves none recorded as running; a second
  shutdown has nothing left to do.
\<close>

lemma sup_shutdown_reverse:
  assumes "sup_inv s"
  shows "fst (sup_shutdown s) = map stop_child (rev (map fst (filter snd (zip (children s) (running s)))))
    \<and> (\<forall>k < length (children s). \<not> running (snd (sup_shutdown s)) ! k)
    \<and> fst (sup_shutdown (snd (sup_shutdown s))) = []"
proof -
  let ?n = "length (children s)"
  have "zip (children s) (running s) = map (\<lambda>k. (children s ! k, running s ! k)) [0..<?n]"
    using assms by (intro nth_equalityI) (auto simp: sup_inv_def)
  then have "filter snd (zip (children s) (running s)) =
      map (\<lambda>k. (children s ! k, running s ! k)) (filter ((!) (running s)) [0..<?n])"
    by (simp add: filter_map comp_def)
  then have "fst (sup_shutdown s) =
      map stop_child (rev (map fst (filter snd (zip (children s) (running s)))))"
    by (simp add: sup_shutdown_eq rev_map rev_filter[symmetric] comp_def)
  moreover have "sup_inv (snd (sup_shutdown s))" using assms by (simp add: sup_inv_def)
  ultimately show ?thesis
    using assms sup_shutdown_none_running
    by (auto simp: sup_shutdown_eq[of "snd (sup_shutdown s)"] filter_empty_conv)
qed

lemma sup_shutdown_reverse_witness:
  "fst (sup_shutdown rest_sup) =
     [Stop ''d'' (Timeout 5000), Stop ''c'' (Timeout 5000), Stop ''b'' (Timeout 5000), Stop ''a'' (Timeout 5000)]"
  using sup_shutdown_reverse[of rest_sup]
  by (simp add: sup_inv_def rest_sup_eq stop_child_def worker_def child_spec_new_def default_shutdown_def)

subsection \<open>The brake\<close>

definition starts_in :: "action list \<Rightarrow> nat" where
  "starts_in acts = length (filter (\<lambda>a. case a of Start _ \<Rightarrow> True | _ \<Rightarrow> False) acts)"

lemma starts_in_simps [simp]:
  "starts_in [] = 0" "starts_in (xs @ ys) = starts_in xs + starts_in ys"
  "starts_in (map (\<lambda>k. Start (f k)) ks) = length ks"
  "starts_in (map (\<lambda>k. stop_child (f k)) ks) = 0"
  by (simp_all add: starts_in_def stop_child_def filter_map comp_def)

definition sup_respond :: "supervisor \<Rightarrow> string \<times> sdk_reason \<times> u64 \<Rightarrow> action list \<times> supervisor" where
  "sup_respond s e = (case e of (i, reason, now) \<Rightarrow> on_child_exit s i reason now)"

definition exit_time :: "string \<times> sdk_reason \<times> u64 \<Rightarrow> u64" where
  "exit_time e = snd (snd e)"

lemma restart_count_le: "restart_count s idx \<le> length (children s)"
  unfolding restart_count_def by (rule order_trans[OF length_filter_le]) simp

lemma restart_count_pos:
  assumes "idx < length (children s)" and "restart_type (children s ! idx) \<noteq> Temporary"
  shows "0 < restart_count s idx"
proof -
  have "disturbs st idx idx" for st by (cases st) (auto simp: disturbs_def)
  with assms have "idx \<in> set (filter (\<lambda>k. disturbs (sup_strategy (flags s)) idx k
      \<and> restart_type (children s ! k) \<noteq> Temporary) [0..<length (children s)])"
    by simp
  then show ?thesis unfolding restart_count_def by (metis length_pos_if_in_set)
qed

lemma on_child_exit_starts:
  assumes "on_child_exit s i reason now = (acts, s')" and "GiveUp \<notin> set acts"
  shows "(starts_in acts = 0 \<and> restarts s' = restarts s) \<or>
    (\<exists>idx. starts_in acts = restart_count s idx \<and> 0 < restart_count s idx \<and> restarts s' = new_stamps s idx now
       \<and> \<not> too_many (intensity (flags s)) (new_stamps s idx now))"
proof (cases "index_of s i")
  case (Some idx)
  show ?thesis
  proof (cases "restarts_with (restart_type (children s ! idx)) reason")
    case True
    then have "\<not> too_many (intensity (flags s)) (new_stamps s idx now)"
      using assms Some give_up_iff[of s i reason now] by auto
    moreover have "restart_type (children s ! idx) \<noteq> Temporary"
      using True by (auto simp: restarts_with_def)
    then have "0 < restart_count s idx"
      using index_of_SomeD[OF Some] restart_count_pos by blast
    moreover have "starts_in acts = restart_count s idx" and "restarts s' = new_stamps s idx now"
      using assms Some True calculation(1)
      by (auto simp: on_child_exit_restart Let_def restart_count_def)
    ultimately show ?thesis by blast
  next
    case False
    with assms Some show ?thesis by (auto simp: on_child_exit_other)
  qed
qed (use assms in \<open>auto simp: on_child_exit_other\<close>)

lemma unat_of_nat_u32: "n < 2 ^ 32 \<Longrightarrow> unat (of_nat n :: u32) = n"
  unfolding unat_of_nat by (intro mod_less) simp

interpretation sup_window: restart_window sup_respond exit_time "\<lambda>_. starts_in" restarts
    "\<lambda>s. intensity (flags s)" "\<lambda>s. period_ms (flags s)" "\<lambda>s. length (children s)"
proof
  fix s s' :: supervisor and e :: "string \<times> sdk_reason \<times> u64" and acts
  obtain i reason now where e: "e = (i, reason, now)" by (cases e)
  assume r: "sup_respond s e = (acts, s')"
  then have ex: "on_child_exit s i reason now = (acts, s')" by (simp add: e sup_respond_def)
  show "intensity (flags s') = intensity (flags s) \<and> period_ms (flags s') = period_ms (flags s)
      \<and> length (children s') = length (children s)"
    using on_child_exit_constants[of s i reason now] ex by simp
  assume go: "GiveUp \<notin> set acts"
  note cases = on_child_exit_starts[OF ex go]
  show "starts_in acts \<le> length (children s)"
    using cases restart_count_le by fastforce
  show "restarts s' = restarts s" if "starts_in acts = 0"
    using cases that by auto
  show "restarts s' = forget_restarts_before (sat_sub (exit_time e) (period_ms (flags s)))
        (restarts s @ replicate (starts_in acts) (exit_time e))
      \<and> \<not> too_many (intensity (flags s)) (restarts s')"
    if "0 < starts_in acts" and "length (children s) < 2 ^ 32"
  proof -
    from cases that(1) obtain idx where "starts_in acts = restart_count s idx"
      and "restarts s' = new_stamps s idx now" and "\<not> too_many (intensity (flags s)) (restarts s')"
      by auto
    moreover have "unat (of_nat (restart_count s idx) :: u32) = restart_count s idx"
      using le_less_trans[OF restart_count_le that(2)] by (rule unat_of_nat_u32)
    ultimately show ?thesis by (simp only: new_stamps_def exit_time_def e snd_conv simp_thms)
  qed
qed

text \<open>
  C18: the brake. Take a fresh supervisor and any sequence of child exits in time order. As
  long as it has not given up, the restarts it has ordered within one period up to now are at
  most the configured intensity, whatever the strategy and however many children one exit
  restarts.
\<close>

theorem sup_restart_brake:
  assumes "sorted (map exit_time es)" and "\<forall>e \<in> set es. exit_time e \<le> now"
    and "unat (intensity fl) + length cs < 2 ^ 32"
    and "run_until_give_up sup_respond (snd (sup_init (supervisor_new fl cs))) es = (out, s')"
    and "\<not> gave_up out"
  shows "length (filter (\<lambda>t. sat_sub now (period_ms fl) \<le> t)
      (stamps_of exit_time (\<lambda>_. starts_in) out)) \<le> unat (intensity fl)"
proof -
  have "restarts (snd (sup_init (supervisor_new fl cs))) = []"
    "flags (snd (sup_init (supervisor_new fl cs))) = fl"
    "children (snd (sup_init (supervisor_new fl cs))) = cs"
    by (simp_all add: sup_init_def supervisor_new_def Let_def split_def)
  then show ?thesis
    using sup_window.brake[OF _ assms(1) _ assms(4,5,2)] assms(3) by simp
qed

definition crash_sup :: supervisor where
  "crash_sup = snd (sup_init (supervisor_new default_flags [worker ''a'' Permanent]))"

theorem sup_restart_brake_witness:
  "length (filter (\<lambda>t. sat_sub 10000 5000 \<le> t) (stamps_of exit_time (\<lambda>_. starts_in)
     (fst (run_until_give_up sup_respond crash_sup
        [(''a'', SKilled, 0), (''a'', SException ''boom'', 10000)])))) \<le> 1"
proof -
  let ?es = "[(''a'', SKilled, 0), (''a'', SException ''boom'', 10000)] :: (string \<times> sdk_reason \<times> u64) list"
  have go: "\<not> gave_up (fst (run_until_give_up sup_respond crash_sup ?es))"
    by code_simp
  have "sorted (map exit_time ?es) \<and> (\<forall>e \<in> set ?es. exit_time e \<le> 10000)"
    by (simp add: exit_time_def)
  then show ?thesis
    using sup_restart_brake[of ?es 10000 default_flags "[worker ''a'' Permanent]",
        OF _ _ _ prod.collapse[symmetric]] go[unfolded crash_sup_def]
    unfolding crash_sup_def by (simp add: default_flags_def del: run_until_give_up.simps)
qed

subsection \<open>Giving up\<close>

text \<open>
  Giving up forgets temporary siblings. When an exit trips the brake, the batch stops
  exactly the children that are recorded as running after the restart was prepared, ends with
  \<open>GiveUp\<close>, and leaves nobody recorded as running. A running temporary sibling that the
  strategy disturbs is therefore dropped without a \<open>Stop\<close>, and the child that died gets one.
\<close>

theorem sup_give_up_batch:
  assumes "sup_inv s" and "index_of s i = Some idx"
    and "on_child_exit s i reason now = (acts, s')" and "GiveUp \<in> set acts"
  shows "acts = map (\<lambda>k. stop_child (children s ! k))
           (filter (\<lambda>k. if disturbs (sup_strategy (flags s)) idx k
                        then restart_type (children s ! k) \<noteq> Temporary else running s ! k)
              (rev [0..<length (children s)])) @ [GiveUp]
    \<and> (\<forall>k < length (children s). \<not> running s' ! k)"
proof -
  let ?s2 = "s\<lparr>running := running_after s idx, restarts := new_stamps s idx now\<rparr>"
  have r: "restarts_with (restart_type (children s ! idx)) reason"
    and many: "too_many (intensity (flags s)) (new_stamps s idx now)"
    using assms(2,3,4) give_up_iff[of s i reason now] by auto
  have idx: "idx < length (children s)" using index_of_SomeD[OF assms(2)] by simp
  have nt: "restart_type (children s ! idx) \<noteq> Temporary" using r by (auto simp: restarts_with_def)
  have inv: "sup_inv ?s2" using assms(1) by (simp add: sup_inv_def)
  have "on_child_exit s i reason now = give_up ?s2"
    using many by (simp add: on_child_exit_restart[OF assms(2) r])
  then have acts: "acts = fst (sup_shutdown ?s2) @ [GiveUp]" and s': "s' = snd (sup_shutdown ?s2)"
    using assms(3) by (metis fst_conv give_up_simps(1), metis snd_conv give_up_simps(2))
  have "filter (\<lambda>k. running_after s idx ! k) (rev [0..<length (children s)]) =
      filter (\<lambda>k. if disturbs (sup_strategy (flags s)) idx k
                  then restart_type (children s ! k) \<noteq> Temporary else running s ! k)
        (rev [0..<length (children s)])"
    using assms(1) idx nt by (intro filter_cong) (auto simp: running_after_iff)
  with acts s' sup_shutdown_none_running[OF inv] show ?thesis
    by (simp add: sup_shutdown_eq)
qed

definition brittle_sup :: supervisor where
  "brittle_sup = snd (sup_init (supervisor_new
     \<lparr>sup_strategy = OneForAll, intensity = 0, period_ms = 5000\<rparr>
     [worker ''a'' Permanent, worker ''t'' Temporary]))"

lemma sup_give_up_batch_witness:
  "is_running brittle_sup ''t''
   \<and> fst (on_child_exit brittle_sup ''a'' SKilled 0) = [Stop ''a'' (Timeout 5000), GiveUp]
   \<and> \<not> is_running (snd (on_child_exit brittle_sup ''a'' SKilled 0)) ''t''"
proof -
  have b: "brittle_sup = \<lparr>flags = \<lparr>sup_strategy = OneForAll, intensity = 0, period_ms = 5000\<rparr>,
     children = [worker ''a'' Permanent, worker ''t'' Temporary], running = [True, True], restarts = []\<rparr>"
    by (simp add: brittle_sup_def sup_init_def supervisor_new_def Let_def split_def)
  let ?r = "on_child_exit brittle_sup ''a'' SKilled 0"
  have i: "index_of brittle_sup ''a'' = Some 0" "index_of (snd ?r) ''t'' = Some 1"
    using on_child_exit_constants[of brittle_sup "''a''" SKilled 0]
    by (simp_all add: index_of_def b worker_def child_spec_new_def)
  have "GiveUp \<in> set (fst ?r)" by code_simp
  then have "fst ?r = [Stop ''a'' (Timeout 5000), GiveUp] \<and> \<not> running (snd ?r) ! 1"
    using sup_give_up_batch[OF _ i(1) prod.collapse[symmetric], of SKilled 0]
    by (simp add: b sup_inv_def disturbs_def stop_child_def worker_def child_spec_new_def
        default_shutdown_def)
  then show ?thesis
    using i by (simp add: is_running_def index_of_def b worker_def child_spec_new_def)
qed

section \<open>The dynamic supervisor\<close>

record dyn_supervisor =
  dyn_intensity :: u32
  dyn_period :: u64
  dyn_children :: "child_spec list"
  dyn_restarts :: "u64 list"

datatype start_child_error = DuplicateId string

definition dyn_new :: "sup_flags \<Rightarrow> dyn_supervisor" where
  "dyn_new fl = \<lparr>dyn_intensity = intensity fl, dyn_period = period_ms fl,
     dyn_children = [], dyn_restarts = []\<rparr>"

definition dyn_len :: "dyn_supervisor \<Rightarrow> nat" where
  "dyn_len d = length (dyn_children d)"

definition dyn_is_empty :: "dyn_supervisor \<Rightarrow> bool" where
  "dyn_is_empty d \<longleftrightarrow> dyn_children d = []"

definition dyn_contains :: "dyn_supervisor \<Rightarrow> string \<Rightarrow> bool" where
  "dyn_contains d i \<longleftrightarrow> list_ex (\<lambda>c. child_id c = i) (dyn_children d)"

definition start_child ::
  "dyn_supervisor \<Rightarrow> child_spec \<Rightarrow> (start_child_error + action) \<times> dyn_supervisor" where
  "start_child d spec =
     (if dyn_contains d (child_id spec) then (Inl (DuplicateId (child_id spec)), d)
      else (Inr (Start spec), d\<lparr>dyn_children := dyn_children d @ [spec]\<rparr>))"

definition terminate_child :: "dyn_supervisor \<Rightarrow> string \<Rightarrow> action option \<times> dyn_supervisor" where
  "terminate_child d i =
     (case position (\<lambda>c. child_id c = i) (dyn_children d) of
        None \<Rightarrow> (None, d)
      | Some idx \<Rightarrow> (Some (stop_child (dyn_children d ! idx)),
                    d\<lparr>dyn_children := remove_at idx (dyn_children d)\<rparr>))"

definition dyn_shutdown :: "dyn_supervisor \<Rightarrow> action list \<times> dyn_supervisor" where
  "dyn_shutdown d = (map stop_child (dyn_children d), d\<lparr>dyn_children := []\<rparr>)"

definition dyn_on_child_exit ::
  "dyn_supervisor \<Rightarrow> string \<Rightarrow> sdk_reason \<Rightarrow> u64 \<Rightarrow> action list \<times> dyn_supervisor" where
  "dyn_on_child_exit d i reason now =
     (case position (\<lambda>c. child_id c = i) (dyn_children d) of
        None \<Rightarrow> ([], d)
      | Some idx \<Rightarrow>
          (let spec = dyn_children d ! idx
           in if \<not> restarts_with (restart_type spec) reason
              then ([], d\<lparr>dyn_children := remove_at idx (dyn_children d)\<rparr>)
              else
                (let stamps = forget_restarts_before (sat_sub now (dyn_period d)) (dyn_restarts d @ [now]);
                     d1 = d\<lparr>dyn_restarts := stamps\<rparr>
                 in if too_many (dyn_intensity d) stamps
                    then (let (acts, d2) = dyn_shutdown d1 in (acts @ [GiveUp], d2))
                    else ([Start spec], d1))))"

text \<open>What a pool is asked to do, in the order it happens.\<close>

datatype dyn_event =
    DStart child_spec u64
  | DTerminate string u64
  | DExit string sdk_reason u64

definition dyn_respond :: "dyn_supervisor \<Rightarrow> dyn_event \<Rightarrow> action list \<times> dyn_supervisor" where
  "dyn_respond d e =
     (case e of
        DStart spec _ \<Rightarrow>
          (case start_child d spec of (Inl _, d') \<Rightarrow> ([], d') | (Inr a, d') \<Rightarrow> ([a], d'))
      | DTerminate i _ \<Rightarrow>
          (case terminate_child d i of (None, d') \<Rightarrow> ([], d') | (Some a, d') \<Rightarrow> ([a], d'))
      | DExit i reason now \<Rightarrow> dyn_on_child_exit d i reason now)"

definition dyn_time :: "dyn_event \<Rightarrow> u64" where
  "dyn_time e = (case e of DStart _ t \<Rightarrow> t | DTerminate _ t \<Rightarrow> t | DExit _ _ t \<Rightarrow> t)"

definition dyn_count :: "dyn_event \<Rightarrow> action list \<Rightarrow> nat" where
  "dyn_count e acts = (case e of DExit _ _ _ \<Rightarrow> starts_in acts | _ \<Rightarrow> 0)"

lemma start_child_cases:
  "start_child d spec = (r, d') \<Longrightarrow>
   (dyn_contains d (child_id spec) \<and> r = Inl (DuplicateId (child_id spec)) \<and> d' = d) \<or>
   (\<not> dyn_contains d (child_id spec) \<and> r = Inr (Start spec)
      \<and> d' = d\<lparr>dyn_children := dyn_children d @ [spec]\<rparr>)"
  by (auto simp: start_child_def split: if_splits)

lemma dyn_exit_cases:
  assumes "dyn_on_child_exit d i reason now = (acts, d')" and "GiveUp \<notin> set acts"
  shows "dyn_intensity d' = dyn_intensity d \<and> dyn_period d' = dyn_period d \<and>
    ((acts = [] \<and> dyn_restarts d' = dyn_restarts d) \<or>
     (\<exists>spec. acts = [Start spec]
        \<and> dyn_restarts d' = forget_restarts_before (sat_sub now (dyn_period d)) (dyn_restarts d @ [now])
        \<and> \<not> too_many (dyn_intensity d) (dyn_restarts d')))"
  using assms
  by (auto simp: dyn_on_child_exit_def dyn_shutdown_def Let_def split: option.splits if_splits)

lemma dyn_constants:
  "dyn_respond d e = (acts, d') \<Longrightarrow> dyn_intensity d' = dyn_intensity d \<and> dyn_period d' = dyn_period d"
  by (auto simp: dyn_respond_def dyn_on_child_exit_def dyn_shutdown_def start_child_def
      terminate_child_def Let_def split: dyn_event.splits option.splits if_splits)

interpretation dyn_window: restart_window dyn_respond dyn_time dyn_count dyn_restarts
    dyn_intensity dyn_period "\<lambda>_. 1"
proof
  fix d d' :: dyn_supervisor and e acts
  assume r: "dyn_respond d e = (acts, d')"
  show "dyn_intensity d' = dyn_intensity d \<and> dyn_period d' = dyn_period d \<and> (1::nat) = 1"
    using dyn_constants[OF r] by simp
  assume go: "GiveUp \<notin> set acts"
  show "dyn_count e acts \<le> 1"
    using r go
    by (cases e) (auto simp: dyn_respond_def dyn_count_def starts_in_def dest!: dyn_exit_cases)
  show "dyn_restarts d' = dyn_restarts d" if "dyn_count e acts = 0"
  proof (cases e)
    case (DExit i reason now)
    then show ?thesis
      using r go that dyn_exit_cases[of d i reason now acts d']
      by (auto simp: dyn_respond_def dyn_count_def starts_in_def)
  qed (use r in \<open>auto simp: dyn_respond_def start_child_def terminate_child_def
        split: option.splits if_splits\<close>)
  show "dyn_restarts d' = forget_restarts_before (sat_sub (dyn_time e) (dyn_period d))
        (dyn_restarts d @ replicate (dyn_count e acts) (dyn_time e))
      \<and> \<not> too_many (dyn_intensity d) (dyn_restarts d')" if "0 < dyn_count e acts"
  proof (cases e)
    case (DExit i reason now)
    then show ?thesis
      using r go that dyn_exit_cases[of d i reason now acts d']
      by (auto simp: dyn_respond_def dyn_count_def dyn_time_def starts_in_def)
  qed (use that in \<open>simp_all add: dyn_count_def\<close>)
qed

subsection \<open>Properties of the pool\<close>

lemma dyn_contains_iff: "dyn_contains d i \<longleftrightarrow> i \<in> child_id ` set (dyn_children d)"
  by (auto simp: dyn_contains_def list_ex_iff)

definition dyn_inv :: "dyn_supervisor \<Rightarrow> bool" where
  "dyn_inv d \<longleftrightarrow> distinct (map child_id (dyn_children d))"

lemma distinct_remove_at: "distinct (map f xs) \<Longrightarrow> distinct (map f (remove_at i xs))"
proof -
  assume "distinct (map f xs)"
  then have "distinct (map f (take i xs @ drop i xs))" by simp
  moreover have "set (drop (Suc i) xs) \<subseteq> set (drop i xs)" by (simp add: set_drop_subset_set_drop)
  moreover have "distinct (map f (drop (Suc i) xs))"
    using \<open>distinct (map f xs)\<close> by (metis distinct_drop drop_map)
  ultimately show ?thesis
    unfolding remove_at_def by (fastforce simp del: append_take_drop_id)
qed

lemma dyn_inv_respond: "dyn_inv d \<Longrightarrow> dyn_inv (snd (dyn_respond d e))"
  by (auto simp: dyn_inv_def dyn_respond_def start_child_def terminate_child_def dyn_contains_iff
      dyn_on_child_exit_def dyn_shutdown_def Let_def distinct_remove_at
      split: dyn_event.splits option.splits if_splits)

definition dyn_run :: "dyn_supervisor \<Rightarrow> dyn_event list \<Rightarrow> dyn_supervisor" where
  "dyn_run d es = foldl (\<lambda>d e. snd (dyn_respond d e)) d es"

lemma dyn_inv_run: "dyn_inv d \<Longrightarrow> dyn_inv (dyn_run d es)"
  unfolding dyn_run_def by (induction es arbitrary: d) (simp_all add: dyn_inv_respond)

lemma position_distinct_remove:
  assumes "distinct (map f xs)" and "position (\<lambda>x. f x = i) xs = Some k"
  shows "f ` set (remove_at k xs) = f ` set xs - {i}"
proof -
  from assms(2) obtain ys x zs where xs: "xs = ys @ x # zs" and "length ys = k" and "f x = i"
    and "remove_at k xs = ys @ zs"
    by (elim position_split) auto
  moreover have "i \<notin> f ` set (ys @ zs)"
    using assms(1) \<open>f x = i\<close> xs by (simp add: image_iff) blast
  ultimately show ?thesis by auto
qed

text \<open>
  C33: ids of a pool. Whatever a pool has been asked, no two of its children share an id;
  \<open>start_child\<close> is refused exactly for an id in use and otherwise adds that id,
  \<open>terminate_child\<close> finds exactly the ids in use and frees the id it is given.
\<close>

theorem dyn_unique_ids:
  assumes "d = dyn_run (dyn_new fl) es"
  shows "distinct (map child_id (dyn_children d))
    \<and> (fst (start_child d spec) = Inl (DuplicateId (child_id spec)) \<longleftrightarrow> dyn_contains d (child_id spec))
    \<and> (\<forall>i. dyn_contains (snd (start_child d spec)) i \<longleftrightarrow> dyn_contains d i \<or> i = child_id spec)
    \<and> (fst (terminate_child d j) = None \<longleftrightarrow> \<not> dyn_contains d j)
    \<and> (\<forall>i. dyn_contains (snd (terminate_child d j)) i \<longleftrightarrow> dyn_contains d i \<and> i \<noteq> j)"
proof -
  have inv: "distinct (map child_id (dyn_children d))"
    using dyn_inv_run[of "dyn_new fl" es] assms by (simp add: dyn_inv_def dyn_new_def)
  have "\<forall>i. dyn_contains (snd (terminate_child d j)) i \<longleftrightarrow> dyn_contains d i \<and> i \<noteq> j"
  proof (cases "position (\<lambda>c. child_id c = j) (dyn_children d)")
    case None
    then have "\<not> dyn_contains d j" by (auto simp: position_None_iff dyn_contains_iff)
    with None show ?thesis by (auto simp: terminate_child_def)
  next
    case (Some k)
    with position_distinct_remove[OF inv Some] show ?thesis
      by (simp add: terminate_child_def dyn_contains_iff)
  qed
  moreover have "fst (terminate_child d j) = None \<longleftrightarrow> \<not> dyn_contains d j"
    using position_None_iff[of "\<lambda>c. child_id c = j" "dyn_children d"]
    by (auto simp: terminate_child_def dyn_contains_iff split: option.splits)
  ultimately show ?thesis
    using inv by (auto simp: start_child_def dyn_contains_iff)
qed

theorem dyn_unique_ids_witness:
  "let d = dyn_run (dyn_new default_flags) [DStart (worker ''a'' Permanent) 0, DTerminate ''a'' 1]
   in fst (start_child d (worker ''a'' Temporary)) \<noteq> Inl (DuplicateId ''a'')"
proof -
  define d where
    "d = dyn_run (dyn_new default_flags) [DStart (worker ''a'' Permanent) 0, DTerminate ''a'' 1]"
  have "dyn_children d = []" unfolding d_def by code_simp
  then have "\<not> dyn_contains d ''a''" by (simp add: dyn_contains_def)
  then show ?thesis
    using dyn_unique_ids[OF d_def, of "worker ''a'' Temporary"]
    unfolding d_def[symmetric] Let_def by (simp add: worker_def child_spec_new_def)
qed

definition only_temporary :: "dyn_event list \<Rightarrow> bool" where
  "only_temporary es \<longleftrightarrow>
     list_all (\<lambda>e. case e of DStart spec _ \<Rightarrow> restart_type spec = Temporary | _ \<Rightarrow> True) es"

lemma temporary_step:
  assumes "\<forall>c \<in> set (dyn_children d). restart_type c = Temporary"
    and "only_temporary [e]" and "dyn_respond d e = (acts, d')"
  shows "(\<forall>c \<in> set (dyn_children d'). restart_type c = Temporary)
    \<and> GiveUp \<notin> set acts \<and> dyn_count e acts = 0"
proof -
  have exits: "acts = [] \<and> set (dyn_children d') \<subseteq> set (dyn_children d)"
    if "dyn_on_child_exit d i reason now = (acts, d')" for i reason now
  proof (cases "position (\<lambda>c. child_id c = i) (dyn_children d)")
    case (Some k)
    then have "restart_type (dyn_children d ! k) = Temporary"
      using assms(1) position_SomeD nth_mem by blast
    with Some that have "acts = [] \<and> d' = d\<lparr>dyn_children := remove_at k (dyn_children d)\<rparr>"
      by (simp add: dyn_on_child_exit_def restarts_with_def)
    then show ?thesis by (auto dest: in_set_remove_at)
  qed (use that in \<open>simp add: dyn_on_child_exit_def\<close>)
  show ?thesis
  proof (cases e)
    case (DExit i reason now)
    with exits[of i reason now] assms show ?thesis
      by (auto simp: dyn_respond_def dyn_count_def)
  next
    case (DStart spec t)
    with assms show ?thesis
      by (auto simp: dyn_respond_def dyn_count_def only_temporary_def start_child_def split: if_splits)
  next
    case (DTerminate i t)
    with assms show ?thesis
      by (auto simp: dyn_respond_def dyn_count_def terminate_child_def stop_child_def
          dest!: in_set_remove_at split: option.splits)
  qed
qed

lemma temporary_run:
  assumes "\<forall>c \<in> set (dyn_children d). restart_type c = Temporary" and "only_temporary es"
    and "run_until_give_up dyn_respond d es = (out, d')"
  shows "\<not> gave_up out \<and> stamps_of dyn_time dyn_count out = []"
  using assms
proof (induction es arbitrary: d out)
  case Nil
  then show ?case by (simp add: gave_up_def stamps_of_def)
next
  case (Cons e es)
  obtain acts d1 where r: "dyn_respond d e = (acts, d1)" by fastforce
  have "only_temporary [e]" and es: "only_temporary es"
    using Cons.prems(2) by (simp_all add: only_temporary_def)
  from temporary_step[OF Cons.prems(1) this(1) r]
  have tmp: "\<forall>c \<in> set (dyn_children d1). restart_type c = Temporary"
    and acts: "GiveUp \<notin> set acts" "dyn_count e acts = 0"
    by auto
  then obtain out1 where run: "run_until_give_up dyn_respond d1 es = (out1, d')"
    and out: "out = (e, acts) # out1"
    using Cons.prems(3) r by (auto split: prod.splits)
  with Cons.IH[OF tmp es run] acts show ?case by (simp add: gave_up_def stamps_of_def)
qed

text \<open>
  The pool's brake counts restarts, not deaths. Under any requests and exits in time
  order, a pool that has not given up has ordered at most its intensity of restarts within one
  period; and a pool that was only ever given temporary children never gives up and never
  restarts one, however fast they come and go.
\<close>

lemma dyn_restart_brake:
  assumes "sorted (map dyn_time es)" and "\<forall>e \<in> set es. dyn_time e \<le> now"
    and "intensity fl \<noteq> - 1"
    and "run_until_give_up dyn_respond (dyn_new fl) es = (out, d')"
  shows "(\<not> gave_up out \<longrightarrow>
      length (filter (\<lambda>t. sat_sub now (period_ms fl) \<le> t) (stamps_of dyn_time dyn_count out))
        \<le> unat (intensity fl))
    \<and> (only_temporary es \<longrightarrow> \<not> gave_up out \<and> stamps_of dyn_time dyn_count out = [])"
proof -
  have "unat (intensity fl) \<noteq> unat (- 1 :: u32)" using assms(3) by (metis word_eq_iff_unsigned)
  then have "unat (intensity fl) \<noteq> 2 ^ 32 - 1"
    by (simp add: unsigned_minus_1_eq_mask mask_eq_exp_minus_1)
  then have "unat (intensity fl) + 1 < 2 ^ 32"
    using unsigned_less[of "intensity fl", where 'a = nat] by simp
  then have "length (filter (\<lambda>t. sat_sub now (period_ms fl) \<le> t) (stamps_of dyn_time dyn_count out))
        \<le> unat (intensity fl)" if "\<not> gave_up out"
    using dyn_window.brake[OF _ assms(1) _ assms(4) that assms(2)] by (simp add: dyn_new_def)
  moreover have "\<not> gave_up out \<and> stamps_of dyn_time dyn_count out = []" if "only_temporary es"
    using temporary_run[OF _ that assms(4)] by (simp add: dyn_new_def)
  ultimately show ?thesis by blast
qed

lemma dyn_restart_brake_witness:
  "\<not> gave_up (fst (run_until_give_up dyn_respond (dyn_new \<lparr>sup_strategy = OneForOne, intensity = 0, period_ms = 5000\<rparr>)
      [DStart (worker ''j'' Temporary) 0, DExit ''j'' SKilled 1, DStart (worker ''j'' Temporary) 1,
       DExit ''j'' SNormal 2]))"
proof -
  let ?es = "[DStart (worker ''j'' Temporary) 0, DExit ''j'' SKilled 1,
      DStart (worker ''j'' Temporary) 1, DExit ''j'' SNormal 2]"
  have "sorted (map dyn_time ?es) \<and> (\<forall>e \<in> set ?es. dyn_time e \<le> 2) \<and> only_temporary ?es"
    by (simp add: dyn_time_def only_temporary_def worker_def)
  then show ?thesis
    using dyn_restart_brake[of ?es 2 "\<lparr>sup_strategy = OneForOne, intensity = 0, period_ms = 5000\<rparr>",
        OF _ _ _ prod.collapse[symmetric]]
    by (simp del: run_until_give_up.simps)
qed

end
