(* ===== verification/Registry.thy ===== *)
theory Registry
  imports Mailboxes
begin

text \<open>
  The particle registry (\<^verbatim>\<open>src/registry.rs\<close>): components and running particles, their
  links, monitors and names, and the propagation of exits.

  Mailboxes are shared behind an \<^verbatim>\<open>Arc\<close>, so they live in a store of their own and a
  particle's state holds an address. A compiled WebAssembly component is a value of the type
  parameter \<open>'c\<close>. The broadcast channel of deaths is the log of what was sent on it. Each
  operation is one atomic function; the one place where the code itself expects another task
  to come in between, the two name checks of \<^verbatim>\<open>spawn\<close>, takes that task as an argument.
\<close>

section \<open>State\<close>

record 'c loaded_component =
  code_component :: 'c
  code_capabilities :: policy_set

record 'c component_template =
  template_component :: 'c
  default_capabilities :: policy_set

record ('n, 'c) particle_entry =
  entry_pid :: "'n pid"
  entry_code :: "'c loaded_component"
  entry_component_name :: string
  entry_name :: "string option"

record 'n particle_state =
  links :: "'n pid list"
  monitors :: "(u64, 'n pid) hmap"
  monitored_by :: "('n pid \<times> u64) list"
  trap_exit :: bool
  mailbox_at :: nat

record 'n particle_death =
  dead_pid :: "'n pid"
  dead_name :: "string option"
  dead_reason :: exit_reason
  remote_links :: "'n pid list"
  remote_monitors :: "('n pid \<times> u64) list"

record ('n, 'c) registry =
  pid_generator :: "'n pid_gen"
  particles :: "('n pid, ('n, 'c) particle_entry) hmap"
  names :: "(string, 'n pid) hmap"
  components :: "(string, 'c component_template) hmap"
  particle_states :: "('n pid, 'n particle_state) hmap"
  next_ref :: u64
  deaths :: "'n particle_death list"
  boxes :: "nat \<Rightarrow> 'n mailbox"
  next_box :: nat

datatype 'n reg_error =
    NameTaken string
  | NoComponent string
  | NoParticleFor "'n pid"
  | WatcherMissing
  | NotOwner string
  | NotRegistered string
  | BadBinary string

definition registry_new :: "'n pid_gen \<Rightarrow> ('n, 'c) registry" where
  "registry_new g =
     \<lparr>pid_generator = g, particles = [], names = [], components = [], particle_states = [],
      next_ref = 1, deaths = [], boxes = (\<lambda>_. mailbox_new), next_box = 0\<rparr>"

abbreviation me :: "('n, 'c) registry \<Rightarrow> 'n" where
  "me reg \<equiv> gen_node (pid_generator reg)"

abbreviation state_of :: "('n, 'c) registry \<Rightarrow> 'n pid \<Rightarrow> 'n particle_state option" where
  "state_of reg p \<equiv> hm_get (particle_states reg) p"

definition particle_exists :: "('n, 'c) registry \<Rightarrow> 'n pid \<Rightarrow> bool" where
  "particle_exists reg p = hm_has (particle_states reg) p"

definition particle_count :: "('n, 'c) registry \<Rightarrow> nat" where
  "particle_count reg = length (particle_states reg)"

definition update_state ::
  "'n pid \<Rightarrow> ('n particle_state \<Rightarrow> 'n particle_state) \<Rightarrow> ('n, 'c) registry \<Rightarrow> ('n, 'c) registry" where
  "update_state p f reg = reg\<lparr>particle_states := hm_modify p f (particle_states reg)\<rparr>"

definition update_box ::
  "nat \<Rightarrow> ('n mailbox \<Rightarrow> 'n mailbox) \<Rightarrow> ('n, 'c) registry \<Rightarrow> ('n, 'c) registry" where
  "update_box a f reg = reg\<lparr>boxes := (boxes reg)(a := f (boxes reg a))\<rparr>"

section \<open>Components and spawning\<close>

definition register_component ::
  "(bytes \<Rightarrow> string + 'c) \<Rightarrow> string \<Rightarrow> bytes \<Rightarrow> policy_set \<Rightarrow> ('n, 'c) registry
     \<Rightarrow> ('n reg_error + unit) \<times> ('n, 'c) registry" where
  "register_component compile name wasm caps reg =
     (case compile wasm of
        Inl e \<Rightarrow> (Inl (BadBinary e), reg)
      | Inr c \<Rightarrow>
          (Inr (), reg\<lparr>components := hm_insert name
             \<lparr>template_component = c, default_capabilities = caps\<rparr> (components reg)\<rparr>))"

definition fresh_state :: "nat \<Rightarrow> 'n particle_state" where
  "fresh_state a = \<lparr>links = [], monitors = [], monitored_by = [], trap_exit = False, mailbox_at = a\<rparr>"

text \<open>
  \<open>race\<close> is what other tasks do between the insertion of the particle and the second look at
  the names.
\<close>

definition spawn_raced ::
  "(('n, 'c) registry \<Rightarrow> ('n, 'c) registry) \<Rightarrow> string \<Rightarrow> string option \<Rightarrow> policy_set option
     \<Rightarrow> ('n, 'c) registry \<Rightarrow> ('n reg_error + 'n pid \<times> nat) \<times> ('n, 'c) registry" where
  "spawn_raced race cname name caps reg =
     (if (case name of Some n \<Rightarrow> hm_has (names reg) n | None \<Rightarrow> False)
      then (Inl (NameTaken (the name)), reg)
      else
        (case hm_get (components reg) cname of
           None \<Rightarrow> (Inl (NoComponent cname), reg)
         | Some template \<Rightarrow>
             (let granted = (case caps of Some c \<Rightarrow> c | None \<Rightarrow> default_capabilities template);
                  code = \<lparr>code_component = template_component template, code_capabilities = granted\<rparr>;
                  (pid, gen) = next_pid (pid_generator reg);
                  entry = \<lparr>entry_pid = pid, entry_code = code, entry_component_name = cname,
                           entry_name = name\<rparr>;
                  a = next_box reg;
                  reg1 = reg\<lparr>pid_generator := gen,
                             boxes := (boxes reg)(a := mailbox_new), next_box := Suc a,
                             particles := hm_insert pid entry (particles reg),
                             particle_states := hm_insert pid (fresh_state a) (particle_states reg)\<rparr>;
                  reg2 = race reg1
              in (case name of
                    None \<Rightarrow> (Inr (pid, a), reg2)
                  | Some n \<Rightarrow>
                      if hm_has (names reg2) n
                      then (Inl (NameTaken n),
                            reg2\<lparr>particle_states := hm_remove pid (particle_states reg2),
                                 particles := hm_remove pid (particles reg2)\<rparr>)
                      else (Inr (pid, a), reg2\<lparr>names := hm_insert n pid (names reg2)\<rparr>)))))"

definition spawn ::
  "string \<Rightarrow> string option \<Rightarrow> policy_set option \<Rightarrow> ('n, 'c) registry
     \<Rightarrow> ('n reg_error + 'n pid \<times> nat) \<times> ('n, 'c) registry" where
  "spawn = spawn_raced id"

definition insert_test_particle :: "nat \<Rightarrow> ('n, 'c) registry \<Rightarrow> 'n pid \<times> ('n, 'c) registry" where
  "insert_test_particle a reg =
     (let (pid, gen) = next_pid (pid_generator reg)
      in (pid, reg\<lparr>pid_generator := gen,
                   particle_states := hm_insert pid (fresh_state a) (particle_states reg)\<rparr>))"

section \<open>Queries\<close>

record ('n, 'c) particle_ref =
  ref_pid :: "'n pid"
  ref_component :: 'c
  ref_capabilities :: policy_set
  ref_component_name :: string
  ref_name :: "string option"

definition get_by_pid :: "('n, 'c) registry \<Rightarrow> 'n pid \<Rightarrow> ('n, 'c) particle_ref option" where
  "get_by_pid reg p =
     map_option (\<lambda>e. \<lparr>ref_pid = entry_pid e, ref_component = code_component (entry_code e),
         ref_capabilities = code_capabilities (entry_code e),
         ref_component_name = entry_component_name e, ref_name = entry_name e\<rparr>)
       (hm_get (particles reg) p)"

definition get_by_name :: "('n, 'c) registry \<Rightarrow> string \<Rightarrow> 'n pid option" where
  "get_by_name reg n = hm_get (names reg) n"

definition list_components :: "('n, 'c) registry \<Rightarrow> string list" where
  "list_components reg = hm_keys (components reg)"

definition list_particles :: "('n, 'c) registry \<Rightarrow> ('n pid \<times> string \<times> string option) list" where
  "list_particles reg =
     map (\<lambda>(_, e). (entry_pid e, entry_component_name e, entry_name e)) (particles reg)"

definition get_component :: "('n, 'c) registry \<Rightarrow> string \<Rightarrow> ('c \<times> policy_set) option" where
  "get_component reg n =
     map_option (\<lambda>t. (template_component t, default_capabilities t)) (hm_get (components reg) n)"

definition resolve_target :: "'n node_codec \<Rightarrow> ('n, 'c) registry \<Rightarrow> string \<Rightarrow> 'n pid option" where
  "resolve_target c reg target =
     (case get_by_name reg target of
        Some p \<Rightarrow> Some p
      | None \<Rightarrow> find (\<lambda>p. show_pid c p = target) (hm_keys (particle_states reg)))"

section \<open>Sending\<close>

definition send_to_pid ::
  "'n pid \<Rightarrow> bytes \<Rightarrow> ('n, 'c) registry \<Rightarrow> (send_error + unit) \<times> ('n, 'c) registry" where
  "send_to_pid p msg reg =
     (case state_of reg p of
        None \<Rightarrow> (Inl NoParticle, reg)
      | Some st \<Rightarrow>
          (case push_data (boxes reg (mailbox_at st)) msg of
             Inl e \<Rightarrow> (Inl e, reg)
           | Inr mb \<Rightarrow> (Inr (), update_box (mailbox_at st) (\<lambda>_. mb) reg)))"

definition send_tagged_to_pid ::
  "'n pid \<Rightarrow> u64 \<Rightarrow> bytes \<Rightarrow> ('n, 'c) registry \<Rightarrow> (send_error + unit) \<times> ('n, 'c) registry" where
  "send_tagged_to_pid p r msg reg =
     (case state_of reg p of
        None \<Rightarrow> (Inl NoParticle, reg)
      | Some st \<Rightarrow>
          (case push_tagged (boxes reg (mailbox_at st)) r msg of
             Inl e \<Rightarrow> (Inl e, reg)
           | Inr mb \<Rightarrow> (Inr (), update_box (mailbox_at st) (\<lambda>_. mb) reg)))"

definition send_system ::
  "'n pid \<Rightarrow> 'n system_message \<Rightarrow> ('n, 'c) registry \<Rightarrow> ('n reg_error + unit) \<times> ('n, 'c) registry" where
  "send_system p msg reg =
     (case state_of reg p of
        None \<Rightarrow> (Inl (NoParticleFor p), reg)
      | Some st \<Rightarrow> (Inr (), update_box (mailbox_at st) (\<lambda>mb. push_system mb msg) reg))"

definition deliver_exit ::
  "'n pid \<Rightarrow> 'n pid \<Rightarrow> exit_reason \<Rightarrow> ('n, 'c) registry \<Rightarrow> ('n, 'c) registry" where
  "deliver_exit to from reason reg = snd (send_system to (SysExit from reason) reg)"

definition deliver_down ::
  "'n pid \<Rightarrow> 'n pid \<Rightarrow> u64 \<Rightarrow> exit_reason \<Rightarrow> ('n, 'c) registry \<Rightarrow> ('n, 'c) registry" where
  "deliver_down to from ref_id reason reg = snd (send_system to (SysDown from ref_id reason) reg)"

section \<open>Links and monitors\<close>

definition add_link :: "'n pid \<Rightarrow> 'n particle_state \<Rightarrow> 'n particle_state" where
  "add_link p st = st\<lparr>links := hs_insert p (links st)\<rparr>"

definition drop_link :: "'n pid \<Rightarrow> 'n particle_state \<Rightarrow> 'n particle_state" where
  "drop_link p st = st\<lparr>links := hs_remove p (links st)\<rparr>"

definition add_monitor :: "u64 \<Rightarrow> 'n pid \<Rightarrow> 'n particle_state \<Rightarrow> 'n particle_state" where
  "add_monitor r t st = st\<lparr>monitors := hm_insert r t (monitors st)\<rparr>"

definition drop_monitor :: "u64 \<Rightarrow> 'n particle_state \<Rightarrow> 'n particle_state" where
  "drop_monitor r st = st\<lparr>monitors := hm_remove r (monitors st)\<rparr>"

definition add_watcher :: "'n pid \<Rightarrow> u64 \<Rightarrow> 'n particle_state \<Rightarrow> 'n particle_state" where
  "add_watcher w r st = st\<lparr>monitored_by := monitored_by st @ [(w, r)]\<rparr>"

definition drop_watcher :: "'n pid \<Rightarrow> u64 \<Rightarrow> 'n particle_state \<Rightarrow> 'n particle_state" where
  "drop_watcher w r st = st\<lparr>monitored_by := filter (\<lambda>x. x \<noteq> (w, r)) (monitored_by st)\<rparr>"

definition link_remote :: "'n pid \<Rightarrow> 'n pid \<Rightarrow> ('n, 'c) registry \<Rightarrow> ('n, 'c) registry" where
  "link_remote local remote reg = update_state local (add_link remote) reg"

definition unlink_remote :: "'n pid \<Rightarrow> 'n pid \<Rightarrow> ('n, 'c) registry \<Rightarrow> ('n, 'c) registry" where
  "unlink_remote local remote reg = update_state local (drop_link remote) reg"

definition monitor_remote :: "'n pid \<Rightarrow> 'n pid \<Rightarrow> u64 \<Rightarrow> ('n, 'c) registry \<Rightarrow> ('n, 'c) registry" where
  "monitor_remote watcher target ref_id reg =
     update_state target (add_watcher watcher ref_id)
       (update_state watcher (add_monitor ref_id target) reg)"

definition monitor_with_ref :: "'n pid \<Rightarrow> 'n pid \<Rightarrow> u64 \<Rightarrow> ('n, 'c) registry \<Rightarrow> ('n, 'c) registry" where
  "monitor_with_ref watcher target ref_id reg =
     update_state target (add_watcher watcher ref_id)
       (update_state watcher (add_monitor ref_id target) reg)"

definition link ::
  "'n pid \<Rightarrow> 'n pid \<Rightarrow> ('n, 'c) registry \<Rightarrow> ('n reg_error + unit) \<times> ('n, 'c) registry" where
  "link a b reg =
     (if \<not> hm_has (particle_states reg) a then (Inl (NoParticleFor a), reg)
      else if \<not> hm_has (particle_states reg) b then (Inl (NoParticleFor b), reg)
      else (Inr (), update_state b (add_link a) (update_state a (add_link b) reg)))"

definition unlink :: "'n pid \<Rightarrow> 'n pid \<Rightarrow> ('n, 'c) registry \<Rightarrow> ('n, 'c) registry" where
  "unlink a b reg = update_state b (drop_link a) (update_state a (drop_link b) reg)"

definition monitor ::
  "'n pid \<Rightarrow> 'n pid \<Rightarrow> ('n, 'c) registry \<Rightarrow> ('n reg_error + u64) \<times> ('n, 'c) registry" where
  "monitor watcher target reg =
     (let r = next_ref reg; reg = reg\<lparr>next_ref := next_ref reg + 1\<rparr>
      in if \<not> hm_has (particle_states reg) target
         then (Inr r,
               (case state_of reg watcher of
                  None \<Rightarrow> reg
                | Some st \<Rightarrow> update_box (mailbox_at st)
                              (\<lambda>mb. push_system mb (SysDown target r Normal)) reg))
         else
           (let reg1 = update_state target (add_watcher watcher r) reg
            in if \<not> hm_has (particle_states reg1) watcher then (Inl WatcherMissing, reg1)
               else (Inr r, update_state watcher (add_monitor r target) reg1)))"

definition demonitor :: "'n pid \<Rightarrow> u64 \<Rightarrow> ('n, 'c) registry \<Rightarrow> ('n, 'c) registry" where
  "demonitor watcher r reg =
     (let target = (case state_of reg watcher of None \<Rightarrow> None | Some st \<Rightarrow> hm_get (monitors st) r);
          reg1 = update_state watcher (drop_monitor r) reg
      in case target of None \<Rightarrow> reg1 | Some t \<Rightarrow> update_state t (drop_watcher watcher r) reg1)"

definition set_trap_exit :: "'n pid \<Rightarrow> bool \<Rightarrow> ('n, 'c) registry \<Rightarrow> ('n, 'c) registry" where
  "set_trap_exit p enabled reg = update_state p (\<lambda>st. st\<lparr>trap_exit := enabled\<rparr>) reg"

text \<open>The relationships that die with a node, and forgetting them.\<close>

definition relationships_with_node ::
  "'n \<Rightarrow> ('n, 'c) registry \<Rightarrow> ('n pid \<times> 'n pid) list \<times> ('n pid \<times> 'n pid \<times> u64) list" where
  "relationships_with_node n reg =
     (concat (map (\<lambda>(p, st). map (\<lambda>q. (p, q)) (filter (\<lambda>q. is_local_to q n) (links st)))
        (particle_states reg)),
      concat (map (\<lambda>(p, st). map (\<lambda>(r, t). (p, t, r)) (filter (\<lambda>(_, t). is_local_to t n) (monitors st)))
        (particle_states reg)))"

definition forget_node_state :: "'n \<Rightarrow> 'n particle_state \<Rightarrow> 'n particle_state" where
  "forget_node_state n st =
     st\<lparr>links := filter (\<lambda>p. \<not> is_local_to p n) (links st),
        monitors := hm_retain (\<lambda>_ t. \<not> is_local_to t n) (monitors st),
        monitored_by := filter (\<lambda>(w, _). \<not> is_local_to w n) (monitored_by st)\<rparr>"

definition forget_node :: "'n \<Rightarrow> ('n, 'c) registry \<Rightarrow> ('n, 'c) registry" where
  "forget_node n reg =
     reg\<lparr>particle_states := hm_map_values (forget_node_state n) (particle_states reg)\<rparr>"

section \<open>Names\<close>

definition register_name ::
  "'n pid \<Rightarrow> string \<Rightarrow> ('n, 'c) registry \<Rightarrow> ('n reg_error + unit) \<times> ('n, 'c) registry" where
  "register_name p n reg =
     (if hm_has (names reg) n then (Inl (NameTaken n), reg)
      else (Inr (), reg\<lparr>names := hm_insert n p (names reg)\<rparr>))"

definition unregister_name ::
  "'n pid \<Rightarrow> string \<Rightarrow> ('n, 'c) registry \<Rightarrow> ('n reg_error + unit) \<times> ('n, 'c) registry" where
  "unregister_name p n reg =
     (case hm_get (names reg) n of
        Some q \<Rightarrow> if q = p then (Inr (), reg\<lparr>names := hm_remove n (names reg)\<rparr>)
                  else (Inl (NotOwner n), reg)
      | None \<Rightarrow> (Inl (NotRegistered n), reg))"

definition lookup_name :: "('n, 'c) registry \<Rightarrow> string \<Rightarrow> 'n pid option" where
  "lookup_name reg n = hm_get (names reg) n"

end
