(* ===== verification/Exits.thy ===== *)
theory Exits
  imports Registry "HOL-Library.Multiset"
begin

text \<open>
  Exits (\<^verbatim>\<open>exit_particle\<close> and the two ways a signal is applied, \<^verbatim>\<open>src/registry.rs\<close>): one
  death, step by step as the code takes it, the cascade over links, and what the cascade as a
  whole does to the registry.

  The code recurses through \<^verbatim>\<open>Box::pin(self.exit_particle(..))\<close>. Each call removes a particle
  before it recurses, so a depth-first worklist over the victims terminates; the recursion
  equation of the code is the lemma \<open>exit_particle_rec\<close>.
\<close>

section \<open>One death\<close>

text \<open>
  Step 3: the loop over the links. It yields the mailboxes that get an exit message and the
  peers that die too.
\<close>

fun notify_links ::
  "'n pid \<Rightarrow> exit_reason \<Rightarrow> 'n pid list \<Rightarrow> ('n pid, 'n particle_state) hmap
     \<Rightarrow> ('n pid, 'n particle_state) hmap \<times> nat list \<times> 'n pid list" where
  "notify_links pid reason [] sts = (sts, [], [])"
| "notify_links pid reason (q # qs) sts =
     (case hm_get sts q of
        None \<Rightarrow> notify_links pid reason qs sts
      | Some peer \<Rightarrow>
          (let (sts', exits, kills) = notify_links pid reason qs (hm_modify q (drop_link pid) sts)
           in if trap_exit peer then (sts', mailbox_at peer # exits, kills)
              else if is_abnormal reason then (sts', exits, q # kills)
              else (sts', exits, kills)))"

text \<open>Step 4: the loop over the watchers.\<close>

fun notify_watchers ::
  "('n pid \<times> u64) list \<Rightarrow> ('n pid, 'n particle_state) hmap
     \<Rightarrow> ('n pid, 'n particle_state) hmap \<times> (nat \<times> u64) list" where
  "notify_watchers [] sts = (sts, [])"
| "notify_watchers ((w, r) # ws) sts =
     (case hm_get sts w of
        None \<Rightarrow> notify_watchers ws sts
      | Some watcher \<Rightarrow>
          (let (sts', downs) = notify_watchers ws (hm_modify w (drop_monitor r) sts)
           in (sts', (mailbox_at watcher, r) # downs)))"

definition push_exits ::
  "'n pid \<Rightarrow> exit_reason \<Rightarrow> nat list \<Rightarrow> (nat \<Rightarrow> 'n mailbox) \<Rightarrow> nat \<Rightarrow> 'n mailbox" where
  "push_exits pid reason as bs =
     foldl (\<lambda>bs a. bs(a := push_system (bs a) (SysExit pid reason))) bs as"

definition push_downs ::
  "'n pid \<Rightarrow> exit_reason \<Rightarrow> (nat \<times> u64) list \<Rightarrow> (nat \<Rightarrow> 'n mailbox) \<Rightarrow> nat \<Rightarrow> 'n mailbox" where
  "push_downs pid reason ds bs =
     foldl (\<lambda>bs (a, r). bs(a := push_system (bs a) (SysDown pid r reason))) bs ds"

text \<open>Everything \<^verbatim>\<open>exit_particle\<close> does up to the recursive calls, and who those are for.\<close>

definition die ::
  "'n pid \<Rightarrow> exit_reason \<Rightarrow> 'n particle_state \<Rightarrow> ('n, 'c) registry
     \<Rightarrow> ('n, 'c) registry \<times> 'n pid list" where
  "die pid reason st reg =
     (let states1 = hm_remove pid (particle_states reg);
          boxes1 = (boxes reg)(mailbox_at st := close_mailbox (boxes reg (mailbox_at st)));
          held = map fst (filter (\<lambda>(n, owner). owner = pid) (names reg));
          names1 = foldl (\<lambda>m n. hm_remove n m) (names reg) held;
          registered = (case held of [] \<Rightarrow> None | n # _ \<Rightarrow> Some n);
          death = \<lparr>dead_pid = pid, dead_name = registered, dead_reason = reason,
                   remote_links = filter (\<lambda>p. \<not> is_local_to p (me reg)) (links st),
                   remote_monitors = filter (\<lambda>(w, _). \<not> is_local_to w (me reg)) (monitored_by st)\<rparr>;
          (states2, exits, kills) = notify_links pid reason (links st) states1;
          (states3, downs) = notify_watchers (monitored_by st) states2
      in (reg\<lparr>particle_states := states3, particles := hm_remove pid (particles reg),
              names := names1, deaths := deaths reg @ [death],
              boxes := push_downs pid reason downs (push_exits pid reason exits boxes1)\<rparr>,
          kills))"

section \<open>What the loops compute\<close>

lemma get_drop_link [simp]:
  "trap_exit (drop_link p st) = trap_exit st" "mailbox_at (drop_link p st) = mailbox_at st"
  "monitored_by (drop_link p st) = monitored_by st" "monitors (drop_link p st) = monitors st"
  "set (links (drop_link p st)) = set (links st) - {p}"
  by (simp_all add: drop_link_def)

lemma get_drop_monitor [simp]:
  "trap_exit (drop_monitor r st) = trap_exit st" "mailbox_at (drop_monitor r st) = mailbox_at st"
  "monitored_by (drop_monitor r st) = monitored_by st" "links (drop_monitor r st) = links st"
  by (simp_all add: drop_monitor_def)

text \<open>
  What the loops leave alone: everything but the links to the dead particle and the monitors
  its watchers hold.
\<close>

definition view :: "'n pid \<Rightarrow> 'n particle_state \<Rightarrow> bool \<times> nat \<times> ('n pid \<times> u64) list \<times> 'n pid list" where
  "view p st = (trap_exit st, mailbox_at st, monitored_by st, hs_remove p (links st))"

definition agree :: "'n pid \<Rightarrow> ('n pid, 'n particle_state) hmap \<Rightarrow> ('n pid, 'n particle_state) hmap \<Rightarrow> bool" where
  "agree p sts sts' \<longleftrightarrow> hm_keys sts' = hm_keys sts \<and>
     (\<forall>q. map_option (view p) (hm_get sts' q) = map_option (view p) (hm_get sts q))"

lemma agree_refl [simp]: "agree p sts sts"
  by (simp add: agree_def)

lemma agree_trans [trans]: "agree p a b \<Longrightarrow> agree p b c \<Longrightarrow> agree p a c"
  by (simp add: agree_def)

lemma agree_modify: "(\<And>st. view p (f st) = view p st) \<Longrightarrow> agree p sts (hm_modify q f sts)"
  by (simp add: agree_def option.map_comp comp_def)

lemma agree_drop_link: "agree p sts (hm_modify q (drop_link p) sts)"
  by (rule agree_modify) (simp add: view_def drop_link_def hs_remove_def)

lemma agree_drop_monitor: "agree p sts (hm_modify q (drop_monitor r) sts)"
  by (rule agree_modify) (simp add: view_def)

lemma agree_get: "agree p sts sts' \<Longrightarrow> map_option (view p) (hm_get sts' q) = map_option (view p) (hm_get sts q)"
  by (simp add: agree_def)

lemma agree_None: "agree p sts sts' \<Longrightarrow> hm_get sts' q = None \<longleftrightarrow> hm_get sts q = None"
  by (metis agree_get map_option_is_None)

lemma agree_Some:
  assumes "agree p sts sts'" and "hm_get sts q = Some st"
  obtains st' where "hm_get sts' q = Some st'" and "trap_exit st' = trap_exit st"
    and "mailbox_at st' = mailbox_at st" and "monitored_by st' = monitored_by st"
    and "hs_remove p (links st') = hs_remove p (links st)"
    and "set (links st') - {p} = set (links st) - {p}"
proof -
  from agree_get[OF assms(1), of q] assms(2) obtain st' where st': "hm_get sts' q = Some st'"
    and v: "view p st' = view p st"
    by auto
  then have "hs_remove p (links st') = hs_remove p (links st)" by (simp add: view_def)
  from arg_cong[OF this, of set] have "set (links st') - {p} = set (links st) - {p}" by simp
  with st' v that show ?thesis by (simp add: view_def)
qed

text \<open>The mailboxes of the trapping peers, the peers that die, and the watchers' mailboxes.\<close>

definition exit_boxes :: "'n pid list \<Rightarrow> ('n pid, 'n particle_state) hmap \<Rightarrow> nat list" where
  "exit_boxes qs sts =
     concat (map (\<lambda>q. case hm_get sts q of Some st \<Rightarrow> if trap_exit st then [mailbox_at st] else []
                                       | None \<Rightarrow> []) qs)"

definition victims :: "exit_reason \<Rightarrow> 'n pid list \<Rightarrow> ('n pid, 'n particle_state) hmap \<Rightarrow> 'n pid list" where
  "victims reason qs sts =
     filter (\<lambda>q. is_abnormal reason
               \<and> (case hm_get sts q of Some st \<Rightarrow> \<not> trap_exit st | None \<Rightarrow> False)) qs"

definition down_boxes :: "('n pid \<times> u64) list \<Rightarrow> ('n pid, 'n particle_state) hmap \<Rightarrow> (nat \<times> u64) list" where
  "down_boxes ws sts =
     concat (map (\<lambda>(w, r). case hm_get sts w of Some st \<Rightarrow> [(mailbox_at st, r)] | None \<Rightarrow> []) ws)"

lemma agree_reads:
  assumes "agree p sts sts'"
  shows "exit_boxes qs sts' = exit_boxes qs sts" "victims reason qs sts' = victims reason qs sts"
    "down_boxes ws sts' = down_boxes ws sts"
proof -
  have get: "hm_get sts q = None \<and> hm_get sts' q = None \<or>
      (\<exists>st st'. hm_get sts q = Some st \<and> hm_get sts' q = Some st' \<and> trap_exit st' = trap_exit st
         \<and> mailbox_at st' = mailbox_at st)" for q
  proof (cases "hm_get sts q")
    case None
    then show ?thesis using agree_None[OF assms] by simp
  next
    case (Some st)
    with assms obtain st' where "hm_get sts' q = Some st'" "trap_exit st' = trap_exit st"
      "mailbox_at st' = mailbox_at st"
      by (rule agree_Some)
    with Some show ?thesis by blast
  qed
  show "exit_boxes qs sts' = exit_boxes qs sts"
    unfolding exit_boxes_def
  proof (intro arg_cong[of _ _ concat] map_cong refl)
    fix q show "(case hm_get sts' q of Some st \<Rightarrow> if trap_exit st then [mailbox_at st] else [] | None \<Rightarrow> [])
      = (case hm_get sts q of Some st \<Rightarrow> if trap_exit st then [mailbox_at st] else [] | None \<Rightarrow> [])"
      using get[of q] by auto
  qed
  show "victims reason qs sts' = victims reason qs sts"
    unfolding victims_def
  proof (intro filter_cong refl)
    fix q show "(is_abnormal reason \<and> (case hm_get sts' q of Some st \<Rightarrow> \<not> trap_exit st | None \<Rightarrow> False))
      = (is_abnormal reason \<and> (case hm_get sts q of Some st \<Rightarrow> \<not> trap_exit st | None \<Rightarrow> False))"
      using get[of q] by auto
  qed
  show "down_boxes ws sts' = down_boxes ws sts"
    unfolding down_boxes_def
  proof (intro arg_cong[of _ _ concat] map_cong refl)
    fix x show "(case x of (w, r) \<Rightarrow> case hm_get sts' w of Some st \<Rightarrow> [(mailbox_at st, r)] | None \<Rightarrow> [])
      = (case x of (w, r) \<Rightarrow> case hm_get sts w of Some st \<Rightarrow> [(mailbox_at st, r)] | None \<Rightarrow> [])"
      using get[of "fst x"] by (cases x) auto
  qed
qed

lemma notify_links_spec:
  "notify_links pid reason qs sts = (sts', exits, kills) \<Longrightarrow>
   agree pid sts sts' \<and> exits = exit_boxes qs sts \<and> kills = victims reason qs sts"
proof (induction qs arbitrary: sts sts' exits kills)
  case (Cons q qs)
  show ?case
  proof (cases "hm_get sts q")
    case None
    with Cons show ?thesis by (auto simp: exit_boxes_def victims_def)
  next
    case (Some peer)
    let ?sts1 = "hm_modify q (drop_link pid) sts"
    obtain sts2 es ks where rec: "notify_links pid reason qs ?sts1 = (sts2, es, ks)"
      by (metis prod_cases3)
    note agree_reads[OF agree_drop_link[of pid sts q]]
    with Cons.IH[OF rec] have "agree pid sts sts2 \<and> es = exit_boxes qs sts \<and> ks = victims reason qs sts"
      using agree_drop_link agree_trans by metis
    with Cons.prems Some rec show ?thesis
      by (auto simp: exit_boxes_def victims_def split: if_splits)
  qed
qed (simp add: exit_boxes_def victims_def)

lemma notify_watchers_spec:
  "notify_watchers ws sts = (sts', downs) \<Longrightarrow> agree p sts sts' \<and> downs = down_boxes ws sts"
proof (induction ws arbitrary: sts sts' downs)
  case (Cons x ws)
  obtain w r where x: "x = (w, r)" by fastforce
  show ?case
  proof (cases "hm_get sts w")
    case None
    with Cons x show ?thesis by (auto simp: down_boxes_def)
  next
    case (Some watcher)
    let ?sts1 = "hm_modify w (drop_monitor r) sts"
    obtain sts2 ds where rec: "notify_watchers ws ?sts1 = (sts2, ds)" by fastforce
    note agree_reads(3)[OF agree_drop_monitor[of p sts w r]]
    with Cons.IH[OF rec] have "agree p sts sts2 \<and> ds = down_boxes ws sts"
      using agree_drop_monitor agree_trans by metis
    with Cons.prems Some rec x show ?thesis by (auto simp: down_boxes_def)
  qed
qed (simp add: down_boxes_def)

lemma names_after:
  "foldl (\<lambda>m n. hm_remove n m) m (map fst (filter (\<lambda>(n, owner). owner = pid) xs))
     = filter (\<lambda>e. fst e \<notin> fst ` {e \<in> set xs. snd e = pid}) m"
proof (induction xs arbitrary: m)
  case (Cons x xs)
  then show ?case by (auto simp: hm_remove_filter intro!: filter_cong)
qed simp

text \<open>The record of a death, and the name it carries.\<close>

definition death_of ::
  "('n, 'c) registry \<Rightarrow> 'n pid \<Rightarrow> exit_reason \<Rightarrow> 'n particle_state \<Rightarrow> 'n particle_death" where
  "death_of reg p reason st =
     \<lparr>dead_pid = p,
      dead_name = map_option fst (find (\<lambda>(n, owner). owner = p) (names reg)),
      dead_reason = reason,
      remote_links = filter (\<lambda>q. \<not> is_local_to q (me reg)) (links st),
      remote_monitors = filter (\<lambda>(w, _). \<not> is_local_to w (me reg)) (monitored_by st)\<rparr>"

lemma hd_filter_find:
  "(case map fst (filter P xs) of [] \<Rightarrow> None | n # _ \<Rightarrow> Some n) = map_option fst (find P xs)"
  by (induction xs) auto

lemma die_spec:
  assumes "die p reason st reg = (reg', kills)"
  shows "agree p (hm_remove p (particle_states reg)) (particle_states reg')"
    and "kills = victims reason (links st) (hm_remove p (particle_states reg))"
    and "deaths reg' = deaths reg @ [death_of reg p reason st]"
    and "particles reg' = hm_remove p (particles reg)"
    and "hm_wf (names reg) \<Longrightarrow> names reg' = filter (\<lambda>(n, owner). owner \<noteq> p) (names reg)"
    and "pid_generator reg' = pid_generator reg" and "components reg' = components reg"
    and "next_ref reg' = next_ref reg" and "next_box reg' = next_box reg"
    and "boxes reg' = push_downs p reason (down_boxes (monitored_by st) (hm_remove p (particle_states reg)))
           (push_exits p reason (exit_boxes (links st) (hm_remove p (particle_states reg)))
             ((boxes reg)(mailbox_at st := close_mailbox (boxes reg (mailbox_at st)))))"
proof -
  let ?s1 = "hm_remove p (particle_states reg)"
  obtain s2 es ks where l: "notify_links p reason (links st) ?s1 = (s2, es, ks)"
    by (metis prod_cases3)
  obtain s3 ds where w: "notify_watchers (monitored_by st) s2 = (s3, ds)" by fastforce
  note L = notify_links_spec[OF l] and W = notify_watchers_spec[OF w, of p]
  have ds: "ds = down_boxes (monitored_by st) ?s1"
    using W agree_reads(3)[of p ?s1 s2] L by simp
  note out = assms[unfolded die_def Let_def l w prod.case, symmetric]
  show "agree p ?s1 (particle_states reg')" using out L W agree_trans by auto
  show "kills = victims reason (links st) ?s1" using out L by simp
  show "deaths reg' = deaths reg @ [death_of reg p reason st]"
    using out by (simp add: death_of_def hd_filter_find)
  show "hm_wf (names reg) \<Longrightarrow> names reg' = filter (\<lambda>(n, owner). owner \<noteq> p) (names reg)"
  proof -
    assume wf: "hm_wf (names reg)"
    have "names reg' = filter (\<lambda>e. fst e \<notin> fst ` {e \<in> set (names reg). snd e = p}) (names reg)"
      using out names_after by simp
    also have "\<dots> = filter (\<lambda>(n, owner). owner \<noteq> p) (names reg)"
      using wf by (intro filter_cong) (auto simp: hm_in_set_iff)
    finally show ?thesis .
  qed
  show "boxes reg' = push_downs p reason (down_boxes (monitored_by st) ?s1)
           (push_exits p reason (exit_boxes (links st) ?s1)
             ((boxes reg)(mailbox_at st := close_mailbox (boxes reg (mailbox_at st)))))"
    using out L ds by simp
qed (use assms in \<open>auto simp: die_def Let_def split: prod.splits\<close>)

section \<open>The cascade\<close>

lemma die_fewer:
  assumes "state_of reg p = Some st" and "die p reason st reg = (reg1, kills)"
  shows "length (particle_states reg1) < length (particle_states reg)"
proof -
  have "length (particle_states reg1) = length (hm_remove p (particle_states reg))"
    using die_spec(1)[OF assms(2)] by (metis agree_def hm_keys_def length_map)
  with hm_length_remove_less[of "particle_states reg" p] assms(1) show ?thesis
    by (simp add: hm_has_iff)
qed

function exit_work ::
  "'n pid list \<Rightarrow> exit_reason \<Rightarrow> ('n, 'c) registry \<Rightarrow> ('n, 'c) registry" where
  "exit_work [] reason reg = reg"
| "exit_work (p # ps) reason reg =
     (case state_of reg p of
        None \<Rightarrow> exit_work ps reason reg
      | Some st \<Rightarrow>
          (let (reg1, kills) = die p reason st reg in exit_work (kills @ ps) reason reg1))"
  by pat_completeness auto

termination
proof (relation "measures [\<lambda>(_, _, reg). length (particle_states reg), \<lambda>(ps, _, _). length ps]",
    goal_cases)
  case (3 p ps reason reg st x reg1 kills)
  then show ?case using die_fewer[of reg p st reason reg1 kills] by simp
qed simp_all

definition exit_particle :: "'n pid \<Rightarrow> exit_reason \<Rightarrow> ('n, 'c) registry \<Rightarrow> ('n, 'c) registry" where
  "exit_particle p reason reg = exit_work [p] reason reg"

lemma exit_work_append: "exit_work (ps @ qs) reason reg = exit_work qs reason (exit_work ps reason reg)"
proof (induction ps reason reg rule: exit_work.induct)
  case (2 p ps reason reg)
  show ?case
  proof (cases "state_of reg p")
    case None
    with 2 show ?thesis by simp
  next
    case (Some st)
    obtain reg1 kills where d: "die p reason st reg = (reg1, kills)" by fastforce
    from "2.IH"(2)[OF Some d[symmetric]] Some d show ?thesis by simp
  qed
qed simp

lemma exit_work_foldl: "exit_work ps reason reg = foldl (\<lambda>r p. exit_particle p reason r) reg ps"
proof (induction ps arbitrary: reg)
  case (Cons p ps)
  have "exit_work ([p] @ ps) reason reg = exit_work ps reason (exit_work [p] reason reg)"
    by (rule exit_work_append)
  with Cons show ?case by (simp add: exit_particle_def)
qed simp

text \<open>The recursion as the code writes it.\<close>

lemma exit_particle_rec:
  "exit_particle p reason reg =
     (case state_of reg p of
        None \<Rightarrow> reg
      | Some st \<Rightarrow>
          (let (reg1, kills) = die p reason st reg
           in foldl (\<lambda>r q. exit_particle q reason r) reg1 kills))"
  by (simp add: exit_particle_def[of p] exit_work_foldl[symmetric] split: option.splits prod.splits)

section \<open>Signals\<close>

definition apply_inherited_exit ::
  "'n pid \<Rightarrow> 'n pid \<Rightarrow> exit_reason \<Rightarrow> ('n, 'c) registry \<Rightarrow> ('n, 'c) registry" where
  "apply_inherited_exit to from reason reg =
     (case state_of reg to of
        None \<Rightarrow> reg
      | Some st \<Rightarrow>
          if trap_exit st then deliver_exit to from reason reg
          else if is_abnormal reason then exit_particle to reason reg
          else reg)"

definition apply_directed_exit ::
  "'n pid \<Rightarrow> 'n pid \<Rightarrow> exit_reason \<Rightarrow> ('n, 'c) registry \<Rightarrow> ('n, 'c) registry" where
  "apply_directed_exit to from reason reg =
     (if reason \<noteq> Kill then apply_inherited_exit to from reason reg
      else if \<not> hm_has (particle_states reg) to then reg
      else exit_particle to Killed reg)"

section \<open>Who dies\<close>

text \<open>
  The particles an exit reaches: the one it is for, and from each of those every linked
  particle that is alive and does not trap exits, unless the reason is normal.
\<close>

inductive_set reached :: "('n, 'c) registry \<Rightarrow> exit_reason \<Rightarrow> 'n pid list \<Rightarrow> 'n pid set"
  for reg :: "('n, 'c) registry" and reason :: exit_reason and ps :: "'n pid list" where
  seed: "p \<in> set ps \<Longrightarrow> particle_exists reg p \<Longrightarrow> p \<in> reached reg reason ps"
| linked: "p \<in> reached reg reason ps \<Longrightarrow> is_abnormal reason \<Longrightarrow>
     state_of reg p = Some st \<Longrightarrow> q \<in> set (links st) \<Longrightarrow>
     state_of reg q = Some st' \<Longrightarrow> \<not> trap_exit st' \<Longrightarrow> q \<in> reached reg reason ps"

lemma particle_exists_iff: "particle_exists reg p \<longleftrightarrow> (\<exists>st. state_of reg p = Some st)"
  by (auto simp: particle_exists_def hm_has_iff)

lemma reached_exists: "p \<in> reached reg reason ps \<Longrightarrow> particle_exists reg p"
  by (induction rule: reached.induct) (auto simp: particle_exists_iff)

lemma reached_Nil: "reached reg reason [] = {}"
proof -
  have "p \<in> reached reg reason [] \<Longrightarrow> False" for p
    by (induction rule: reached.induct) auto
  then show ?thesis by blast
qed

lemma reached_dead:
  assumes "state_of reg p = None"
  shows "reached reg reason (p # ps) = reached reg reason ps"
proof -
  have "x \<in> reached reg reason (p # ps) \<Longrightarrow> x \<in> reached reg reason ps" for x
    by (induction rule: reached.induct) (use assms in \<open>auto simp: particle_exists_iff intro: reached.intros\<close>)
  moreover have "x \<in> reached reg reason ps \<Longrightarrow> x \<in> reached reg reason (p # ps)" for x
    by (induction rule: reached.induct) (auto intro: reached.intros)
  ultimately show ?thesis by blast
qed

lemma reached_die:
  assumes p: "state_of reg p = Some st" and d: "die p reason st reg = (reg1, kills)"
  shows "reached reg reason (p # ps) = insert p (reached reg1 reason (kills @ ps))"
proof -
  note ag = die_spec(1)[OF d] and kills = die_spec(2)[OF d]
  have fwd: "state_of reg q = Some u \<Longrightarrow> q \<noteq> p \<Longrightarrow> \<exists>u'. state_of reg1 q = Some u'
      \<and> trap_exit u' = trap_exit u \<and> set (links u') - {p} = set (links u) - {p}" for q u
    by (rule agree_Some[OF ag, of q u]) auto
  have none: "state_of reg1 p = None" using agree_None[OF ag, of p] by simp
  have bwd: "state_of reg1 q = Some u' \<Longrightarrow> q \<noteq> p \<and> (\<exists>u. state_of reg q = Some u
      \<and> trap_exit u' = trap_exit u \<and> set (links u') - {p} = set (links u) - {p})" for q u'
  proof -
    assume u': "state_of reg1 q = Some u'"
    then have "q \<noteq> p" using none by auto
    moreover have "hm_get (hm_remove p (particle_states reg)) q \<noteq> None"
      using agree_None[OF ag, of q] u' by simp
    ultimately show ?thesis using fwd[of q] u' by auto
  qed
  have "x \<in> insert p (reached reg1 reason (kills @ ps))" if "x \<in> reached reg reason (p # ps)" for x
    using that
  proof (induction rule: reached.induct)
    case (seed q)
    then show ?case using fwd[of q] by (auto simp: particle_exists_iff intro!: reached.seed)
  next
    case (linked q u r v)
    show ?case
    proof (cases "r = p")
      case False
      from fwd[OF linked.hyps(5) False] obtain v' where v': "state_of reg1 r = Some v'" "\<not> trap_exit v'"
        using linked.hyps(6) by auto
      show ?thesis
      proof (cases "q = p")
        case True
        then have "r \<in> set kills"
          using linked.hyps False p kills by (auto simp: victims_def)
        with v' show ?thesis by (auto simp: particle_exists_iff intro!: reached.seed)
      next
        case q: False
        with linked.IH have "q \<in> reached reg1 reason (kills @ ps)" by simp
        moreover obtain u' where "state_of reg1 q = Some u'" "r \<in> set (links u')"
          using fwd[OF linked.hyps(3) q] linked.hyps(4) False by auto
        ultimately show ?thesis
          using v' linked.hyps(2) by (auto intro: reached.linked)
      qed
    qed simp
  qed
  moreover have "x \<in> reached reg reason (p # ps)" if "x \<in> reached reg1 reason (kills @ ps)" for x
    using that
  proof (induction rule: reached.induct)
    case (seed q)
    then obtain u' where "state_of reg1 q = Some u'" by (auto simp: particle_exists_iff)
    from bwd[OF this] obtain u where q: "state_of reg q = Some u" "q \<noteq> p" by blast
    have "p \<in> reached reg reason (p # ps)" using p by (auto simp: particle_exists_iff intro: reached.seed)
    with q seed kills p show ?case
      by (auto simp: victims_def particle_exists_iff intro: reached.intros)
  next
    case (linked q u r v)
    from bwd[OF linked.hyps(3)] bwd[OF linked.hyps(5)] linked show ?case
      by (blast intro: reached.linked)
  qed
  moreover have "p \<in> reached reg reason (p # ps)"
    using p by (auto simp: particle_exists_iff intro: reached.seed)
  ultimately show ?thesis by blast
qed

lemma exit_work_alive:
  "particle_exists (exit_work ps reason reg) q \<longleftrightarrow>
     particle_exists reg q \<and> q \<notin> reached reg reason ps"
proof (induction ps reason reg rule: exit_work.induct)
  case (1 reason reg)
  then show ?case by (simp add: reached_Nil)
next
  case (2 p ps reason reg)
  show ?case
  proof (cases "state_of reg p")
    case None
    with 2 reached_dead show ?thesis by fastforce
  next
    case (Some st)
    obtain reg1 kills where d: "die p reason st reg = (reg1, kills)" by fastforce
    have "particle_exists reg1 q \<longleftrightarrow> particle_exists reg q \<and> q \<noteq> p"
      using agree_None[OF die_spec(1)[OF d], of q]
      by (auto simp: particle_exists_def hm_has_iff split: if_splits)
    with "2.IH"(2)[OF Some d[symmetric]] Some d reached_die[OF Some d] show ?thesis by auto
  qed
qed

section \<open>What a cascade publishes and tells the survivors\<close>

text \<open>
  The registry's own invariant, as far as a cascade needs it: the particles it holds are
  local, no two share a mailbox, and a hash map holds a key once.
\<close>

definition reg_ok :: "('n, 'c) registry \<Rightarrow> bool" where
  "reg_ok reg \<longleftrightarrow>
     (\<forall>p st. state_of reg p = Some st \<longrightarrow> node p = me reg \<and> mailbox_at st < next_box reg) \<and>
     (\<forall>p q st st'. state_of reg p = Some st \<longrightarrow> state_of reg q = Some st' \<longrightarrow>
        mailbox_at st = mailbox_at st' \<longrightarrow> p = q) \<and>
     hm_wf (names reg)"

text \<open>What the death of \<open>p\<close> sends to the survivor \<open>w\<close>, in the order it is sent.\<close>

definition signals_for ::
  "'n pid \<Rightarrow> exit_reason \<Rightarrow> 'n particle_state \<Rightarrow> 'n pid \<Rightarrow> bool \<Rightarrow> 'n mailbox_message list" where
  "signals_for p reason st w traps =
     map (\<lambda>_. MExit p reason) (filter (\<lambda>q. q = w \<and> traps) (links st))
     @ map (\<lambda>(_, r). MDown p r reason) (filter (\<lambda>(v, _). v = w) (monitored_by st))"

lemma push_exits_queue:
  "queue (push_exits p reason as bs a) =
     replicate (length (filter (\<lambda>b. b = a) as)) (MExit p reason) @ queue (bs a)
   \<and> data_count (push_exits p reason as bs a) = data_count (bs a)
   \<and> closed (push_exits p reason as bs a) = closed (bs a)"
  unfolding push_exits_def
proof (induction as arbitrary: bs)
  case (Cons b as)
  let ?bs = "bs(b := push_system (bs b) (SysExit p reason))"
  have "queue (?bs a) = (if b = a then [MExit p reason] else []) @ queue (bs a)
      \<and> data_count (?bs a) = data_count (bs a) \<and> closed (?bs a) = closed (bs a)"
    by (simp add: push_system_def system_to_mailbox_def)
  with Cons[of ?bs] show ?case by (simp add: replicate_app_Cons_same)
qed simp

lemma push_downs_queue:
  "queue (push_downs p reason ds bs a) =
     rev (map (\<lambda>(_, r). MDown p r reason) (filter (\<lambda>(b, _). b = a) ds)) @ queue (bs a)
   \<and> data_count (push_downs p reason ds bs a) = data_count (bs a)
   \<and> closed (push_downs p reason ds bs a) = closed (bs a)"
  unfolding push_downs_def
proof (induction ds arbitrary: bs)
  case (Cons x ds)
  obtain b r where x: "x = (b, r)" by fastforce
  let ?bs = "bs(b := push_system (bs b) (SysDown p r reason))"
  have "queue (?bs a) = (if b = a then [MDown p r reason] else []) @ queue (bs a)
      \<and> data_count (?bs a) = data_count (bs a) \<and> closed (?bs a) = closed (bs a)"
    by (simp add: push_system_def system_to_mailbox_def)
  with Cons[of ?bs] x show ?case by simp
qed simp

lemma exit_boxes_at:
  assumes w: "hm_get sts w = Some st"
    and inj: "\<And>q u. hm_get sts q = Some u \<Longrightarrow> mailbox_at u = mailbox_at st \<Longrightarrow> q = w"
  shows "length (filter (\<lambda>b. b = mailbox_at st) (exit_boxes qs sts))
    = length (filter (\<lambda>q. q = w \<and> trap_exit st) qs)"
proof (induction qs)
  case (Cons q qs)
  have "length (filter (\<lambda>b. b = mailbox_at st)
        (case hm_get sts q of Some u \<Rightarrow> if trap_exit u then [mailbox_at u] else [] | None \<Rightarrow> []))
      = (if q = w \<and> trap_exit st then 1 else 0)"
  proof (cases "q = w")
    case False
    then show ?thesis using inj[of q] by (cases "hm_get sts q") auto
  qed (simp add: w)
  with Cons show ?case by (simp add: exit_boxes_def)
qed (simp add: exit_boxes_def)

lemma down_boxes_at:
  assumes w: "hm_get sts w = Some st"
    and inj: "\<And>q u. hm_get sts q = Some u \<Longrightarrow> mailbox_at u = mailbox_at st \<Longrightarrow> q = w"
  shows "map (\<lambda>(_, r). f r) (filter (\<lambda>(b, _). b = mailbox_at st) (down_boxes ws sts))
    = map (\<lambda>(_, r). f r) (filter (\<lambda>(v, _). v = w) ws)"
proof (induction ws)
  case (Cons x ws)
  obtain v r where x: "x = (v, r)" by fastforce
  have "map (\<lambda>(_, r). f r) (filter (\<lambda>(b, _). b = mailbox_at st)
        (case hm_get sts v of Some u \<Rightarrow> [(mailbox_at u, r)] | None \<Rightarrow> []))
      = (if v = w then [f r] else [])"
  proof (cases "v = w")
    case False
    then show ?thesis using inj[of v] by (cases "hm_get sts v") auto
  qed (simp add: w)
  with Cons x show ?case by (simp add: down_boxes_def)
qed (simp add: down_boxes_def)

lemma die_tells:
  assumes ok: "reg_ok reg" and p: "state_of reg p = Some st" and d: "die p reason st reg = (reg1, kills)"
    and w: "state_of reg w = Some u" "w \<noteq> p"
  shows "queue (boxes reg1 (mailbox_at u)) =
      rev (signals_for p reason st w (trap_exit u)) @ queue (boxes reg (mailbox_at u))
    \<and> data_count (boxes reg1 (mailbox_at u)) = data_count (boxes reg (mailbox_at u))
    \<and> closed (boxes reg1 (mailbox_at u)) = closed (boxes reg (mailbox_at u))"
proof -
  let ?s1 = "hm_remove p (particle_states reg)"
  have w1: "hm_get ?s1 w = Some u" using w by simp
  have inj: "hm_get ?s1 q = Some v \<Longrightarrow> mailbox_at v = mailbox_at u \<Longrightarrow> q = w" for q v
    using ok w(1) by (auto simp: reg_ok_def split: if_splits)
  have ne: "mailbox_at u \<noteq> mailbox_at st" using ok w p by (auto simp: reg_ok_def)
  have exits: "length (filter (\<lambda>b. b = mailbox_at u) (exit_boxes (links st) ?s1))
      = length (filter (\<lambda>q. q = w \<and> trap_exit u) (links st))"
    by (rule exit_boxes_at[OF w1]) (rule inj)
  have downs: "map (\<lambda>(_, r). MDown p r reason)
        (filter (\<lambda>(b, _). b = mailbox_at u) (down_boxes (monitored_by st) ?s1))
      = map (\<lambda>(_, r). MDown p r reason) (filter (\<lambda>(v, _). v = w) (monitored_by st))"
    by (rule down_boxes_at[OF w1]) (rule inj)
  show ?thesis
    unfolding die_spec(10)[OF d] signals_for_def
    using ne exits downs by (simp add: push_exits_queue push_downs_queue map_replicate_const)
qed

lemma die_ok:
  assumes ok: "reg_ok reg" and d: "die p reason st reg = (reg1, kills)"
  shows "reg_ok reg1"
proof -
  have earlier: "\<exists>u. state_of reg q = Some u \<and> mailbox_at u' = mailbox_at u" if "state_of reg1 q = Some u'" for q u'
  proof -
    have "hm_get (hm_remove p (particle_states reg)) q \<noteq> None"
      using agree_None[OF die_spec(1)[OF d], of q] that by simp
    then obtain u where u: "hm_get (hm_remove p (particle_states reg)) q = Some u" by blast
    with agree_Some[OF die_spec(1)[OF d] u] that show ?thesis by (auto split: if_splits)
  qed
  have "hm_wf (names reg1)"
    using ok die_spec(5)[OF d] by (auto simp: reg_ok_def hm_wf_def distinct_map_filter)
  moreover have "pid_generator reg1 = pid_generator reg" "next_box reg1 = next_box reg"
    using die_spec[OF d] by simp_all
  ultimately show ?thesis
    using ok unfolding reg_ok_def
  proof (intro conjI allI impI, goal_cases)
    case (1 q u')
    with earlier[OF 1(5)] show ?case by auto
  next
    case (2 q u')
    with earlier[OF 2(5)] show ?case by auto
  next
    case (3 q r u' v')
    from earlier[OF 3(5)] earlier[OF 3(6)] 3 show ?case by metis
  qed
qed

lemma die_keeps:
  assumes ok: "reg_ok reg" and p: "state_of reg p = Some st" and d: "die p reason st reg = (reg1, kills)"
    and q: "state_of reg q = Some u" "q \<noteq> p"
  obtains u' where "state_of reg1 q = Some u'" and "trap_exit u' = trap_exit u"
    and "mailbox_at u' = mailbox_at u" and "death_of reg1 q reason u' = death_of reg q reason u"
    and "\<And>w. w \<noteq> p \<Longrightarrow> signals_for q reason u' w t = signals_for q reason u w t"
proof -
  have "hm_get (hm_remove p (particle_states reg)) q = Some u" using q by simp
  with agree_Some[OF die_spec(1)[OF d]] obtain u' where u': "state_of reg1 q = Some u'"
    "trap_exit u' = trap_exit u" "mailbox_at u' = mailbox_at u" "monitored_by u' = monitored_by u"
    "hs_remove p (links u') = hs_remove p (links u)"
    by blast
  have keep: "filter P (links u') = filter P (links u)" if "\<not> P p" for P
  proof -
    have "filter P (hs_remove p xs) = filter P xs" for xs
      using that by (induction xs) (auto simp: hs_remove_def)
    then show ?thesis using u'(5) by metis
  qed
  have "node p = me reg" using ok p by (auto simp: reg_ok_def)
  then have "\<not> \<not> is_local_to p (me reg)" by (simp add: is_local_to_def)
  then have "filter (\<lambda>q. \<not> is_local_to q (me reg)) (links u') = filter (\<lambda>q. \<not> is_local_to q (me reg)) (links u)"
    by (rule keep)
  moreover have "find (\<lambda>(n, owner). owner = q) (filter (\<lambda>(n, owner). owner \<noteq> p) xs)
      = find (\<lambda>(n, owner). owner = q) xs" for xs :: "(string \<times> 'a pid) list"
    using q(2) by (induction xs) auto
  ultimately have "death_of reg1 q reason u' = death_of reg q reason u"
    using ok die_spec(5)[OF d] die_spec(6)[OF d] u'(4) by (simp add: death_of_def reg_ok_def)
  moreover have "signals_for q reason u' w t = signals_for q reason u w t" if "w \<noteq> p" for w
    using keep[of "\<lambda>q. q = w \<and> t"] that u'(4) by (simp add: signals_for_def)
  ultimately show ?thesis using that u' by blast
qed

text \<open>
  The story of a cascade: the order in which its victims die, and what that order determines.
\<close>

definition told ::
  "('n, 'c) registry \<Rightarrow> exit_reason \<Rightarrow> 'n pid list \<Rightarrow> 'n pid \<Rightarrow> 'n particle_state \<Rightarrow> 'n mailbox_message list" where
  "told reg reason vs w u =
     rev (concat (map (\<lambda>q. signals_for q reason (the (state_of reg q)) w (trap_exit u)) vs))"

definition cascade ::
  "('n, 'c) registry \<Rightarrow> exit_reason \<Rightarrow> 'n pid list \<Rightarrow> ('n, 'c) registry \<Rightarrow> bool" where
  "cascade reg reason vs reg' \<longleftrightarrow>
     reg_ok reg' \<and>
     deaths reg' = deaths reg @ map (\<lambda>q. death_of reg q reason (the (state_of reg q))) vs \<and>
     names reg' = filter (\<lambda>(n, owner). owner \<notin> set vs) (names reg) \<and>
     (\<forall>q. hm_get (particles reg') q = (if q \<in> set vs then None else hm_get (particles reg) q)) \<and>
     (\<forall>w u. state_of reg w = Some u \<longrightarrow> w \<notin> set vs \<longrightarrow>
        (\<exists>u'. state_of reg' w = Some u' \<and> trap_exit u' = trap_exit u \<and> mailbox_at u' = mailbox_at u) \<and>
        queue (boxes reg' (mailbox_at u)) = told reg reason vs w u @ queue (boxes reg (mailbox_at u)) \<and>
        data_count (boxes reg' (mailbox_at u)) = data_count (boxes reg (mailbox_at u)) \<and>
        closed (boxes reg' (mailbox_at u)) = closed (boxes reg (mailbox_at u)))"

lemma cascade_refl: "reg_ok reg \<Longrightarrow> cascade reg reason [] reg"
  by (auto simp: cascade_def told_def filter_True)

lemma cascade_die:
  assumes ok: "reg_ok reg" and p: "state_of reg p = Some st" and d: "die p reason st reg = (reg1, kills)"
    and alive: "\<forall>q \<in> set vs. particle_exists reg1 q" and rest: "cascade reg1 reason vs reg'"
  shows "cascade reg reason (p # vs) reg'"
proof -
  have none: "state_of reg1 p = None" using agree_None[OF die_spec(1)[OF d], of p] by simp
  have old: "q \<noteq> p \<and> (\<exists>u. state_of reg q = Some u)" if "q \<in> set vs" for q
  proof -
    have "hm_get (hm_remove p (particle_states reg)) q \<noteq> None"
      using alive that agree_None[OF die_spec(1)[OF d], of q] by (auto simp: particle_exists_iff)
    then show ?thesis by (auto split: if_splits)
  qed
  have keep: "death_of reg1 q reason (the (state_of reg1 q)) = death_of reg q reason (the (state_of reg q))
      \<and> (w \<noteq> p \<longrightarrow> signals_for q reason (the (state_of reg1 q)) w t = signals_for q reason (the (state_of reg q)) w t)"
    if "q \<in> set vs" for q w t
  proof -
    from old[OF that] obtain u where u: "state_of reg q = Some u" "q \<noteq> p" by blast
    from die_keeps[OF ok p d u, of t] obtain u' where "state_of reg1 q = Some u'"
      "death_of reg1 q reason u' = death_of reg q reason u"
      "\<And>w. w \<noteq> p \<Longrightarrow> signals_for q reason u' w t = signals_for q reason u w t"
      by blast
    with u show ?thesis by simp
  qed
  have deaths: "deaths reg' = deaths reg @ map (\<lambda>q. death_of reg q reason (the (state_of reg q))) (p # vs)"
    using rest die_spec(3)[OF d] p keep by (simp add: cascade_def)
  have names: "names reg' = filter (\<lambda>(n, owner). owner \<notin> set (p # vs)) (names reg)"
  proof -
    have "names reg' = filter (\<lambda>(n, owner). owner \<notin> set vs) (filter (\<lambda>(n, owner). owner \<noteq> p) (names reg))"
      using rest die_spec(5)[OF d] ok by (simp add: cascade_def reg_ok_def)
    then show ?thesis by (simp add: case_prod_beta' conj_commute)
  qed
  have ptcls: "hm_get (particles reg') q = (if q \<in> set (p # vs) then None else hm_get (particles reg) q)" for q
    using rest die_spec(4)[OF d] by (simp add: cascade_def)
  have survivors: "(\<exists>u'. state_of reg' w = Some u' \<and> trap_exit u' = trap_exit u \<and> mailbox_at u' = mailbox_at u) \<and>
        queue (boxes reg' (mailbox_at u)) = told reg reason (p # vs) w u @ queue (boxes reg (mailbox_at u)) \<and>
        data_count (boxes reg' (mailbox_at u)) = data_count (boxes reg (mailbox_at u)) \<and>
        closed (boxes reg' (mailbox_at u)) = closed (boxes reg (mailbox_at u))"
    if w: "state_of reg w = Some u" "w \<notin> set (p # vs)" for w u
  proof -
    have "w \<noteq> p" using w by simp
    from die_keeps[OF ok p d w(1) this] obtain u1 where u1: "state_of reg1 w = Some u1"
      "trap_exit u1 = trap_exit u" "mailbox_at u1 = mailbox_at u"
      by metis
    have "told reg1 reason vs w u1 = told reg reason vs w u"
      unfolding told_def u1(2) using keep \<open>w \<noteq> p\<close> by (simp cong: map_cong)
    moreover have "told reg reason (p # vs) w u = told reg reason vs w u @ rev (signals_for p reason st w (trap_exit u))"
      using p by (simp add: told_def)
    moreover note die_tells[OF ok p d w(1) \<open>w \<noteq> p\<close>]
    moreover have "(\<exists>u'. state_of reg' w = Some u' \<and> trap_exit u' = trap_exit u1 \<and> mailbox_at u' = mailbox_at u1) \<and>
        queue (boxes reg' (mailbox_at u1)) = told reg1 reason vs w u1 @ queue (boxes reg1 (mailbox_at u1)) \<and>
        data_count (boxes reg' (mailbox_at u1)) = data_count (boxes reg1 (mailbox_at u1)) \<and>
        closed (boxes reg' (mailbox_at u1)) = closed (boxes reg1 (mailbox_at u1))"
      using rest u1(1) w(2) unfolding cascade_def by auto
    ultimately show ?thesis using u1 by simp
  qed
  have "reg_ok reg'" using rest by (simp add: cascade_def)
  with deaths names ptcls survivors show ?thesis unfolding cascade_def by blast
qed

lemma exit_work_cascade:
  "reg_ok reg \<Longrightarrow>
   \<exists>vs. distinct vs \<and> set vs = reached reg reason ps \<and> cascade reg reason vs (exit_work ps reason reg)"
proof (induction ps reason reg rule: exit_work.induct)
  case (1 reason reg)
  then show ?case by (intro exI[of _ "[]"]) (simp add: reached_Nil cascade_refl)
next
  case (2 p ps reason reg)
  show ?case
  proof (cases "state_of reg p")
    case None
    with 2 reached_dead[OF None] show ?thesis by simp
  next
    case (Some st)
    obtain reg1 kills where d: "die p reason st reg = (reg1, kills)" by fastforce
    from "2.IH"(2)[OF Some d[symmetric] refl die_ok[OF "2.prems" d]]
    obtain vs where vs: "distinct vs" "set vs = reached reg1 reason (kills @ ps)"
      "cascade reg1 reason vs (exit_work (kills @ ps) reason reg1)"
      by blast
    have alive: "\<forall>q \<in> set vs. particle_exists reg1 q" using vs(2) reached_exists by blast
    have "state_of reg1 p = None" using agree_None[OF die_spec(1)[OF d], of p] by simp
    then have "p \<notin> set vs" using alive by (auto simp: particle_exists_iff)
    then show ?thesis
      using vs Some d reached_die[OF Some d] cascade_die[OF "2.prems" Some d alive vs(3)]
      by (intro exI[of _ "p # vs"]) simp
  qed
qed

lemma exit_particle_cascade:
  assumes "reg_ok reg"
  obtains vs where "distinct vs" and "set vs = reached reg reason [p]"
    and "cascade reg reason vs (exit_particle p reason reg)"
  using exit_work_cascade[OF assms, of reason "[p]"] unfolding exit_particle_def by blast

lemma exit_particle_alive:
  "particle_exists (exit_particle p reason reg) q \<longleftrightarrow>
     particle_exists reg q \<and> q \<notin> reached reg reason [p]"
  unfolding exit_particle_def by (rule exit_work_alive)

end
