(* ===== verification/Registry_Laws.thy ===== *)
theory Registry_Laws
  imports Exits
begin

text \<open>
  The laws of the registry: the invariant that every operation keeps, and the properties of
  exits, signals and spawning that rest on it.
\<close>

section \<open>The invariant\<close>

text \<open>
  Besides \<open>reg_ok\<close>: pids come from the generator and are all behind its counter, a link
  between local particles is known to both ends, nobody holds a link twice, and every
  particle entry has a state.
\<close>

definition links_of :: "('n, 'c) registry \<Rightarrow> 'n pid \<Rightarrow> 'n pid list option" where
  "links_of reg p = map_option links (state_of reg p)"

definition links_ok :: "('n, 'c) registry \<Rightarrow> bool" where
  "links_ok reg \<longleftrightarrow>
     (\<forall>p ls q. links_of reg p = Some ls \<longrightarrow> q \<in> set ls \<longrightarrow> node q = me reg \<longrightarrow>
        (\<exists>ls'. links_of reg q = Some ls' \<and> p \<in> set ls')) \<and>
     (\<forall>p ls. links_of reg p = Some ls \<longrightarrow> distinct ls)"

definition reg_inv :: "('n, 'c) registry \<Rightarrow> bool" where
  "reg_inv reg \<longleftrightarrow>
     reg_ok reg \<and> links_ok reg \<and> hm_wf (particle_states reg) \<and>
     (\<forall>p. particle_exists reg p \<longrightarrow> unat (seq p) < unat (next_seq (pid_generator reg))) \<and>
     (\<forall>p. hm_has (particles reg) p \<longrightarrow> particle_exists reg p)"

lemma reg_inv_ok: "reg_inv reg \<Longrightarrow> reg_ok reg"
  by (simp add: reg_inv_def)

lemma reg_inv_new: "reg_inv (registry_new g)"
  by (simp add: reg_inv_def reg_ok_def links_ok_def links_of_def registry_new_def particle_exists_def)

text \<open>What an operation has to show that adds no particle.\<close>

lemma reg_inv_intro:
  assumes inv: "reg_inv reg"
    and old: "\<And>q st'. state_of reg' q = Some st' \<Longrightarrow> \<exists>st. state_of reg q = Some st \<and> mailbox_at st' = mailbox_at st"
    and gen: "pid_generator reg' = pid_generator reg" and box: "next_box reg' = next_box reg"
    and wf: "hm_wf (names reg')" "hm_wf (particle_states reg')"
    and entries: "\<And>q. hm_has (particles reg') q \<Longrightarrow> particle_exists reg' q"
    and lk: "links_ok reg'"
  shows "reg_inv reg'"
proof -
  have "particle_exists reg q" if "particle_exists reg' q" for q
    using that old by (auto simp: particle_exists_iff)
  moreover have "reg_ok reg'"
    unfolding reg_ok_def
  proof (intro conjI allI impI)
    fix p q st st'
    assume 1: "state_of reg' p = Some st" and 2: "state_of reg' q = Some st'"
      and "mailbox_at st = mailbox_at st'"
    with old[OF 1] old[OF 2] show "p = q"
      using inv unfolding reg_inv_def reg_ok_def by metis
  next
    fix p st
    assume "state_of reg' p = Some st"
    from old[OF this] show "node p = me reg'" "mailbox_at st < next_box reg'"
      using inv unfolding reg_inv_def reg_ok_def gen box by metis+
  qed (rule wf)
  ultimately show ?thesis
    using inv wf lk entries gen unfolding reg_inv_def by simp
qed

lemma reg_inv_frame:
  assumes "reg_inv reg"
    and "particle_states reg' = particle_states reg" and "pid_generator reg' = pid_generator reg"
    and "next_box reg' = next_box reg" and "particles reg' = particles reg" and "hm_wf (names reg')"
  shows "reg_inv reg'"
  using assms by (intro reg_inv_intro[OF assms(1)]) (auto simp: reg_inv_def links_ok_def links_of_def particle_exists_def)

lemma state_of_update:
  "state_of (update_state p f reg) q = (if q = p then map_option f (state_of reg q) else state_of reg q)"
  by (simp add: update_state_def)

lemma update_state_fields [simp]:
  "pid_generator (update_state p f reg) = pid_generator reg"
  "next_box (update_state p f reg) = next_box reg" "particles (update_state p f reg) = particles reg"
  "names (update_state p f reg) = names reg" "next_ref (update_state p f reg) = next_ref reg"
  "particle_exists (update_state p f reg) q = particle_exists reg q"
  "hm_wf (particle_states (update_state p f reg)) = hm_wf (particle_states reg)"
  by (simp_all add: update_state_def particle_exists_def)

lemma reg_inv_update_state:
  assumes inv: "reg_inv reg" and mb: "\<And>st. mailbox_at (f st) = mailbox_at st"
    and lk: "links_ok (update_state p f reg)"
  shows "reg_inv (update_state p f reg)"
  using inv lk
  by (intro reg_inv_intro[OF inv]) (auto simp: state_of_update mb reg_inv_def reg_ok_def split: if_splits)

lemma links_ok_same:
  assumes "links_ok reg" and "\<And>st. links (f st) = links st"
  shows "links_ok (update_state p f reg)"
proof -
  have "links_of (update_state p f reg) = links_of reg"
    by (rule ext) (simp add: links_of_def state_of_update assms(2) option.map_comp comp_def)
  then show ?thesis using assms(1) by (simp add: links_ok_def)
qed

lemma reg_inv_same_links:
  assumes "reg_inv reg" and "\<And>st. mailbox_at (f st) = mailbox_at st" and "\<And>st. links (f st) = links st"
  shows "reg_inv (update_state p f reg)"
  using assms by (intro reg_inv_update_state links_ok_same) (auto simp: reg_inv_def)

lemma reg_inv_update_box: "reg_inv reg \<Longrightarrow> reg_inv (update_box a f reg)"
  by (rule reg_inv_frame) (auto simp: update_box_def reg_inv_def reg_ok_def)

section \<open>Operations on links\<close>

lemma links_of_update:
  "links_of (update_state p f reg) q =
     (if q = p then map_option (\<lambda>st. links (f st)) (state_of reg q) else links_of reg q)"
  by (simp add: links_of_def state_of_update option.map_comp comp_def)

lemma links_of_add: "links_of (update_state p (add_link r) reg) q =
    (if q = p then map_option (hs_insert r) (links_of reg q) else links_of reg q)"
  by (simp add: links_of_def state_of_update option.map_comp comp_def add_link_def)

lemma links_of_drop: "links_of (update_state p (drop_link r) reg) q =
    (if q = p then map_option (hs_remove r) (links_of reg q) else links_of reg q)"
  by (simp add: links_of_def state_of_update option.map_comp comp_def drop_link_def)

lemma exists_links_of: "particle_exists reg p \<longleftrightarrow> links_of reg p \<noteq> None"
  by (simp add: links_of_def particle_exists_def hm_has_iff)

lemma reg_ok_local: "reg_ok reg \<Longrightarrow> particle_exists reg p \<Longrightarrow> node p = me reg"
  by (auto simp: reg_ok_def particle_exists_iff)

lemma links_okD:
  "links_ok reg \<Longrightarrow> links_of reg p = Some ls \<Longrightarrow> q \<in> set ls \<Longrightarrow> node q = me reg \<Longrightarrow>
   \<exists>ls'. links_of reg q = Some ls' \<and> p \<in> set ls'"
  by (simp add: links_ok_def)

lemma links_okI:
  assumes "\<And>p ls q. links_of reg p = Some ls \<Longrightarrow> q \<in> set ls \<Longrightarrow> node q = me reg \<Longrightarrow>
      \<exists>ls'. links_of reg q = Some ls' \<and> p \<in> set ls'"
    and "\<And>p ls. links_of reg p = Some ls \<Longrightarrow> distinct ls"
  shows "links_ok reg"
  using assms unfolding links_ok_def by blast

lemma reg_inv_link:
  assumes inv: "reg_inv reg" and run: "link a b reg = (res, reg')"
  shows "reg_inv reg'"
proof (cases "particle_exists reg a \<and> particle_exists reg b")
  case True
  then have reg': "reg' = update_state b (add_link a) (update_state a (add_link b) reg)"
    using run by (auto simp: link_def particle_exists_def split: if_splits)
  obtain la lb where l: "links_of reg a = Some la" "links_of reg b = Some lb"
    using True by (auto simp: exists_links_of)
  have lk: "links_ok reg" using inv by (simp add: reg_inv_def)
  have get: "links_of reg' q = (if q = b then map_option (hs_insert a) else id)
      ((if q = a then map_option (hs_insert b) else id) (links_of reg q))" for q
    by (simp add: reg' links_of_add)
  have "links_ok reg'"
  proof (rule links_okI)
    fix p ls q
    assume p: "links_of reg' p = Some ls" and q: "q \<in> set ls" "node q = me reg'"
    from p obtain l0 where l0: "links_of reg p = Some l0" by (auto simp: get split: if_splits)
    from p l0 have ls: "set ls = set l0 \<union> (if p = a then {b} else {}) \<union> (if p = b then {a} else {})"
      by (auto simp: get split: if_splits)
    show "\<exists>ls'. links_of reg' q = Some ls' \<and> p \<in> set ls'"
    proof (cases "q \<in> set l0")
      case True
      with links_okD[OF lk l0] q(2) reg' obtain l1 where "links_of reg q = Some l1" "p \<in> set l1" by auto
      then show ?thesis by (auto simp: get)
    next
      case False
      with q(1) ls have "(p = a \<and> q = b) \<or> (p = b \<and> q = a)" by (auto split: if_splits)
      then show ?thesis using l by (auto simp: get)
    qed
  next
    fix p ls
    assume "links_of reg' p = Some ls"
    then show "distinct ls" using lk by (auto simp: get links_ok_def split: if_splits)
  qed
  moreover have "reg_inv reg' \<longleftrightarrow> reg_inv reg'" by simp
  ultimately show ?thesis
    unfolding reg' using inv
    by (intro reg_inv_intro[OF inv])
      (auto simp: state_of_update add_link_def reg_inv_def reg_ok_def split: if_splits)
next
  case False
  then show ?thesis using inv run by (auto simp: link_def particle_exists_def split: if_splits)
qed

lemma reg_inv_unlink: "reg_inv reg \<Longrightarrow> reg_inv (unlink a b reg)"
proof -
  assume inv: "reg_inv reg"
  then have lk: "links_ok reg" by (simp add: reg_inv_def)
  have get: "links_of (unlink a b reg) q = (if q = b then map_option (hs_remove a) else id)
      ((if q = a then map_option (hs_remove b) else id) (links_of reg q))" for q
    by (simp add: unlink_def links_of_drop)
  have "links_ok (unlink a b reg)"
  proof (rule links_okI)
    fix p ls q
    assume p: "links_of (unlink a b reg) p = Some ls" and q: "q \<in> set ls" "node q = me (unlink a b reg)"
    from p q(1) obtain l0 where l0: "links_of reg p = Some l0" "q \<in> set l0"
      and ne: "\<not> (p = a \<and> q = b)" "\<not> (p = b \<and> q = a)"
      by (auto simp: get split: if_splits)
    from links_okD[OF lk l0] q(2) obtain l1 where "links_of reg q = Some l1" "p \<in> set l1"
      by (auto simp: unlink_def)
    with ne show "\<exists>ls'. links_of (unlink a b reg) q = Some ls' \<and> p \<in> set ls'" by (auto simp: get)
  next
    fix p ls
    assume "links_of (unlink a b reg) p = Some ls"
    then show "distinct ls" using lk by (auto simp: get links_ok_def split: if_splits)
  qed
  then show ?thesis
    using inv unfolding unlink_def
    by (intro reg_inv_intro[OF inv])
      (auto simp: state_of_update drop_link_def reg_inv_def reg_ok_def split: if_splits)
qed

lemma reg_inv_link_remote:
  assumes inv: "reg_inv reg" and far: "node r \<noteq> me reg"
  shows "reg_inv (link_remote p r reg)" "reg_inv (unlink_remote p r reg)"
proof -
  have lk: "links_ok reg" using inv by (simp add: reg_inv_def)
  have "links_ok (update_state p f reg)"
    if f: "\<And>st. links (f st) = g (links st)"
      and g: "\<And>ls q. q \<noteq> r \<Longrightarrow> q \<in> set (g ls) \<longleftrightarrow> q \<in> set ls" "\<And>ls. distinct ls \<Longrightarrow> distinct (g ls)" for f g
  proof -
    let ?reg' = "update_state p f reg"
    have get: "links_of ?reg' q = (if q = p then map_option g (links_of reg q) else links_of reg q)" for q
      by (simp add: links_of_def state_of_update option.map_comp comp_def f)
    show ?thesis
    proof (rule links_okI)
      fix q ls s
      assume "links_of ?reg' q = Some ls" and s: "s \<in> set ls" "node s = me ?reg'"
      then obtain l0 where l0: "links_of reg q = Some l0" and "ls = (if q = p then g l0 else l0)"
        by (auto simp: get split: if_splits)
      moreover have "s \<noteq> r" using s(2) far by auto
      ultimately have "s \<in> set l0" using s(1) g(1) by (auto split: if_splits)
      from links_okD[OF lk l0 this] s(2) obtain l1 where l1: "links_of reg s = Some l1" "q \<in> set l1"
        by auto
      have "q \<noteq> r"
        using far l0 reg_ok_local[OF reg_inv_ok[OF inv], of q] by (auto simp: exists_links_of)
      with l1 g(1) show "\<exists>ls'. links_of ?reg' s = Some ls' \<and> q \<in> set ls'" by (auto simp: get)
    next
      fix q ls
      assume "links_of ?reg' q = Some ls"
      then show "distinct ls" using lk g(2) by (auto simp: get links_ok_def split: if_splits)
    qed
  qed
  note keep = this
  have "links_ok (update_state p (add_link r) reg)"
    by (rule keep[where g = "hs_insert r"]) (auto simp: add_link_def)
  then show "reg_inv (link_remote p r reg)"
    unfolding link_remote_def by (intro reg_inv_update_state[OF inv]) (simp add: add_link_def)
  have "links_ok (update_state p (drop_link r) reg)"
    by (rule keep[where g = "hs_remove r"]) (auto simp: drop_link_def)
  then show "reg_inv (unlink_remote p r reg)"
    unfolding unlink_remote_def by (intro reg_inv_update_state[OF inv]) (simp add: drop_link_def)
qed

lemma reg_inv_forget_node: "reg_inv reg \<Longrightarrow> reg_inv (forget_node n reg)"
proof -
  assume inv: "reg_inv reg"
  then have lk: "links_ok reg" by (simp add: reg_inv_def)
  have get: "links_of (forget_node n reg) q =
      map_option (filter (\<lambda>p. \<not> is_local_to p n)) (links_of reg q)" for q
    by (simp add: links_of_def forget_node_def forget_node_state_def option.map_comp comp_def)
  have "links_ok (forget_node n reg)"
  proof (rule links_okI)
    fix p ls q
    assume p: "links_of (forget_node n reg) p = Some ls" and q: "q \<in> set ls" "node q = me (forget_node n reg)"
    have gen: "me (forget_node n reg) = me reg" by (simp add: forget_node_def)
    from p q(1) obtain l0 where l0: "links_of reg p = Some l0" "q \<in> set l0" and "node q \<noteq> n"
      by (auto simp: get is_local_to_def)
    moreover from links_okD[OF lk l0] q(2) gen obtain l1 where "links_of reg q = Some l1" "p \<in> set l1"
      by auto
    moreover have "node p = me reg"
      using reg_ok_local[OF reg_inv_ok[OF inv], of p] l0(1) by (simp add: exists_links_of)
    ultimately show "\<exists>ls'. links_of (forget_node n reg) q = Some ls' \<and> p \<in> set ls'"
      using q(2) gen by (auto simp: get is_local_to_def)
  next
    fix p ls
    assume "links_of (forget_node n reg) p = Some ls"
    then show "distinct ls" using lk by (auto simp: get links_ok_def)
  qed
  then show ?thesis
    using inv
    by (intro reg_inv_intro[OF inv])
      (auto simp: forget_node_def forget_node_state_def reg_inv_def reg_ok_def particle_exists_def)
qed

section \<open>Exits\<close>

lemma notify_links_links:
  "notify_links p reason qs sts = (sts', es, ks) \<Longrightarrow>
   map_option links (hm_get sts' q) =
     map_option (\<lambda>st. if q \<in> set qs then hs_remove p (links st) else links st) (hm_get sts q)"
proof (induction qs arbitrary: sts sts' es ks)
  case (Cons r qs)
  show ?case
  proof (cases "hm_get sts r")
    case None
    with Cons show ?thesis by (cases "q = r") auto
  next
    case (Some peer)
    obtain sts2 e k where rec: "notify_links p reason qs (hm_modify r (drop_link p) sts) = (sts2, e, k)"
      by (metis prod_cases3)
    have "hs_remove p (hs_remove p xs) = hs_remove p xs" for xs :: "'a pid list"
      by (simp add: hs_remove_def)
    with Cons.IH[OF rec] Cons.prems Some rec show ?thesis
      by (cases "hm_get sts q") (auto simp: drop_link_def split: if_splits)
  qed
qed (simp add: option.map_ident)

lemma notify_watchers_links:
  "notify_watchers ws sts = (sts', ds) \<Longrightarrow> map_option links (hm_get sts' q) = map_option links (hm_get sts q)"
proof (induction ws arbitrary: sts sts' ds)
  case (Cons x ws)
  obtain w r where x: "x = (w, r)" by fastforce
  show ?case
  proof (cases "hm_get sts w")
    case (Some watcher)
    obtain sts2 d where rec: "notify_watchers ws (hm_modify w (drop_monitor r) sts) = (sts2, d)"
      by fastforce
    with Cons.IH[OF rec] Cons.prems Some x show ?thesis
      by (cases "hm_get sts q") (auto split: if_splits)
  qed (use Cons x in simp)
qed simp

lemma die_links_of:
  assumes "die p reason st reg = (reg1, kills)"
  shows "links_of reg1 q = (if q = p then None
    else map_option (\<lambda>ls. if q \<in> set (links st) then hs_remove p ls else ls) (links_of reg q))"
proof -
  let ?s1 = "hm_remove p (particle_states reg)"
  obtain s2 es ks where l: "notify_links p reason (links st) ?s1 = (s2, es, ks)"
    by (metis prod_cases3)
  obtain s3 ds where w: "notify_watchers (monitored_by st) s2 = (s3, ds)" by fastforce
  have "particle_states reg1 = s3" using assms l w by (auto simp: die_def Let_def)
  then show ?thesis
    using notify_watchers_links[OF w, of q] notify_links_links[OF l, of q]
    by (simp add: links_of_def option.map_comp comp_def if_distrib cong: if_cong)
qed

lemma reg_inv_die:
  assumes inv: "reg_inv reg" and p: "state_of reg p = Some st" and d: "die p reason st reg = (reg1, kills)"
  shows "reg_inv reg1"
proof -
  have lk: "links_ok reg" using inv by (simp add: reg_inv_def)
  have lp: "links_of reg p = Some (links st)" using p by (simp add: links_of_def)
  have gen: "pid_generator reg1 = pid_generator reg" using die_spec(6)[OF d] .
  have "node p = me reg" using reg_ok_local[OF reg_inv_ok[OF inv]] p by (auto simp: particle_exists_iff)
  have "links_ok reg1"
  proof (rule links_okI)
    fix q ls r
    assume q: "links_of reg1 q = Some ls" and r: "r \<in> set ls" "node r = me reg1"
    then have "q \<noteq> p" by (auto simp: die_links_of[OF d])
    with q obtain l0 where l0: "links_of reg q = Some l0" "q \<noteq> p"
      and ls: "ls = (if q \<in> set (links st) then hs_remove p l0 else l0)"
      by (cases "links_of reg q") (simp_all add: die_links_of[OF d])
    have "r \<noteq> p"
    proof
      assume "r = p"
      with r ls have "p \<in> set l0" "q \<notin> set (links st)" by (auto split: if_splits)
      with links_okD[OF lk l0(1)] \<open>node p = me reg\<close> lp show False by fastforce
    qed
    moreover have "r \<in> set l0" using r(1) ls by (auto split: if_splits)
    from links_okD[OF lk l0(1) this] r(2) gen obtain l1 where "links_of reg r = Some l1" "q \<in> set l1"
      by auto
    ultimately show "\<exists>ls'. links_of reg1 r = Some ls' \<and> q \<in> set ls'"
      using l0(2) by (auto simp: die_links_of[OF d])
  next
    fix q ls
    assume "links_of reg1 q = Some ls"
    then show "distinct ls" using lk by (auto simp: die_links_of[OF d] links_ok_def split: if_splits)
  qed
  moreover have "reg_ok reg1" by (rule die_ok[OF reg_inv_ok[OF inv] d])
  moreover have "hm_keys (particle_states reg1) = hm_keys (hm_remove p (particle_states reg))"
    using die_spec(1)[OF d] by (simp add: agree_def)
  then have ex: "particle_exists reg1 q \<longleftrightarrow> q \<noteq> p \<and> particle_exists reg q" for q
    by (simp add: particle_exists_def hm_has_iff_keys[of "particle_states reg1"] flip: hm_has_iff_keys)
  moreover have "hm_wf (particle_states reg1)"
    using \<open>hm_keys _ = _\<close> hm_wf_remove[of "particle_states reg" p] inv
    by (simp add: reg_inv_def hm_wf_def hm_keys_def)
  ultimately show ?thesis
    using inv gen die_spec(4)[OF d] unfolding reg_inv_def by auto
qed

lemma reg_inv_exit_work: "reg_inv reg \<Longrightarrow> reg_inv (exit_work ps reason reg)"
proof (induction ps reason reg rule: exit_work.induct)
  case (2 p ps reason reg)
  show ?case
  proof (cases "state_of reg p")
    case (Some st)
    obtain reg1 kills where d: "die p reason st reg = (reg1, kills)" by fastforce
    with "2.IH"(2)[OF Some d[symmetric] refl] reg_inv_die[OF "2.prems" Some d] Some show ?thesis by simp
  qed (use 2 in simp)
qed simp

lemma reg_inv_exit: "reg_inv reg \<Longrightarrow> reg_inv (exit_particle p reason reg)"
  by (simp only: exit_particle_def reg_inv_exit_work)

lemma reg_inv_send_system: "reg_inv reg \<Longrightarrow> reg_inv (snd (send_system p msg reg))"
  by (auto simp: send_system_def reg_inv_update_box split: option.splits)

lemma reg_inv_inherited: "reg_inv reg \<Longrightarrow> reg_inv (apply_inherited_exit to from reason reg)"
  by (auto simp: apply_inherited_exit_def deliver_exit_def reg_inv_send_system reg_inv_exit
      split: option.splits)

lemma reg_inv_directed: "reg_inv reg \<Longrightarrow> reg_inv (apply_directed_exit to from reason reg)"
  by (auto simp: apply_directed_exit_def reg_inv_inherited reg_inv_exit)

section \<open>Spawning\<close>

definition spawned ::
  "('n, 'c) particle_entry \<Rightarrow> ('n, 'c) registry \<Rightarrow> ('n, 'c) registry" where
  "spawned entry reg =
     (let (pid, gen) = next_pid (pid_generator reg); a = next_box reg
      in reg\<lparr>pid_generator := gen, boxes := (boxes reg)(a := mailbox_new), next_box := Suc a,
             particles := hm_insert pid entry (particles reg),
             particle_states := hm_insert pid (fresh_state a) (particle_states reg)\<rparr>)"

lemma unat_suc: "w \<noteq> - 1 \<Longrightarrow> unat (w + 1) = Suc (unat w)" for w :: u64
  using unatSuc[of w] by (simp add: add_eq_0_iff add.commute)

lemma fresh_pid: "reg_inv reg \<Longrightarrow> \<not> particle_exists reg (fst (next_pid (pid_generator reg)))"
  unfolding reg_inv_def by (metis next_pid_simps(1) pid.sel(2) less_irrefl)

lemma reg_inv_spawned:
  assumes inv: "reg_inv reg" and room: "next_seq (pid_generator reg) \<noteq> - 1"
  shows "reg_inv (spawned entry reg)"
proof -
  let ?p = "fst (next_pid (pid_generator reg))" and ?reg = "spawned entry reg"
  have get: "state_of ?reg q = (if q = ?p then Some (fresh_state (next_box reg)) else state_of reg q)" for q
    by (simp add: spawned_def Let_def split_def)
  have fields: "me ?reg = me reg" "next_seq (pid_generator ?reg) = next_seq (pid_generator reg) + 1"
    "next_box ?reg = Suc (next_box reg)" "names ?reg = names reg"
    "hm_has (particles ?reg) q = (q = ?p \<or> hm_has (particles reg) q)"
    "hm_wf (particle_states reg) \<Longrightarrow> hm_wf (particle_states ?reg)" for q
    by (simp_all add: spawned_def Let_def split_def)
  have nodep: "node ?p = me reg" "seq ?p = next_seq (pid_generator reg)" by simp_all
  have new: "state_of reg ?p = None" using fresh_pid[OF inv] by (simp add: particle_exists_def hm_has_iff)
  have lof: "links_of ?reg q = (if q = ?p then Some [] else links_of reg q)" for q
    by (simp add: links_of_def get fresh_state_def)
  have ok: "reg_ok ?reg"
    unfolding reg_ok_def
  proof (intro conjI allI impI)
    fix q st assume "state_of ?reg q = Some st"
    then show "node q = me ?reg" "mailbox_at st < next_box ?reg"
      using inv fields nodep by (auto simp: get reg_inv_def reg_ok_def fresh_state_def less_Suc_eq split: if_splits)
  next
    fix q r st st'
    assume "state_of ?reg q = Some st" "state_of ?reg r = Some st'" "mailbox_at st = mailbox_at st'"
    then show "q = r"
      using inv unfolding reg_inv_def reg_ok_def
      by (auto simp: get fresh_state_def split: if_splits dest: less_irrefl_nat)
        (metis less_irrefl_nat)+
  next
    show "hm_wf (names ?reg)" using inv fields by (simp add: reg_inv_def reg_ok_def)
  qed
  have lk: "links_ok ?reg"
  proof (rule links_okI)
    fix q ls r
    assume "links_of ?reg q = Some ls" "r \<in> set ls" "node r = me ?reg"
    then have q: "links_of reg q = Some ls" "r \<in> set ls" "node r = me reg" "q \<noteq> ?p"
      using fields by (auto simp: lof split: if_splits)
    with inv obtain l1 where "links_of reg r = Some l1" "q \<in> set l1"
      by (auto simp: reg_inv_def dest: links_okD)
    moreover from this have "r \<noteq> ?p" using new by (auto simp: links_of_def)
    ultimately show "\<exists>ls'. links_of ?reg r = Some ls' \<and> q \<in> set ls'" by (simp add: lof)
  next
    fix q ls
    assume "links_of ?reg q = Some ls"
    then show "distinct ls" using inv by (auto simp: lof reg_inv_def links_ok_def split: if_splits)
  qed
  have "unat (seq q) < unat (next_seq (pid_generator ?reg))" if "particle_exists ?reg q" for q
    using that inv nodep unat_suc[OF room] unfolding fields
    by (auto simp: particle_exists_iff get reg_inv_def less_Suc_eq split: if_splits)
  moreover have "particle_exists ?reg q" if "hm_has (particles ?reg) q" for q
    using that inv fields(5) by (auto simp: particle_exists_iff get reg_inv_def)
  ultimately show ?thesis
    using ok lk inv fields(6) unfolding reg_inv_def by blast
qed

definition granted :: "policy_set option \<Rightarrow> 'c component_template \<Rightarrow> policy_set" where
  "granted caps template = (case caps of Some c \<Rightarrow> c | None \<Rightarrow> default_capabilities template)"

definition new_entry ::
  "string \<Rightarrow> string option \<Rightarrow> policy_set option \<Rightarrow> 'c component_template \<Rightarrow> ('n, 'c) registry
     \<Rightarrow> ('n, 'c) particle_entry" where
  "new_entry cname name caps template reg =
     \<lparr>entry_pid = fst (next_pid (pid_generator reg)),
      entry_code = \<lparr>code_component = template_component template, code_capabilities = granted caps template\<rparr>,
      entry_component_name = cname, entry_name = name\<rparr>"

lemma spawn_raced_eq:
  "spawn_raced race cname name caps reg =
     (if (case name of Some n \<Rightarrow> hm_has (names reg) n | None \<Rightarrow> False)
      then (Inl (NameTaken (the name)), reg)
      else
        (case hm_get (components reg) cname of
           None \<Rightarrow> (Inl (NoComponent cname), reg)
         | Some template \<Rightarrow>
             (let pid = fst (next_pid (pid_generator reg));
                  reg2 = race (spawned (new_entry cname name caps template reg) reg)
              in (case name of
                    None \<Rightarrow> (Inr (pid, next_box reg), reg2)
                  | Some n \<Rightarrow>
                      if hm_has (names reg2) n
                      then (Inl (NameTaken n),
                            reg2\<lparr>particle_states := hm_remove pid (particle_states reg2),
                                 particles := hm_remove pid (particles reg2)\<rparr>)
                      else (Inr (pid, next_box reg), reg2\<lparr>names := hm_insert n pid (names reg2)\<rparr>)))))"
  unfolding spawn_raced_def spawned_def new_entry_def granted_def Let_def split_def by (rule refl)

lemma spawn_raced_cases:
  assumes "spawn_raced race cname name caps reg = (res, reg')"
  obtains
    (taken) n where "name = Some n" and "hm_has (names reg) n" and "res = Inl (NameTaken n)" and "reg' = reg"
  | (unknown) "hm_get (components reg) cname = None" and "res = Inl (NoComponent cname)" and "reg' = reg"
  | (unnamed) template where "name = None" and "hm_get (components reg) cname = Some template"
      and "res = Inr (fst (next_pid (pid_generator reg)), next_box reg)"
      and "reg' = race (spawned (new_entry cname name caps template reg) reg)"
  | (lost) n template reg2 where "name = Some n" and "\<not> hm_has (names reg) n"
      and "hm_get (components reg) cname = Some template"
      and "reg2 = race (spawned (new_entry cname name caps template reg) reg)" and "hm_has (names reg2) n"
      and "res = Inl (NameTaken n)"
      and "reg' = reg2\<lparr>particle_states := hm_remove (fst (next_pid (pid_generator reg))) (particle_states reg2),
                        particles := hm_remove (fst (next_pid (pid_generator reg))) (particles reg2)\<rparr>"
  | (named) n template reg2 where "name = Some n" and "\<not> hm_has (names reg) n"
      and "hm_get (components reg) cname = Some template"
      and "reg2 = race (spawned (new_entry cname name caps template reg) reg)" and "\<not> hm_has (names reg2) n"
      and "res = Inr (fst (next_pid (pid_generator reg)), next_box reg)"
      and "reg' = reg2\<lparr>names := hm_insert n (fst (next_pid (pid_generator reg))) (names reg2)\<rparr>"
proof (cases "\<exists>n. name = Some n \<and> hm_has (names reg) n")
  case True
  then obtain n where n: "name = Some n" "hm_has (names reg) n" by blast
  from assms[unfolded spawn_raced_eq n(1) option.case if_P[OF n(2)]] show ?thesis
    by (intro taken[OF n]) simp_all
next
  case fresh: False
  then have eq: "(case name of Some n \<Rightarrow> hm_has (names reg) n | None \<Rightarrow> False) = False"
    by (cases name) auto
  show ?thesis
  proof (cases "hm_get (components reg) cname")
    case None
    from assms[unfolded spawn_raced_eq eq if_False None option.case] show ?thesis
      by (intro unknown[OF None]) simp_all
  next
    case (Some template)
    note run = assms[unfolded spawn_raced_eq eq if_False Some option.case Let_def]
    show ?thesis
    proof (cases name)
      case None
      from run[unfolded None option.case] show ?thesis
        by (intro unnamed[OF None Some]) (simp_all add: None)
    next
      case n: (Some n)
      define reg2 where "reg2 = race (spawned (new_entry cname name caps template reg) reg)"
      note run = run[folded reg2_def, unfolded n option.case]
      have "\<not> hm_has (names reg) n" using fresh n by simp
      show ?thesis
      proof (cases "hm_has (names reg2) n")
        case True
        from run[unfolded if_P[OF True]] show ?thesis
          by (intro lost[OF n \<open>\<not> hm_has (names reg) n\<close> Some reg2_def True]) simp_all
      next
        case False
        from run[unfolded if_not_P[OF False]] show ?thesis
          by (intro named[OF n \<open>\<not> hm_has (names reg) n\<close> Some reg2_def False]) simp_all
      qed
    qed
  qed
qed

lemma reg_inv_spawn:
  assumes inv: "reg_inv reg" and room: "next_seq (pid_generator reg) \<noteq> - 1"
    and run: "spawn cname name caps reg = (res, reg')"
  shows "reg_inv reg'"
  using run unfolding spawn_def
proof (cases rule: spawn_raced_cases)
  case (lost n template reg2)
  then have False by (simp add: spawned_def Let_def split_def)
  then show ?thesis ..
next
  case (named n template reg2)
  have "reg_inv reg2" using named reg_inv_spawned[OF inv room] by simp
  then show ?thesis
    by (rule reg_inv_frame) (use named \<open>reg_inv reg2\<close> in \<open>auto simp: reg_inv_def reg_ok_def\<close>)
qed (use inv reg_inv_spawned[OF inv room] in simp_all)

section \<open>Every reachable registry\<close>

text \<open>
  The registry's operations as steps. A spawn is possible while the pid counter has not
  reached its last value, and the remote link operations are for pids of other nodes, as
  their callers ensure.
\<close>

inductive reg_step :: "('n, 'c) registry \<Rightarrow> ('n, 'c) registry \<Rightarrow> bool" where
  st_component: "register_component compile cname wasm caps reg = (res, reg') \<Longrightarrow> reg_step reg reg'"
| st_spawn: "spawn cname name caps reg = (res, reg') \<Longrightarrow> next_seq (pid_generator reg) \<noteq> - 1 \<Longrightarrow>
    reg_step reg reg'"
| st_send: "send_to_pid p msg reg = (res, reg') \<Longrightarrow> reg_step reg reg'"
| st_send_tagged: "send_tagged_to_pid p r msg reg = (res, reg') \<Longrightarrow> reg_step reg reg'"
| st_send_system: "send_system p sys reg = (res, reg') \<Longrightarrow> reg_step reg reg'"
| st_box: "reg_step reg (update_box a f reg)"  \<comment> \<open>a particle receives, or its spawn is answered\<close>
| st_link: "link a b reg = (res, reg') \<Longrightarrow> reg_step reg reg'"
| st_unlink: "reg_step reg (unlink a b reg)"
| st_link_remote: "node q \<noteq> me reg \<Longrightarrow> reg_step reg (link_remote p q reg)"
| st_unlink_remote: "node q \<noteq> me reg \<Longrightarrow> reg_step reg (unlink_remote p q reg)"
| st_monitor: "monitor w t reg = (res', reg') \<Longrightarrow> reg_step reg reg'"
| st_monitor_with_ref: "reg_step reg (monitor_with_ref w t r reg)"
| st_monitor_remote: "reg_step reg (monitor_remote w t r reg)"
| st_demonitor: "reg_step reg (demonitor w r reg)"
| st_trap: "reg_step reg (set_trap_exit p b reg)"
| st_register: "register_name p nm reg = (res, reg') \<Longrightarrow> reg_step reg reg'"
| st_unregister: "unregister_name p nm reg = (res, reg') \<Longrightarrow> reg_step reg reg'"
| st_exit: "reg_step reg (exit_particle p reason reg)"
| st_inherited: "reg_step reg (apply_inherited_exit p q reason reg)"
| st_directed: "reg_step reg (apply_directed_exit p q reason reg)"
| st_forget: "reg_step reg (forget_node n reg)"

inductive reg_reachable :: "('n, 'c) registry \<Rightarrow> bool" where
  rr_new: "reg_reachable (registry_new g)"
| rr_step: "reg_reachable reg \<Longrightarrow> reg_step reg reg' \<Longrightarrow> reg_reachable reg'"

lemma monitor_same_links:
  "reg_inv reg \<Longrightarrow> reg_inv (update_state p (add_monitor r q) reg)"
  "reg_inv reg \<Longrightarrow> reg_inv (update_state p (drop_monitor r) reg)"
  "reg_inv reg \<Longrightarrow> reg_inv (update_state p (add_watcher q r) reg)"
  "reg_inv reg \<Longrightarrow> reg_inv (update_state p (drop_watcher q r) reg)"
  "reg_inv reg \<Longrightarrow> reg_inv (update_state p (\<lambda>st. st\<lparr>trap_exit := b\<rparr>) reg)"
  by (auto intro!: reg_inv_same_links simp: add_monitor_def drop_monitor_def add_watcher_def drop_watcher_def)

lemma reg_inv_components: "reg_inv reg \<Longrightarrow> reg_inv (reg\<lparr>components := cs\<rparr>)"
  by (rule reg_inv_frame) (auto simp: reg_inv_def reg_ok_def)

lemma reg_inv_names: "reg_inv reg \<Longrightarrow> hm_wf ns \<Longrightarrow> reg_inv (reg\<lparr>names := ns\<rparr>)"
  by (rule reg_inv_frame) auto

lemma reg_inv_names_wf: "reg_inv reg \<Longrightarrow> hm_wf (names reg)"
  by (simp add: reg_inv_def reg_ok_def)

lemma reg_inv_next_ref: "reg_inv reg \<Longrightarrow> reg_inv (reg\<lparr>next_ref := r\<rparr>)"
  by (rule reg_inv_frame) (auto simp: reg_inv_def reg_ok_def)

lemma reg_inv_monitor: "reg_inv reg \<Longrightarrow> reg_inv (snd (monitor w t reg))"
  by (auto simp: monitor_def Let_def reg_inv_next_ref reg_inv_update_box monitor_same_links
      split: option.splits)

lemma reg_inv_step: "reg_step reg reg' \<Longrightarrow> reg_inv reg \<Longrightarrow> reg_inv reg'"
proof (induction rule: reg_step.induct)
  case (st_component compile cname wasm caps reg res reg')
  then show ?case
    by (auto simp: register_component_def reg_inv_components split: sum.splits)
next
  case (st_monitor w t reg res' reg')
  then show ?case using reg_inv_monitor by (metis snd_conv)
next
  case (st_send_system p sys reg res reg')
  then show ?case using reg_inv_send_system by (metis snd_conv)
next
  case (st_demonitor reg w r)
  then show ?case
    by (auto simp: demonitor_def Let_def monitor_same_links split: option.splits)
next
  case (st_register p nm reg res reg')
  then show ?case
    by (auto simp: register_name_def reg_inv_names reg_inv_names_wf split: if_splits)
next
  case (st_unregister p nm reg res reg')
  then show ?case
    by (auto simp: unregister_name_def reg_inv_names reg_inv_names_wf split: option.splits if_splits)
qed (auto simp: send_to_pid_def send_tagged_to_pid_def reg_inv_update_box monitor_with_ref_def
      monitor_remote_def set_trap_exit_def monitor_same_links reg_inv_unlink reg_inv_link_remote
      reg_inv_exit reg_inv_inherited reg_inv_directed reg_inv_forget_node
    intro: reg_inv_spawn reg_inv_link split: option.splits sum.splits)

lemma reg_inv_reachable: "reg_reachable reg \<Longrightarrow> reg_inv reg"
  by (induction rule: reg_reachable.induct) (auto intro: reg_inv_new reg_inv_step)

section \<open>A registry to apply the properties to\<close>

text \<open>
  Node 0 with four particles: 1 is called ''a'' and linked to 2, 2 is linked to 3 which traps
  exits, 4 monitors 2, and 1 has a link to a particle of node 9.
\<close>

definition demo_step :: "nat \<Rightarrow> (nat, unit) registry \<Rightarrow> (nat, unit) registry" where
  "demo_step i reg =
     (if i = 0 then snd (register_component (\<lambda>_. Inr ()) ''c'' [] policy_empty reg)
      else if i = 1 then snd (spawn ''c'' (Some ''a'') None reg)
      else if i < 5 then snd (spawn ''c'' None None reg)
      else if i = 5 then snd (link (Pid 0 1) (Pid 0 2) reg)
      else if i = 6 then snd (link (Pid 0 2) (Pid 0 3) reg)
      else if i = 7 then set_trap_exit (Pid 0 3) True reg
      else if i = 8 then snd (monitor (Pid 0 4) (Pid 0 2) reg)
      else link_remote (Pid 0 1) (Pid 9 7) reg)"

definition demo_at :: "nat \<Rightarrow> (nat, unit) registry" where
  "demo_at k = foldl (\<lambda>r i. demo_step i r) (registry_new (pid_gen_new 0)) [0..<k]"

definition demo :: "(nat, unit) registry" where
  "demo = demo_at 10"

lemma demo_room: "next_seq (pid_generator (demo_at k)) \<noteq> - 1" if "k < 10" for k
proof -
  have "k \<in> {0, 1, 2, 3, 4, 5, 6, 7, 8, 9}" using that by auto
  moreover have "\<forall>k \<in> {0, 1, 2, 3, 4, 5, 6, 7, 8, 9}. next_seq (pid_generator (demo_at k)) \<noteq> - 1"
    by code_simp
  ultimately show ?thesis by blast
qed

lemmas ran = st_component[OF prod.collapse[symmetric]] st_spawn[OF prod.collapse[symmetric]]
  st_link[OF prod.collapse[symmetric]] st_monitor[OF prod.collapse[symmetric]]

lemma demo_reachable_at: "k \<le> 10 \<Longrightarrow> reg_reachable (demo_at k)"
proof (induction k)
  case 0
  then show ?case by (simp add: demo_at_def rr_new)
next
  case (Suc k)
  have "demo_at (Suc k) = demo_step k (demo_at k)" by (simp add: demo_at_def)
  moreover have "reg_step (demo_at k) (demo_step k (demo_at k))"
  proof -
    have "me (demo_at k) = 0 \<or> k \<noteq> 9" by (cases "k = 9") (simp_all, code_simp)
    then show ?thesis
      using demo_room[of k] Suc.prems
      by (auto simp: demo_step_def intro: ran st_trap st_link_remote[where q = "Pid 9 7"])
  qed
  ultimately show ?case using Suc by (auto intro: rr_step)
qed

lemma demo_reachable: "reg_reachable demo"
  unfolding demo_def by (rule demo_reachable_at) simp

section \<open>Properties\<close>

text \<open>
  C1: who dies. An exit removes exactly the particles it reaches: the one it is for and, if
  the reason is not normal, every live particle reached from it over links through particles
  that do not trap exits. Nobody else is removed and nobody is added.
\<close>

theorem exit_cascade_exact:
  "particle_exists (exit_particle p reason reg) q \<longleftrightarrow>
     particle_exists reg q \<and> q \<notin> reached reg reason [p]"
  by (rule exit_particle_alive)

text \<open>
  C12: what a cascade publishes and tells. In a reachable registry every particle the exit
  reaches publishes one death, each with the same reason, its name and its relationships on
  other nodes as they were; every survivor finds in its mailbox, ahead of what was there, one
  exit message per dead particle it was linked to if it traps exits, and one down message per
  monitor it held on a dead particle, and nothing else; its mailbox stays open.
\<close>

theorem exit_publishes_and_tells:
  assumes "reg_reachable reg"
  shows "\<exists>vs. distinct vs \<and> set vs = reached reg reason [p]
    \<and> deaths (exit_particle p reason reg) =
        deaths reg @ map (\<lambda>q. death_of reg q reason (the (state_of reg q))) vs
    \<and> (\<forall>w u. state_of reg w = Some u \<longrightarrow> w \<notin> set vs \<longrightarrow>
         queue (boxes (exit_particle p reason reg) (mailbox_at u)) =
           rev (concat (map (\<lambda>q. signals_for q reason (the (state_of reg q)) w (trap_exit u)) vs))
             @ queue (boxes reg (mailbox_at u))
         \<and> closed (boxes (exit_particle p reason reg) (mailbox_at u)) = closed (boxes reg (mailbox_at u)))"
proof -
  from exit_particle_cascade[OF reg_inv_ok[OF reg_inv_reachable[OF assms]]]
  obtain vs where "distinct vs" "set vs = reached reg reason [p]"
    "cascade reg reason vs (exit_particle p reason reg)"
    by metis
  then show ?thesis unfolding cascade_def told_def by (intro exI[of _ vs]) blast
qed

theorem exit_publishes_and_tells_witness:
  "\<exists>vs. set vs = reached demo Killed [Pid 0 1]
    \<and> deaths (exit_particle (Pid 0 1) Killed demo) =
        deaths demo @ map (\<lambda>q. death_of demo q Killed (the (state_of demo q))) vs"
  using exit_publishes_and_tells[OF demo_reachable] by blast

text \<open>
  C19: nothing of the dead stays registered. After an exit in a reachable registry, exactly
  the names of the particles it reached are free again and exactly their entries are gone, so
  a free name can be taken at once.
\<close>

theorem exit_releases_names:
  assumes "reg_reachable reg"
  shows "lookup_name (exit_particle p reason reg) n =
      (case lookup_name reg n of None \<Rightarrow> None
       | Some owner \<Rightarrow> if owner \<in> reached reg reason [p] then None else Some owner)
    \<and> (get_by_pid (exit_particle p reason reg) q =
        (if q \<in> reached reg reason [p] then None else get_by_pid reg q))
    \<and> (lookup_name reg n = Some p \<longrightarrow> particle_exists reg p \<longrightarrow>
        fst (register_name r n (exit_particle p reason reg)) = Inr ())"
proof -
  have inv: "reg_inv reg" by (rule reg_inv_reachable[OF assms])
  from exit_particle_cascade[OF reg_inv_ok[OF inv]]
  obtain vs where vs: "set vs = reached reg reason [p]" and c: "cascade reg reason vs (exit_particle p reason reg)"
    by metis
  have "hm_get (filter (\<lambda>(n, owner). owner \<notin> set vs) (names reg)) n =
      (case hm_get (names reg) n of None \<Rightarrow> None | Some owner \<Rightarrow> if owner \<notin> set vs then Some owner else None)"
    using hm_get_retain[OF reg_inv_names_wf[OF inv], of "\<lambda>_ owner. owner \<notin> set vs" n]
    by (simp add: hm_retain_def)
  then have l: "lookup_name (exit_particle p reason reg) n =
      (case lookup_name reg n of None \<Rightarrow> None
       | Some owner \<Rightarrow> if owner \<in> reached reg reason [p] then None else Some owner)"
    using c vs by (auto simp: cascade_def lookup_name_def split: option.splits)
  have g: "get_by_pid (exit_particle p reason reg) q =
        (if q \<in> reached reg reason [p] then None else get_by_pid reg q)"
    using c vs by (simp add: cascade_def get_by_pid_def)
  have "fst (register_name r n (exit_particle p reason reg)) = Inr ()"
    if "lookup_name reg n = Some p" "particle_exists reg p"
  proof -
    have "p \<in> reached reg reason [p]" using that by (auto intro: reached.seed)
    then show ?thesis using l that by (simp add: register_name_def lookup_name_def hm_has_iff)
  qed
  with l g show ?thesis by blast
qed

theorem exit_releases_names_witness:
  "fst (register_name (Pid 0 3) ''a'' (exit_particle (Pid 0 1) Normal demo)) = Inr ()"
proof -
  have "lookup_name demo ''a'' = Some (Pid 0 1) \<and> particle_exists demo (Pid 0 1)" by code_simp
  then show ?thesis using exit_releases_names[OF demo_reachable] by blast
qed

text \<open>
  C20: a directed kill cannot be declined. Sent to a live particle it always removes it, trap
  or not, and what its death says is \<open>Killed\<close>, never \<open>Kill\<close>; the particles that go with it
  are those reached by \<open>Killed\<close>. Any other reason sent to a particle that traps exits removes
  nobody, publishes nothing, and is the next message the particle reads.
\<close>

theorem directed_exit:
  assumes "reg_reachable reg" and "state_of reg p = Some st"
  shows "\<not> particle_exists (apply_directed_exit p from Kill reg) p
    \<and> (particle_exists (apply_directed_exit p from Kill reg) q \<longleftrightarrow>
         particle_exists reg q \<and> q \<notin> reached reg Killed [p])
    \<and> (\<exists>ds. deaths (apply_directed_exit p from Kill reg) = deaths reg @ ds
         \<and> (\<forall>d \<in> set ds. dead_reason d = Killed) \<and> p \<in> dead_pid ` set ds)
    \<and> (trap_exit st \<longrightarrow> reason \<noteq> Kill \<longrightarrow>
         particle_exists (apply_directed_exit p from reason reg) q = particle_exists reg q
         \<and> deaths (apply_directed_exit p from reason reg) = deaths reg
         \<and> queue (boxes (apply_directed_exit p from reason reg) (mailbox_at st)) =
             MExit from reason # queue (boxes reg (mailbox_at st)))"
proof -
  have kill: "apply_directed_exit p from Kill reg = exit_particle p Killed reg"
    using assms(2) by (simp add: apply_directed_exit_def hm_has_iff)
  have in_p: "p \<in> reached reg Killed [p]"
    using assms(2) by (auto simp: particle_exists_iff intro: reached.seed)
  from exit_particle_cascade[OF reg_inv_ok[OF reg_inv_reachable[OF assms(1)]]]
  obtain vs where vs: "set vs = reached reg Killed [p]" and c: "cascade reg Killed vs (exit_particle p Killed reg)"
    by metis
  have "\<exists>ds. deaths (exit_particle p Killed reg) = deaths reg @ ds
         \<and> (\<forall>d \<in> set ds. dead_reason d = Killed) \<and> p \<in> dead_pid ` set ds"
    using c vs in_p
    by (intro exI[of _ "map (\<lambda>q. death_of reg q Killed (the (state_of reg q))) vs"])
      (auto simp: cascade_def death_of_def image_image)
  moreover have "particle_exists (apply_directed_exit p from reason reg) q = particle_exists reg q
         \<and> deaths (apply_directed_exit p from reason reg) = deaths reg
         \<and> queue (boxes (apply_directed_exit p from reason reg) (mailbox_at st)) =
             MExit from reason # queue (boxes reg (mailbox_at st))"
    if "trap_exit st" "reason \<noteq> Kill"
    using assms(2) that
    by (simp add: apply_directed_exit_def apply_inherited_exit_def deliver_exit_def send_system_def
        update_box_def particle_exists_def push_system_def system_to_mailbox_def)
  ultimately show ?thesis
    using exit_particle_alive in_p by (auto simp: kill)
qed

theorem directed_exit_witness:
  "\<not> particle_exists (apply_directed_exit (Pid 0 3) (Pid 9 7) Kill demo) (Pid 0 3)
   \<and> deaths (apply_directed_exit (Pid 0 3) (Pid 9 7) (Shutdown ''x'') demo) = deaths demo"
proof -
  have "trap_exit (the (state_of demo (Pid 0 3))) \<and> state_of demo (Pid 0 3) \<noteq> None" by code_simp
  then obtain st where "state_of demo (Pid 0 3) = Some st" "trap_exit st" by auto
  then show ?thesis using directed_exit[OF demo_reachable] by blast
qed

text \<open>
  Links are mutual. In every reachable registry, a link of a live particle to a pid of
  this node leads to a live particle that has the link back, and no link is held twice; so no
  death on this node leaves a dangling local link. Pids are never reused: the next pid the
  generator gives out belongs to nobody.
\<close>

lemma links_mutual:
  assumes "reg_reachable reg" and "state_of reg p = Some st" and "q \<in> set (links st)"
    and "node q = me reg"
  shows "(\<exists>st'. state_of reg q = Some st' \<and> p \<in> set (links st')) \<and> distinct (links st)
    \<and> \<not> particle_exists reg (fst (next_pid (pid_generator reg)))"
proof -
  have inv: "reg_inv reg" by (rule reg_inv_reachable[OF assms(1)])
  then have "links_ok reg" by (simp add: reg_inv_def)
  moreover have "links_of reg p = Some (links st)" using assms(2) by (simp add: links_of_def)
  ultimately have "\<exists>ls'. links_of reg q = Some ls' \<and> p \<in> set ls'" "distinct (links st)"
    using assms(3,4) by (auto simp: links_ok_def)
  then show ?thesis using fresh_pid[OF inv] by (auto simp: links_of_def)
qed

lemma links_mutual_witness:
  "\<exists>st'. state_of demo (Pid 0 2) = Some st' \<and> Pid 0 1 \<in> set (links st')"
proof -
  have "state_of demo (Pid 0 1) \<noteq> None \<and> Pid 0 2 \<in> set (links (the (state_of demo (Pid 0 1))))
    \<and> me demo = 0"
    by code_simp
  then obtain st where "state_of demo (Pid 0 1) = Some st" "Pid 0 2 \<in> set (links st)" "me demo = 0"
    by auto
  then show ?thesis using links_mutual[OF demo_reachable] by force
qed

text \<open>
  C34: spawning against a race for the name. Whatever another task does between the insertion
  of the particle and the second look at the names, a spawn that succeeds hands out a pid of
  this node nobody has had, holds the name it asked for, which was free both times, and
  changes no other name; and a spawn that fails either changed nothing, or lost the name to
  the other task and leaves neither state nor entry of its particle behind, and every name
  as the other task left it.
\<close>

theorem spawn_race:
  assumes "reg_reachable reg" and "spawn_raced race cname name caps reg = (res, reg')"
  shows "case res of
      Inr (p, a) \<Rightarrow> \<not> particle_exists reg p \<and> node p = me reg
        \<and> (\<exists>template. hm_get (components reg) cname = Some template \<and>
            (let reg2 = race (spawned (new_entry cname name caps template reg) reg)
             in \<forall>m. lookup_name reg' m = (if name = Some m then Some p else lookup_name reg2 m)
                  \<and> (name = Some m \<longrightarrow> lookup_name reg m = None \<and> lookup_name reg2 m = None)))
    | Inl e \<Rightarrow> reg' = reg
        \<or> (\<exists>n template. name = Some n \<and> e = NameTaken n \<and>
            (let reg2 = race (spawned (new_entry cname name caps template reg) reg);
                 p = fst (next_pid (pid_generator reg))
             in lookup_name reg2 n \<noteq> None \<and> names reg' = names reg2
                \<and> \<not> particle_exists reg' p \<and> get_by_pid reg' p = None
                \<and> (\<forall>q. q \<noteq> p \<longrightarrow> state_of reg' q = state_of reg2 q)))"
proof -
  have new: "\<not> particle_exists reg (Pid (me reg) (next_seq (pid_generator reg)))"
    using fresh_pid[OF reg_inv_reachable[OF assms(1)]] by simp
  from assms(2) show ?thesis
  proof (cases rule: spawn_raced_cases)
    case (lost n template reg2)
    then show ?thesis
      by (simp add: Let_def lookup_name_def particle_exists_def get_by_pid_def hm_has_iff)
        blast
  next
    case (named n template reg2)
    then show ?thesis
      using new by (auto simp: Let_def lookup_name_def hm_has_iff)
  qed (use new in \<open>auto simp: Let_def lookup_name_def\<close>)
qed

theorem spawn_race_witness:
  "\<not> particle_exists (snd (spawn_raced (\<lambda>r. snd (register_name (Pid 0 4) ''b'' r)) ''c'' (Some ''b'') None demo))
     (Pid 0 5)"
proof -
  let ?r = "spawn_raced (\<lambda>r. snd (register_name (Pid 0 4) ''b'' r)) ''c'' (Some ''b'') None demo"
  have f: "fst ?r = Inl (NameTaken ''b'')" and n: "lookup_name demo ''b'' \<noteq> lookup_name (snd ?r) ''b''"
    and p: "fst (next_pid (pid_generator demo)) = Pid 0 5"
    by code_simp+
  have "snd ?r \<noteq> demo" using n by auto
  then show ?thesis
    using spawn_race[OF demo_reachable prod.collapse[symmetric],
        of "\<lambda>r. snd (register_name (Pid 0 4) ''b'' r)" "''c''" "Some ''b''" None]
    unfolding f p by (auto simp: Let_def)
qed

section \<open>Monitors\<close>

lemma monitor_alive:
  assumes "particle_exists reg t" and "particle_exists reg w"
  shows "monitor w t reg = (Inr (next_ref reg),
    update_state w (add_monitor (next_ref reg) t)
      (update_state t (add_watcher w (next_ref reg)) (reg\<lparr>next_ref := next_ref reg + 1\<rparr>)))"
  using assms by (simp add: monitor_def Let_def particle_exists_def update_state_def)

lemma filter_signal:
  "(w, r) \<in> set (monitored_by st) \<Longrightarrow> MDown p r reason \<in> set (signals_for p reason st w traps)"
  by (auto simp: signals_for_def image_iff split_def)

text \<open>
  A monitor fires. Monitoring a live particle promises the watcher a down message with
  the returned reference: if the target then exits for whatever reason and the watcher
  survives, the message is in its mailbox with that reason. Monitoring a particle that is
  gone delivers the message at once, ahead of everything else; its reason is \<open>Normal\<close>, though
  the particle may have died of anything. After a demonitor, no such message comes.
\<close>

lemma monitor_fires:
  assumes "reg_reachable reg" and "state_of reg w = Some u" and "w \<noteq> t"
    and "monitor w t reg = (Inr r, reg1)"
  shows "(\<not> particle_exists reg t \<longrightarrow>
        queue (boxes reg1 (mailbox_at u)) = MDown t r Normal # queue (boxes reg (mailbox_at u)))
    \<and> (particle_exists reg t \<longrightarrow> w \<notin> reached reg1 reason [t] \<longrightarrow>
        MDown t r reason \<in> set (queue (boxes (exit_particle t reason reg1) (mailbox_at u))))
    \<and> (particle_exists reg t \<longrightarrow>
        (w, r) \<notin> set (monitored_by (the (state_of (demonitor w r reg1) t))))"
proof (cases "particle_exists reg t")
  case False
  then have "r = next_ref reg" and "reg1 = update_box (mailbox_at u)
      (\<lambda>mb. push_system mb (SysDown t (next_ref reg) Normal)) (reg\<lparr>next_ref := next_ref reg + 1\<rparr>)"
    using assms by (auto simp: monitor_def Let_def particle_exists_def)
  with False show ?thesis
    by (simp add: update_box_def push_system_def system_to_mailbox_def)
next
  case True
  then obtain v where v: "state_of reg t = Some v" by (auto simp: particle_exists_iff)
  have "particle_exists reg w" using assms(2) by (auto simp: particle_exists_iff)
  from monitor_alive[OF True this] assms(4) have r: "r = next_ref reg"
    and reg1: "reg1 = update_state w (add_monitor r t)
      (update_state t (add_watcher w r) (reg\<lparr>next_ref := next_ref reg + 1\<rparr>))"
    by simp_all
  have inv1: "reg_inv reg1"
    using reg_inv_monitor[OF reg_inv_reachable[OF assms(1)], of w t] assms(4) by simp
  have st: "state_of reg1 t = Some (add_watcher w r v)" "state_of reg1 w = Some (add_monitor r t u)"
    using v assms(2,3) by (simp_all add: reg1 state_of_update)
  have "MDown t r reason \<in> set (queue (boxes (exit_particle t reason reg1) (mailbox_at u)))"
    if w: "w \<notin> reached reg1 reason [t]"
  proof -
    from exit_particle_cascade[OF reg_inv_ok[OF inv1]]
    obtain vs where vs: "set vs = reached reg1 reason [t]" and c: "cascade reg1 reason vs (exit_particle t reason reg1)"
      by metis
    have "t \<in> set vs" unfolding vs by (rule reached.seed) (simp_all add: particle_exists_iff st)
    moreover have "(w, r) \<in> set (monitored_by (the (state_of reg1 t)))"
      by (simp add: st add_watcher_def)
    then have "MDown t r reason \<in>
        set (signals_for t reason (the (state_of reg1 t)) w (trap_exit (add_monitor r t u)))"
      by (rule filter_signal)
    ultimately have "MDown t r reason \<in> set (told reg1 reason vs w (add_monitor r t u))"
      unfolding told_def set_rev set_concat set_map by blast
    moreover have "mailbox_at (add_monitor r t u) = mailbox_at u" by (simp add: add_monitor_def)
    moreover have "w \<notin> set vs" using w vs by simp
    then have "queue (boxes (exit_particle t reason reg1) (mailbox_at (add_monitor r t u))) =
        told reg1 reason vs w (add_monitor r t u) @ queue (boxes reg1 (mailbox_at (add_monitor r t u)))"
      using c st(2) unfolding cascade_def by blast
    ultimately show ?thesis by simp
  qed
  moreover have "(w, r) \<notin> set (monitored_by (the (state_of (demonitor w r reg1) t)))"
    using st assms(3)
    by (simp add: demonitor_def Let_def state_of_update add_monitor_def drop_monitor_def drop_watcher_def)
  ultimately show ?thesis using True by blast
qed

lemma monitor_fires_witness:
  "queue (boxes (snd (monitor (Pid 0 4) (Pid 0 77) demo)) (mailbox_at (the (state_of demo (Pid 0 4))))) =
     MDown (Pid 0 77) 2 Normal # queue (boxes demo (mailbox_at (the (state_of demo (Pid 0 4)))))"
proof -
  have c: "state_of demo (Pid 0 4) \<noteq> None \<and> \<not> particle_exists demo (Pid 0 77)
    \<and> fst (monitor (Pid 0 4) (Pid 0 77) demo) = Inr 2"
    by code_simp
  then obtain u where u: "state_of demo (Pid 0 4) = Some u" by auto
  have "monitor (Pid 0 4) (Pid 0 77) demo = (Inr 2, snd (monitor (Pid 0 4) (Pid 0 77) demo))"
    using c by (metis prod.collapse)
  from monitor_fires[OF demo_reachable u _ this] c u show ?thesis by simp
qed

end
