(* ===== verification/Wire.thy ===== *)
theory Wire
  imports Messages
begin

text \<open>
  What crosses the network: the request/response commands (\<^verbatim>\<open>src/wire.rs\<close>) and the
  messages of a peer link (\<^verbatim>\<open>src/transport.rs\<close>).

  postcard's encoding is not part of the repository. A serialiser is a pair of functions
  that may fail, and \<open>codec_inverse\<close> is what the code relies on: what was encoded decodes
  to itself.
\<close>

type_synonym 'm serializer = "'m \<Rightarrow> bytes option"
type_synonym 'm deserializer = "bytes \<Rightarrow> 'm option"

definition codec_inverse :: "'m serializer \<Rightarrow> 'm deserializer \<Rightarrow> bool" where
  "codec_inverse ser de \<longleftrightarrow> (\<forall>m bs. ser m = Some bs \<longrightarrow> de bs = Some m)"

section \<open>Request and response\<close>

datatype 'n target = TPid "'n pid" | TName string

record 'n send_request =
  request_target :: "'n target"
  request_msg :: bytes

type_synonym send_response = "string + unit"

record spawn_request =
  request_component :: string
  request_name :: "string option"
  request_init_args :: string

record 'n spawn_result =
  spawned_pid :: "'n pid"
  spawned_component :: string
  spawned_name :: "string option"

datatype spawn_failure_wire = WComponentNotFound | WInitFailed | WResourceLimit

type_synonym 'n spawn_response = "spawn_failure_wire + 'n spawn_result"

datatype 'n global_request =
    GLock string 'n
  | GCommit string "'n pid" 'n
  | GUnlock string 'n
  | GRelease string "'n pid"
  | GSync "(string \<times> 'n pid) list"

datatype 'n global_response =
    GLocked
  | GBusy
  | GTaken "'n pid"
  | GOk
  | GNames "(string \<times> 'n pid) list"

datatype 'n command =
    CSend "'n send_request"
  | CSpawn spawn_request
  | CGlobal "'n global_request"

datatype 'n command_response =
    RSend send_response
  | RSpawn "'n spawn_response"
  | RGlobal "'n global_response"

section \<open>Peer messages\<close>

datatype 'n addressee = APid "'n pid" | AName string

record 'n envelope =
  env_target :: "'n addressee"
  env_ref :: "u64 option"
  env_payload :: bytes

text \<open>
  iroh's \<^verbatim>\<open>EndpointAddr\<close>: a node id and a set of transport addresses, whose type is a
  parameter.
\<close>

record ('n, 'a) endpoint_addr =
  addr_id :: 'n
  addrs :: "'a list"

datatype ('n, 'a) peer_message =
    PDeliver "'n envelope"
  | PAnnounce "('n, 'a) endpoint_addr list"
  | PLink "'n pid" "'n addressee"
  | PUnlink "'n pid" "'n addressee"
  | PMonitor "'n pid" "'n addressee" u64
  | PDemonitor "'n pid" u64
  | PExit "'n pid" "'n pid" exit_reason
  | PExitSignal "'n pid" "'n addressee" exit_reason
  | PDown "'n pid" "'n pid" u64 exit_reason
  | PLostConnection 'n 'n u64
  | PRemoveConnection 'n

end
