(* ===== verification/Frames.thy ===== *)
theory Frames
  imports Wire
begin

text \<open>
  Framing on a peer link (\<^verbatim>\<open>encode_frame\<close> and \<^verbatim>\<open>read_frame\<close>, \<^verbatim>\<open>src/transport.rs\<close>): a
  little-endian 32-bit length, then that many bytes. A receiving stream is the list of bytes
  that arrive before its end.
\<close>

unbundle bit_operations_syntax

section \<open>Little-endian lengths\<close>

definition u32_to_le :: "u32 \<Rightarrow> bytes" where
  "u32_to_le w = [ucast w, ucast (drop_bit 8 w), ucast (drop_bit 16 w), ucast (drop_bit 24 w)]"

definition u32_from_le :: "bytes \<Rightarrow> u32" where
  "u32_from_le bs =
     ucast (bs ! 0) OR push_bit 8 (ucast (bs ! 1)) OR push_bit 16 (ucast (bs ! 2))
       OR push_bit 24 (ucast (bs ! 3))"

lemma length_u32_to_le [simp]: "length (u32_to_le w) = 4"
  by (simp add: u32_to_le_def)

lemma u32_from_to_le [simp]: "u32_from_le (u32_to_le w) = w"
proof (rule bit_eqI)
  fix n
  assume "possible_bit TYPE(u32) n"
  then have "n < 32" by simp
  then consider "n < 8" | "8 \<le> n" "n < 16" | "16 \<le> n" "n < 24" | "24 \<le> n" "n < 32"
    by linarith
  then show "bit (u32_from_le (u32_to_le w)) n = bit w n"
    by cases (auto simp: u32_from_le_def u32_to_le_def bit_simps)
qed

section \<open>Frames\<close>

definition max_frame_len :: u32 where
  "max_frame_len = 1024 * 1024"

datatype frame_error = SerializeFailed | TooLarge | Oversized u32 | Truncated | DeserializeFailed

definition encode_frame :: "'m serializer \<Rightarrow> 'm \<Rightarrow> frame_error + bytes" where
  "encode_frame ser msg =
     (case ser msg of
        None \<Rightarrow> Inl SerializeFailed
      | Some body \<Rightarrow>
          if (of_nat (length body) :: u64) \<le> ucast max_frame_len
          then Inr (u32_to_le (of_nat (length body)) @ body)
          else Inl TooLarge)"

definition read_frame :: "'m deserializer \<Rightarrow> bytes \<Rightarrow> (frame_error + 'm option) \<times> bytes" where
  "read_frame de stream =
     (if length stream < 4 then (Inr None, [])
      else
        (let len = u32_from_le (take 4 stream); rest = drop 4 stream
         in if max_frame_len < len then (Inl (Oversized len), rest)
            else if length rest < unat len then (Inl Truncated, [])
            else
              (case de (take (unat len) rest) of
                 None \<Rightarrow> (Inl DeserializeFailed, drop (unat len) rest)
               | Some m \<Rightarrow> (Inr (Some m), drop (unat len) rest))))"

lemma read_frame_shrinks: "read_frame de stream = (Inr (Some m), rest) \<Longrightarrow> length rest < length stream"
  by (auto simp: read_frame_def Let_def split: if_splits option.splits)

text \<open>
  The reading loop of a link (\<^verbatim>\<open>handle_message_link\<close>): frames until the peer closes the link or
  an error ends it. Every frame takes at least its four length bytes.
\<close>

function read_link :: "'m deserializer \<Rightarrow> bytes \<Rightarrow> 'm list \<times> frame_error option" where
  "read_link de stream =
     (case read_frame de stream of
        (Inr (Some m), rest) \<Rightarrow> (let (ms, e) = read_link de rest in (m # ms, e))
      | (Inr None, rest) \<Rightarrow> ([], None)
      | (Inl e, rest) \<Rightarrow> ([], Some e))"
  by pat_completeness auto

termination
  by (relation "measure (\<lambda>(_, stream). length stream)") (auto dest: read_frame_shrinks[OF sym])

declare read_link.simps [simp del]

fun encode_all :: "'m serializer \<Rightarrow> 'm list \<Rightarrow> bytes option" where
  "encode_all ser [] = Some []"
| "encode_all ser (m # ms) =
     (case (encode_frame ser m, encode_all ser ms) of
        (Inr f, Some fs) \<Rightarrow> Some (f @ fs) | _ \<Rightarrow> None)"

section \<open>Properties\<close>

lemma max_frame_len_nat: "unat max_frame_len = 1048576"
  by (simp add: max_frame_len_def)

text \<open>No vector is longer than the address space.\<close>

definition fits_memory :: "'m serializer \<Rightarrow> bool" where
  "fits_memory ser \<longleftrightarrow> (\<forall>m bs. ser m = Some bs \<longrightarrow> length bs < 2 ^ 64)"

lemma encode_frame_body:
  assumes "encode_frame ser m = Inr f" and fits: "fits_memory ser"
  obtains body where "ser m = Some body" and "f = u32_to_le (of_nat (length body)) @ body"
    and "length body \<le> 1048576" and "unat (of_nat (length body) :: u32) = length body"
proof -
  from assms(1) obtain body where b: "ser m = Some body" "f = u32_to_le (of_nat (length body)) @ body"
    and le: "(of_nat (length body) :: u64) \<le> ucast max_frame_len"
    by (auto simp: encode_frame_def split: option.splits if_splits)
  have "length body < 2 ^ 64" using fits b(1) by (simp only: fits_memory_def)
  then have "unat (of_nat (length body) :: u64) = length body"
    unfolding unat_of_nat by (intro mod_less) simp
  moreover have "unat (ucast max_frame_len :: u64) = 1048576" by (simp add: max_frame_len_def)
  ultimately have l: "length body \<le> 1048576" using le by (simp add: word_le_nat_alt)
  then have "unat (of_nat (length body) :: u32) = length body"
    unfolding unat_of_nat by (intro mod_less) simp
  then show ?thesis using that b l by blast
qed

lemma read_frame_encoded:
  assumes ok: "codec_inverse ser de" and fits: "fits_memory ser" and enc: "encode_frame ser m = Inr f"
  shows "read_frame de (f @ rest) = (Inr (Some m), rest)"
proof -
  from encode_frame_body[OF enc fits] obtain body where b: "ser m = Some body"
    "f = u32_to_le (of_nat (length body)) @ body" "length body \<le> 1048576"
    "unat (of_nat (length body) :: u32) = length body"
    by blast
  have "\<not> max_frame_len < of_nat (length body)"
    using b(3,4) by (simp add: word_less_nat_alt max_frame_len_nat)
  moreover have "de body = Some m" using ok b(1) by (simp add: codec_inverse_def)
  ultimately show ?thesis using b(2,4) by (simp add: read_frame_def Let_def)
qed

lemma read_frame_cut:
  assumes fits: "fits_memory ser" and enc: "encode_frame ser m = Inr f" and cut: "k < length f"
  shows "read_frame de (take k f) = (Inr None, []) \<or> read_frame de (take k f) = (Inl Truncated, [])"
proof (cases "k < 4")
  case True
  then have "length (take k f) < 4" by simp
  then show ?thesis by (simp only: read_frame_def if_True simp_thms)
next
  case False
  from encode_frame_body[OF enc fits] obtain body where b:
    "f = u32_to_le (of_nat (length body)) @ body" "length body \<le> 1048576"
    "unat (of_nat (length body) :: u32) = length body"
    by blast
  have "\<not> max_frame_len < of_nat (length body)"
    using b(2,3) by (simp add: word_less_nat_alt max_frame_len_nat)
  moreover have "take k f = u32_to_le (of_nat (length body)) @ take (k - 4) body"
    using False b(1) by simp
  moreover have "k - 4 < length body" using cut b(1) False by simp
  ultimately show ?thesis using b(1,3) by (simp add: read_frame_def Let_def)
qed

lemma read_link_prefix:
  assumes ok: "codec_inverse ser de" and fits: "fits_memory ser" and "encode_all ser ms = Some stream"
  shows "\<exists>j e. read_link de (take k stream) = (take j ms, e) \<and> e \<in> {None, Some Truncated}
    \<and> (length stream \<le> k \<longrightarrow> j = length ms \<and> e = None)"
  using assms(3)
proof (induction ms arbitrary: stream k)
  case Nil
  then show ?case by (simp add: read_link.simps read_frame_def)
next
  case (Cons m ms)
  then obtain f fs where f: "encode_frame ser m = Inr f" and fs: "encode_all ser ms = Some fs"
    and s: "stream = f @ fs"
    by (auto split: sum.splits option.splits)
  show ?case
  proof (cases "k < length f")
    case True
    then have "take k stream = take k f" using s by simp
    moreover have "read_link de (take k f) = ([], None) \<or> read_link de (take k f) = ([], Some Truncated)"
      using read_frame_cut[OF fits f True, of de] by (auto simp: read_link.simps[of de "take k f"])
    ultimately show ?thesis using True s by (intro exI[of _ "0::nat"]) auto
  next
    case False
    then have cut: "take k stream = f @ take (k - length f) fs" using s by simp
    from Cons.IH[OF fs, of "k - length f"] obtain j e where
      r: "read_link de (take (k - length f) fs) = (take j ms, e)" "e \<in> {None, Some Truncated}"
        "length fs \<le> k - length f \<longrightarrow> j = length ms \<and> e = None"
      by blast
    have "read_link de (take k stream) = (take (Suc j) (m # ms), e)"
      using r(1) by (simp add: cut read_link.simps[of de "f @ _"] read_frame_encoded[OF ok fits f])
    then show ?thesis using r(2,3) s False by (intro exI[of _ "Suc j"] exI[of _ e]) auto
  qed
qed

text \<open>
  C22: framing. Whatever messages a writer frames onto a link, the reader gets exactly these
  messages in this order and then the end of the link; if the link is cut after any number of
  bytes, it gets a prefix of them and never a message that was not sent.
\<close>

theorem link_frames_roundtrip:
  assumes "codec_inverse ser de" and "fits_memory ser" and "encode_all ser ms = Some stream"
  shows "read_link de stream = (ms, None)
    \<and> (\<exists>j e. read_link de (take k stream) = (take j ms, e) \<and> e \<in> {None, Some Truncated})"
  using read_link_prefix[OF assms, of "length stream"] read_link_prefix[OF assms, of k] by auto

definition raw_ser :: "bytes serializer" where
  "raw_ser bs = (if length bs < 2 ^ 64 then Some bs else None)"

lemma raw_codec: "codec_inverse raw_ser Some" "fits_memory raw_ser"
  by (simp_all add: codec_inverse_def fits_memory_def raw_ser_def)

theorem link_frames_roundtrip_witness:
  "\<exists>stream. encode_all raw_ser [[1, 2], [], [3]] = Some stream \<and> read_link Some stream = ([[1, 2], [], [3]], None)"
proof -
  have "encode_all raw_ser [[1, 2], [], [3]] \<noteq> None"
    by (simp add: encode_frame_def raw_ser_def max_frame_len_def)
  then obtain stream where "encode_all raw_ser [[1, 2], [], [3]] = Some stream" by blast
  then show ?thesis using link_frames_roundtrip[OF raw_codec] by blast
qed

text \<open>
  The reader's memory. A frame whose length is over the limit is refused before its body
  is read, and a frame that is accepted used at most the limit and exactly its length.
\<close>

lemma read_frame_bounded:
  assumes "read_frame de stream = (Inr (Some m), rest)"
  shows "\<exists>body. stream = take 4 stream @ body @ rest \<and> length body \<le> 1048576
    \<and> length body = unat (u32_from_le (take 4 stream)) \<and> de body = Some m"
proof -
  let ?n = "unat (u32_from_le (take 4 stream))" and ?r = "drop 4 stream"
  have h: "\<not> max_frame_len < u32_from_le (take 4 stream)" "\<not> length ?r < ?n"
    "de (take ?n ?r) = Some m" "rest = drop ?n ?r"
    using assms by (auto simp: read_frame_def Let_def split: if_splits option.splits)
  then have "?n \<le> 1048576"
    using max_frame_len_nat by (simp add: word_less_nat_alt)
  moreover have "stream = take 4 stream @ take ?n ?r @ drop ?n ?r"
    by (simp only: append_take_drop_id)
  ultimately show ?thesis using h by (intro exI[of _ "take ?n ?r"]) (simp add: min_absorb2)
qed

lemma read_frame_bounded_witness:
  "\<exists>body. [2, 0, 0, 0, 7, 8, 9 :: u8] = [2, 0, 0, 0] @ body @ [9] \<and> length body \<le> 1048576"
proof -
  have "read_frame Some [2, 0, 0, 0, 7, 8, 9] = (Inr (Some [7, 8]), [9])"
    by (simp add: read_frame_def u32_from_le_def max_frame_len_def Let_def)
  from read_frame_bounded[OF this] show ?thesis by (simp del: append.simps) auto
qed

end
