(* ===== verification/Transport.thy ===== *)
theory Transport
  imports Frames "HOL-Library.Sublist"
begin

text \<open>
  Outbound peer links (\<^verbatim>\<open>PeerLinks\<close>, \<^verbatim>\<open>PeerLoss\<close> and \<^verbatim>\<open>write_to_peer\<close>,
  \<^verbatim>\<open>src/transport.rs\<close>): the queue per peer, the address book, deliberate disconnects, and the
  writer task that drains a queue onto a stream.

  The QUIC endpoint is not part of the repository. Whether a connection opens and whether a
  write succeeds is a script of outcomes the writer consumes; the broadcast channel of losses
  is the log of what was sent on it. A channel holds every frame ever queued on it.
\<close>

section \<open>State\<close>

record ('n, 'a) peer_links =
  local_addr :: "('n, 'a) endpoint_addr"
  link_map :: "('n, nat) hmap"
  known :: "('n, ('n, 'a) endpoint_addr) hmap"
  channels :: "nat \<Rightarrow> bytes list"
  next_channel :: nat
  writers :: "(nat \<times> 'n \<times> ('n, 'a) endpoint_addr) list"
  losses :: "'n list"

definition peer_links_new :: "('n, 'a) endpoint_addr \<Rightarrow> ('n, 'a) peer_links" where
  "peer_links_new addr =
     \<lparr>local_addr = addr, link_map = [], known = [], channels = (\<lambda>_. []), next_channel = 0,
      writers = [], losses = []\<rparr>"

definition announce_lost :: "'n \<Rightarrow> ('n, 'a) peer_links \<Rightarrow> ('n, 'a) peer_links" where
  "announce_lost n pl = pl\<lparr>losses := losses pl @ [n]\<rparr>"

section \<open>Addresses\<close>

definition remember :: "('n, 'a) endpoint_addr \<Rightarrow> ('n, 'a) peer_links \<Rightarrow> ('n, 'a) peer_links" where
  "remember addr pl =
     (if addrs addr = [] then pl else pl\<lparr>known := hm_insert (addr_id addr) addr (known pl)\<rparr>)"

datatype 'a incoming_addr = InIp 'a | InRelay 'a | InCustom

definition remember_incoming ::
  "'n \<Rightarrow> 'a incoming_addr \<Rightarrow> ('n, 'a) peer_links \<Rightarrow> ('n, 'a) peer_links" where
  "remember_incoming n addr pl =
     (case (case addr of InIp a \<Rightarrow> Some a | InRelay a \<Rightarrow> Some a | InCustom \<Rightarrow> None) of
        None \<Rightarrow> pl
      | Some t \<Rightarrow>
          pl\<lparr>known :=
               (if hm_has (known pl) n
                then hm_modify n (\<lambda>a. a\<lparr>addrs := hs_insert t (addrs a)\<rparr>) (known pl)
                else hm_insert n \<lparr>addr_id = n, addrs = [t]\<rparr> (known pl))\<rparr>)"

definition our_addr :: "('n, 'a) peer_links \<Rightarrow> ('n, 'a) endpoint_addr" where
  "our_addr pl = local_addr pl"

definition dial_target :: "('n, 'a) peer_links \<Rightarrow> 'n \<Rightarrow> ('n, 'a) endpoint_addr" where
  "dial_target pl n =
     (case hm_get (known pl) n of Some a \<Rightarrow> a | None \<Rightarrow> \<lparr>addr_id = n, addrs = []\<rparr>)"

definition addrs_for :: "('n, 'a) peer_links \<Rightarrow> 'n list \<Rightarrow> ('n, 'a) endpoint_addr list" where
  "addrs_for pl ns = List.map_filter (hm_get (known pl)) ns"

section \<open>Queues\<close>

definition link_to :: "'n \<Rightarrow> ('n, 'a) peer_links \<Rightarrow> nat \<times> ('n, 'a) peer_links" where
  "link_to n pl =
     (case hm_get (link_map pl) n of
        Some ch \<Rightarrow> (ch, pl)
      | None \<Rightarrow>
          (let ch = next_channel pl
           in (ch, pl\<lparr>link_map := hm_insert n ch (link_map pl), next_channel := Suc ch,
                      channels := (channels pl)(ch := []),
                      writers := writers pl @ [(ch, n, dial_target pl n)]\<rparr>)))"

definition peer_send ::
  "('n, 'a) peer_message serializer \<Rightarrow> 'n \<Rightarrow> ('n, 'a) peer_message \<Rightarrow> ('n, 'a) peer_links
     \<Rightarrow> (frame_error + unit) \<times> ('n, 'a) peer_links" where
  "peer_send ser n msg pl =
     (case encode_frame ser msg of
        Inl e \<Rightarrow> (Inl e, pl)
      | Inr frame \<Rightarrow>
          (let (ch, pl1) = link_to n pl
           in (Inr (), pl1\<lparr>channels := (channels pl1)(ch := channels pl1 ch @ [frame])\<rparr>)))"

definition disconnect :: "'n \<Rightarrow> ('n, 'a) peer_links \<Rightarrow> ('n, 'a) peer_links" where
  "disconnect n pl = announce_lost n (pl\<lparr>link_map := hm_remove n (link_map pl)\<rparr>)"

section \<open>The writer task\<close>

record writer =
  has_stream :: bool
  streams_opened :: nat
  delivered :: "(nat \<times> bytes) list"  \<comment> \<open>what was written, and on which stream\<close>
  dropped :: "bytes list"
  reported :: nat                     \<comment> \<open>losses announced by the writer\<close>

definition writer_new :: writer where
  "writer_new = \<lparr>has_stream = False, streams_opened = 0, delivered = [], dropped = [], reported = 0\<rparr>"

text \<open>The next outcome of an I/O operation; a script that has run out fails.\<close>

definition next_io :: "bool list \<Rightarrow> bool \<times> bool list" where
  "next_io io = (case io of [] \<Rightarrow> (False, []) | ok # rest \<Rightarrow> (ok, rest))"

definition open_stream :: "writer \<Rightarrow> bool list \<Rightarrow> bool \<times> writer \<times> bool list" where
  "open_stream w io =
     (if has_stream w then (True, w, io)
      else (let (ok, io1) = next_io io
            in if ok then (True, w\<lparr>has_stream := True, streams_opened := Suc (streams_opened w)\<rparr>, io1)
               else (False, w, io1)))"

text \<open>\<^verbatim>\<open>for attempt in 0..2\<close>, counting the attempts that are left.\<close>

fun write_attempts :: "nat \<Rightarrow> bytes \<Rightarrow> writer \<Rightarrow> bool list \<Rightarrow> writer \<times> bool list" where
  "write_attempts 0 frame w io = (w, io)"
| "write_attempts (Suc left) frame w io =
     (case open_stream w io of
        (False, w1, io1) \<Rightarrow> (w1\<lparr>dropped := dropped w1 @ [frame]\<rparr>, io1)
      | (True, w1, io1) \<Rightarrow>
          (case next_io io1 of
             (True, io2) \<Rightarrow> (w1\<lparr>delivered := delivered w1 @ [(streams_opened w1, frame)]\<rparr>, io2)
           | (False, io2) \<Rightarrow>
               (let w2 = w1\<lparr>has_stream := False\<rparr>
                in if left = 0
                   then (w2\<lparr>dropped := dropped w2 @ [frame], reported := Suc (reported w2)\<rparr>, io2)
                   else write_attempts left frame w2 io2)))"

fun write_to_peer :: "bytes list \<Rightarrow> writer \<Rightarrow> bool list \<Rightarrow> writer \<times> bool list" where
  "write_to_peer [] w io = (w, io)"
| "write_to_peer (frame # frames) w io =
     (let (w1, io1) = write_attempts 2 frame w io in write_to_peer frames w1 io1)"

section \<open>Order on a link\<close>

definition links_inv :: "('n, 'a) peer_links \<Rightarrow> bool" where
  "links_inv pl \<longleftrightarrow>
     distinct (map fst (writers pl)) \<and> (\<forall>(ch, _, _) \<in> set (writers pl). ch < next_channel pl) \<and>
     (\<forall>n ch. hm_get (link_map pl) n = Some ch \<longrightarrow> (\<exists>d. (ch, n, d) \<in> set (writers pl)))"

lemma links_inv_new: "links_inv (peer_links_new addr)"
  by (simp add: links_inv_def peer_links_new_def)

lemma links_invD:
  "links_inv pl \<Longrightarrow> hm_get (link_map pl) n = Some ch \<Longrightarrow> \<exists>d. (ch, n, d) \<in> set (writers pl)"
  by (simp add: links_inv_def)

lemma one_writer:
  assumes "links_inv pl" and "(ch, x) \<in> set (writers pl)" and "(ch, y) \<in> set (writers pl)"
  shows "x = y"
proof -
  have "inj_on fst (set (writers pl))" using assms(1) by (simp add: links_inv_def distinct_map)
  from inj_onD[OF this, of "(ch, x)" "(ch, y)"] assms(2,3) show ?thesis by simp
qed

lemma links_inv_link_to:
  assumes "links_inv pl" and "link_to n pl = (ch, pl')"
  shows "links_inv pl' \<and> hm_get (link_map pl') n = Some ch
    \<and> (\<forall>m. m \<noteq> n \<longrightarrow> hm_get (link_map pl') m = hm_get (link_map pl) m)
    \<and> (\<forall>c. c \<noteq> ch \<longrightarrow> channels pl' c = channels pl c)"
proof (cases "hm_get (link_map pl) n")
  case (Some c)
  with assms show ?thesis by (auto simp: link_to_def)
next
  case None
  then have ch: "ch = next_channel pl" and pl': "pl' = pl\<lparr>link_map := hm_insert n ch (link_map pl),
      next_channel := Suc ch, channels := (channels pl)(ch := []),
      writers := writers pl @ [(ch, n, dial_target pl n)]\<rparr>"
    using assms(2) by (auto simp: link_to_def Let_def)
  have "ch \<notin> set (map fst (writers pl))" using assms(1) ch by (auto simp: links_inv_def)
  moreover have "\<forall>(c, _, _) \<in> set (writers pl). c < Suc ch"
    using assms(1) ch by (auto simp: links_inv_def less_Suc_eq)
  moreover have "\<exists>d. (c, m, d) \<in> set (writers pl')" if "hm_get (link_map pl') m = Some c" for m c
  proof (cases "m = n")
    case False
    then have "hm_get (link_map pl) m = Some c" using that pl' by simp
    from links_invD[OF assms(1) this] show ?thesis using pl' by auto
  qed (use that pl' in auto)
  ultimately show ?thesis
    using assms(1) unfolding links_inv_def by (simp add: pl')
qed

lemma links_inv_frame:
  "links_inv pl \<Longrightarrow> links_inv (pl\<lparr>channels := c\<rparr>)"
  "links_inv pl \<Longrightarrow> links_inv (pl\<lparr>losses := l\<rparr>)"
  "links_inv pl \<Longrightarrow> links_inv (pl\<lparr>known := k\<rparr>)"
  by (simp_all add: links_inv_def)

lemma links_inv_send: "links_inv pl \<Longrightarrow> links_inv (snd (peer_send ser n msg pl))"
  by (auto simp: peer_send_def links_inv_frame dest: links_inv_link_to split: sum.splits prod.splits)

lemma links_inv_disconnect: "links_inv pl \<Longrightarrow> links_inv (disconnect n pl)"
  by (auto simp: disconnect_def announce_lost_def links_inv_def)

lemma links_inv_remember: "links_inv pl \<Longrightarrow> links_inv (remember a pl)"
  by (simp add: remember_def links_inv_frame)

lemma links_inv_incoming: "links_inv pl \<Longrightarrow> links_inv (remember_incoming n a pl)"
  by (cases a) (simp_all add: remember_incoming_def links_inv_frame)

text \<open>A run of operations on the links of a node.\<close>

datatype ('n, 'a) link_op =
    LSend 'n "('n, 'a) peer_message"
  | LRemember "('n, 'a) endpoint_addr"
  | LIncoming 'n "'a incoming_addr"
  | LDisconnect 'n

definition link_apply ::
  "('n, 'a) peer_message serializer \<Rightarrow> ('n, 'a) peer_links \<Rightarrow> ('n, 'a) link_op \<Rightarrow> ('n, 'a) peer_links" where
  "link_apply ser pl op =
     (case op of LSend n m \<Rightarrow> snd (peer_send ser n m pl) | LRemember a \<Rightarrow> remember a pl
      | LIncoming n a \<Rightarrow> remember_incoming n a pl | LDisconnect n \<Rightarrow> disconnect n pl)"

lemma links_inv_apply: "links_inv pl \<Longrightarrow> links_inv (link_apply ser pl op)"
  by (cases op)
    (auto simp: link_apply_def links_inv_send links_inv_remember links_inv_incoming links_inv_disconnect)

lemma links_inv_run: "links_inv pl \<Longrightarrow> links_inv (foldl (link_apply ser) pl ops)"
  by (induction ops arbitrary: pl) (auto simp: links_inv_apply)

text \<open>The messages for one node, framed, as far as they can be encoded.\<close>

definition frames_for ::
  "('n, 'a) peer_message serializer \<Rightarrow> 'n \<Rightarrow> ('n, 'a) link_op list \<Rightarrow> bytes list" where
  "frames_for ser n ops =
     List.map_filter (\<lambda>op. case op of
         LSend m msg \<Rightarrow> if m = n then (case encode_frame ser msg of Inr f \<Rightarrow> Some f | Inl _ \<Rightarrow> None) else None
       | _ \<Rightarrow> None) ops"

lemma frames_for_simps [simp]:
  "frames_for ser n [] = []"
  "frames_for ser n (op # ops) =
     (case op of
        LSend m msg \<Rightarrow> if m = n then (case encode_frame ser msg of Inr f \<Rightarrow> [f] | Inl _ \<Rightarrow> []) else []
      | _ \<Rightarrow> []) @ frames_for ser n ops"
  by (auto simp: frames_for_def List.map_filter_def split: link_op.splits sum.splits)

lemma peer_send_open:
  assumes inv: "links_inv pl" and ch: "hm_get (link_map pl) n = Some ch"
  shows "hm_get (link_map (snd (peer_send ser m msg pl))) n = Some ch
    \<and> channels (snd (peer_send ser m msg pl)) ch = channels pl ch @ frames_for ser n [LSend m msg]"
proof (cases "encode_frame ser msg")
  case (Inr frame)
  obtain c pl1 where l: "link_to m pl = (c, pl1)" by fastforce
  show ?thesis
  proof (cases "m = n")
    case True
    then have "c = ch" "pl1 = pl" using l ch by (auto simp: link_to_def)
    with True Inr l ch show ?thesis by (simp add: peer_send_def)
  next
    case False
    from links_inv_link_to[OF inv l] have keep: "hm_get (link_map pl1) n = Some ch"
      "hm_get (link_map pl1) m = Some c" "links_inv pl1" "\<And>x. x \<noteq> c \<Longrightarrow> channels pl1 x = channels pl x"
      using ch False by auto
    have "c \<noteq> ch"
    proof
      assume "c = ch"
      with links_invD[OF keep(3,1)] links_invD[OF keep(3,2)] show False
        using one_writer[OF keep(3)] False by blast
    qed
    with keep False Inr l show ?thesis by (simp add: peer_send_def)
  qed
qed (use ch in \<open>simp add: peer_send_def\<close>)

lemma link_open_run:
  assumes "links_inv pl" and "hm_get (link_map pl) n = Some ch" and "LDisconnect n \<notin> set ops"
  shows "hm_get (link_map (foldl (link_apply ser) pl ops)) n = Some ch
    \<and> channels (foldl (link_apply ser) pl ops) ch = channels pl ch @ frames_for ser n ops"
  using assms
proof (induction ops arbitrary: pl)
  case (Cons op ops)
  have step: "hm_get (link_map (link_apply ser pl op)) n = Some ch
      \<and> channels (link_apply ser pl op) ch = channels pl ch @ frames_for ser n [op]"
  proof (cases op)
    case (LSend m msg)
    with peer_send_open[OF Cons.prems(1,2), of ser m msg] show ?thesis by (simp add: link_apply_def)
  qed (use Cons.prems in \<open>auto simp: link_apply_def remember_def remember_incoming_def disconnect_def
        announce_lost_def split: incoming_addr.splits\<close>)
  moreover have "frames_for ser n (op # ops) = frames_for ser n [op] @ frames_for ser n ops" by simp
  ultimately show ?case
    using Cons.IH[OF links_inv_apply[OF Cons.prems(1)]] Cons.prems(3) by simp
qed simp

subsection \<open>What a writer makes of its queue\<close>

lemma open_stream_spec:
  "open_stream w io = (ok, w1, io1) \<Longrightarrow>
   delivered w1 = delivered w \<and> dropped w1 = dropped w \<and> reported w1 = reported w
   \<and> streams_opened w \<le> streams_opened w1 \<and> (ok \<longrightarrow> has_stream w1 \<and> (has_stream w \<or> 0 < streams_opened w1))"
  by (auto simp: open_stream_def Let_def split: if_splits prod.splits)

text \<open>One frame is written once or dropped once, never both, on the latest stream.\<close>

definition wrote :: "writer \<Rightarrow> bytes \<Rightarrow> writer \<Rightarrow> bool" where
  "wrote w f w' \<longleftrightarrow>
     streams_opened w \<le> streams_opened w' \<and>
     ((delivered w' = delivered w @ [(streams_opened w', f)] \<and> dropped w' = dropped w
         \<and> reported w' = reported w)
      \<or> (delivered w' = delivered w \<and> dropped w' = dropped w @ [f] \<and>
         (reported w' = reported w \<or> (reported w' = Suc (reported w) \<and> 0 < streams_opened w')))) \<and>
     (has_stream w' \<longrightarrow> 0 < streams_opened w')"

definition stream_ok :: "writer \<Rightarrow> bool" where
  "stream_ok w \<longleftrightarrow> (has_stream w \<longrightarrow> 0 < streams_opened w)"

lemma write_attempts_wrote:
  "stream_ok w \<Longrightarrow> write_attempts (Suc left) f w io = (w', io') \<Longrightarrow> wrote w f w'"
proof (induction left arbitrary: w io)
  case (0 w io)
  obtain ok w1 io1 where o: "open_stream w io = (ok, w1, io1)" by (metis prod_cases3)
  obtain ok2 io2 where n: "next_io io1 = (ok2, io2)" by fastforce
  note spec = open_stream_spec[OF o]
  have pos: "ok \<longrightarrow> 0 < streams_opened w1"
    using spec 0(1) less_le_trans unfolding stream_ok_def by blast
  have "ok \<or> w1 = w" using o by (auto simp: open_stream_def Let_def split: if_splits prod.splits)
  moreover have "w' = (if \<not> ok then w1\<lparr>dropped := dropped w1 @ [f]\<rparr>
      else if ok2 then w1\<lparr>delivered := delivered w1 @ [(streams_opened w1, f)]\<rparr>
      else w1\<lparr>has_stream := False, dropped := dropped w1 @ [f], reported := Suc (reported w1)\<rparr>)"
    using 0(2) o n by (cases ok; cases ok2) simp_all
  ultimately show ?case
    using 0(1) spec pos by (cases ok; cases ok2) (simp_all add: wrote_def stream_ok_def)
next
  case (Suc left w io)
  obtain ok w1 io1 where o: "open_stream w io = (ok, w1, io1)" by (metis prod_cases3)
  obtain ok2 io2 where n: "next_io io1 = (ok2, io2)" by fastforce
  note spec = open_stream_spec[OF o]
  have pos: "ok \<longrightarrow> 0 < streams_opened w1"
    using spec Suc.prems(1) less_le_trans unfolding stream_ok_def by blast
  have id: "ok \<or> w1 = w" using o by (auto simp: open_stream_def Let_def split: if_splits prod.splits)
  show ?case
  proof (cases "ok \<and> \<not> ok2")
    case True
    have "wrote (w1\<lparr>has_stream := False\<rparr>) f w'"
      using Suc.prems(2) o n True by (intro Suc.IH[of _ io2]) (simp_all add: stream_ok_def)
    with spec show ?thesis by (simp add: wrote_def)
  next
    case False
    then have "w' = (if \<not> ok then w1\<lparr>dropped := dropped w1 @ [f]\<rparr>
      else w1\<lparr>delivered := delivered w1 @ [(streams_opened w1, f)]\<rparr>)"
      using Suc.prems(2) o n by (cases ok; cases ok2) simp_all
    with Suc.prems(1) spec id pos show ?thesis
      by (cases ok) (simp_all add: wrote_def stream_ok_def)
  qed
qed

lemma write_to_peer_spec:
  assumes "stream_ok w" and "write_to_peer fs w io = (w', io')"
    and "sorted (map fst (delivered w)) \<and> (\<forall>x \<in> set (delivered w). fst x \<le> streams_opened w)"
  shows "stream_ok w' \<and> (\<exists>ds. delivered w' = delivered w @ ds \<and> subseq (map snd ds) fs
      \<and> length fs + length (dropped w) = length ds + length (dropped w'))
    \<and> sorted (map fst (delivered w')) \<and> (\<forall>x \<in> set (delivered w'). fst x \<le> streams_opened w')
    \<and> reported w' + length (dropped w) \<le> reported w + length (dropped w')
    \<and> (reported w' \<noteq> reported w \<longrightarrow> 0 < streams_opened w') \<and> streams_opened w \<le> streams_opened w'"
  using assms
proof (induction fs arbitrary: w io)
  case Nil
  then show ?case by (intro conjI exI[of _ "[]"]) auto
next
  case (Cons f fs)
  obtain w1 io1 where a: "write_attempts 2 f w io = (w1, io1)" by fastforce
  then have wr: "wrote w f w1"
    using write_attempts_wrote[OF Cons.prems(1), of 1 f io] by (simp add: numeral_2_eq_2)
  have rest: "write_to_peer fs w1 io1 = (w', io')" using Cons.prems(2) a by simp
  have "stream_ok w1" using wr by (simp add: wrote_def stream_ok_def)
  moreover have srt: "sorted (map fst (delivered w1)) \<and> (\<forall>x \<in> set (delivered w1). fst x \<le> streams_opened w1)"
    using wr Cons.prems(3) by (fastforce simp: wrote_def sorted_append)
  ultimately have IH: "stream_ok w' \<and> (\<exists>ds. delivered w' = delivered w1 @ ds \<and> subseq (map snd ds) fs
      \<and> length fs + length (dropped w1) = length ds + length (dropped w'))
    \<and> sorted (map fst (delivered w')) \<and> (\<forall>x \<in> set (delivered w'). fst x \<le> streams_opened w')
    \<and> reported w' + length (dropped w1) \<le> reported w1 + length (dropped w')
    \<and> (reported w' \<noteq> reported w1 \<longrightarrow> 0 < streams_opened w') \<and> streams_opened w1 \<le> streams_opened w'"
    using rest by (intro Cons.IH)
  then obtain ds where ds: "delivered w' = delivered w1 @ ds" "subseq (map snd ds) fs"
      "length fs + length (dropped w1) = length ds + length (dropped w')"
    by blast
  have "\<exists>ds. delivered w' = delivered w @ ds \<and> subseq (map snd ds) (f # fs)
      \<and> length (f # fs) + length (dropped w) = length ds + length (dropped w')"
  proof (cases "delivered w1 = delivered w")
    case True
    with wr ds show ?thesis by (intro exI[of _ ds]) (auto simp: wrote_def intro: list_emb_Cons)
  next
    case False
    with wr ds show ?thesis
      by (intro exI[of _ "(streams_opened w1, f) # ds"]) (auto simp: wrote_def)
  qed
  with IH wr show ?case by (auto simp: wrote_def)
qed

text \<open>
  C23: order across the node boundary. While the link to a node is not taken down, whatever
  else is sent or learned, everything sent to that node is queued in send order on one
  channel that exactly one writer drains; and whatever the network does, that writer writes a
  subsequence of its queue in order, each frame at most once and on streams opened one after
  the other, drops the rest, and announces the peer lost only for a frame it dropped after it
  had once reached the peer.
\<close>

theorem link_order:
  assumes "pl = foldl (link_apply ser) (peer_links_new addr) before"
    and "hm_get (link_map pl) n = Some ch" and "LDisconnect n \<notin> set ops"
    and "pl' = foldl (link_apply ser) pl ops"
    and "write_to_peer (channels pl' ch) writer_new io = (w, io')"
  shows "channels pl' ch = channels pl ch @ frames_for ser n ops
    \<and> (\<exists>!x. x \<in> set (writers pl') \<and> fst x = ch) \<and> (\<exists>d. (ch, n, d) \<in> set (writers pl'))
    \<and> subseq (map snd (delivered w)) (channels pl' ch)
    \<and> length (delivered w) + length (dropped w) = length (channels pl' ch)
    \<and> sorted (map fst (delivered w))
    \<and> reported w \<le> length (dropped w) \<and> (0 < reported w \<longrightarrow> 0 < streams_opened w)"
proof -
  have inv: "links_inv pl" and inv': "links_inv pl'"
    using links_inv_run[OF links_inv_new] assms(1,4) links_inv_run by blast+
  have q: "hm_get (link_map pl') n = Some ch \<and> channels pl' ch = channels pl ch @ frames_for ser n ops"
    using link_open_run[OF inv assms(2,3)] assms(4) by simp
  then obtain d where d: "(ch, n, d) \<in> set (writers pl')" using links_invD[OF inv'] by blast
  then have "\<exists>!x. x \<in> set (writers pl') \<and> fst x = ch"
    using one_writer[OF inv'] by (intro ex1I[of _ "(ch, n, d)"]) auto
  moreover have "stream_ok writer_new" "delivered writer_new = []" "dropped writer_new = []" "reported writer_new = 0"
    by (simp_all add: stream_ok_def writer_new_def)
  with write_to_peer_spec[OF _ assms(5)]
  have "subseq (map snd (delivered w)) (channels pl' ch)
    \<and> length (delivered w) + length (dropped w) = length (channels pl' ch)
    \<and> sorted (map fst (delivered w))
    \<and> reported w \<le> length (dropped w) \<and> (0 < reported w \<longrightarrow> 0 < streams_opened w)"
    by auto
  ultimately show ?thesis using q d by blast
qed

definition unit_ser :: "(nat, nat) peer_message serializer" where
  "unit_ser m = (case m of PDemonitor _ r \<Rightarrow> Some [ucast r] | PRemoveConnection n \<Rightarrow> Some [of_nat n, 0]
     | _ \<Rightarrow> None)"

theorem link_order_witness:
  "\<exists>w io'. write_to_peer [[1, 0, 0, 0, 7], [1, 0, 0, 0, 8]] writer_new [True, True, False, True, True] = (w, io')
     \<and> map snd (delivered w) = [[1, 0, 0, 0, 7], [1, 0, 0, 0, 8]] \<and> sorted (map fst (delivered w))"
proof -
  define op where "op r = (LSend 2 (PDemonitor (Pid 1 1) r) :: (nat, nat) link_op)" for r
  define pl where "pl = foldl (link_apply unit_ser) (peer_links_new \<lparr>addr_id = 1, addrs = []\<rparr>) [op 7]"
  define pl' where "pl' = foldl (link_apply unit_ser) pl [op 8, LIncoming 2 (InIp 9)]"
  have m: "hm_get (link_map pl) 2 = Some 0" unfolding pl_def op_def by code_simp
  have ch: "channels pl' 0 = [[1, 0, 0, 0, 7], [1, 0, 0, 0, 8]]" unfolding pl'_def pl_def op_def by code_simp
  let ?r = "write_to_peer (channels pl' 0) writer_new [True, True, False, True, True]"
  have d: "map snd (delivered (fst ?r)) = [[1, 0, 0, 0, 7], [1, 0, 0, 0, 8]]"
    unfolding ch by code_simp
  have "LDisconnect 2 \<notin> set [op 8, LIncoming 2 (InIp 9)]" by (simp add: op_def)
  from link_order[OF pl_def m this pl'_def prod.collapse[symmetric]]
  have "sorted (map fst (delivered (fst ?r)))" by blast
  with d show ?thesis unfolding ch by (metis prod.collapse)
qed

section \<open>The address book\<close>

definition book_ok :: "('n, 'a) peer_links \<Rightarrow> bool" where
  "book_ok pl \<longleftrightarrow> (\<forall>n a. hm_get (known pl) n = Some a \<longrightarrow> addr_id a = n \<and> addrs a \<noteq> [])"

lemma link_to_known: "known (snd (link_to n pl)) = known pl"
  by (simp add: link_to_def Let_def split: option.splits)

lemma peer_send_known: "known (snd (peer_send ser n m pl)) = known pl"
  using link_to_known[of n pl] by (simp add: peer_send_def split_def Let_def split: sum.splits)

lemma book_step:
  assumes "book_ok pl"
  shows "book_ok (link_apply ser pl op)
    \<and> (hm_get (known pl) n \<noteq> None \<longrightarrow> hm_get (known (link_apply ser pl op)) n \<noteq> None)"
proof (cases op)
  case (LIncoming m a)
  have ne: "hs_insert t xs \<noteq> []" for t and xs :: "'b list" by (auto simp: hs_insert_def)
  show ?thesis
  proof (cases a)
    case InCustom
    with LIncoming assms show ?thesis by (simp add: link_apply_def remember_incoming_def)
  qed (use assms LIncoming ne in
      \<open>auto simp: link_apply_def remember_incoming_def book_ok_def split: if_splits\<close>)
qed (use assms in \<open>auto simp: link_apply_def book_ok_def remember_def disconnect_def announce_lost_def
      peer_send_known split: if_splits\<close>)

lemma book_run:
  "book_ok pl \<Longrightarrow> book_ok (foldl (link_apply ser) pl ops)
     \<and> (hm_get (known pl) n \<noteq> None \<longrightarrow> hm_get (known (foldl (link_apply ser) pl ops)) n \<noteq> None)"
proof (induction ops arbitrary: pl)
  case (Cons op ops)
  with book_step[OF Cons.prems, of ser op n] show ?case by simp
qed simp

text \<open>
  Learned addresses are usable but replaceable. Every address the book holds belongs to
  its node and has at least one transport address, so a dial of a node it knows needs no
  lookup, and no operation ever forgets how to reach a node. What it does not do is
  accumulate: an announced address replaces everything known before, the path the peer itself
  came in on included.
\<close>

lemma address_book:
  assumes "pl = foldl (link_apply ser) (peer_links_new addr) ops"
  shows "addr_id (dial_target pl n) = n
    \<and> (hm_get (known pl) n \<noteq> None \<longrightarrow> addrs (dial_target pl n) \<noteq> [])
    \<and> (hm_get (known pl) n \<noteq> None \<longrightarrow> hm_get (known (link_apply ser pl op)) n \<noteq> None)
    \<and> (addrs a \<noteq> [] \<longrightarrow> dial_target (remember a pl) (addr_id a) = a)
    \<and> t \<in> set (addrs (dial_target (remember_incoming n (InIp t) pl) n))"
proof -
  have "book_ok pl"
    using book_run[of "peer_links_new addr" ser ops] assms by (simp add: book_ok_def peer_links_new_def)
  then show ?thesis
    using book_step[of pl ser op n]
    by (auto simp: book_ok_def dial_target_def remember_def remember_incoming_def hm_has_iff
        split: option.splits)
qed

lemma address_book_witness:
  "7 \<notin> set (addrs (dial_target (remember \<lparr>addr_id = 2, addrs = [8]\<rparr>
      (remember_incoming 2 (InIp 7) (peer_links_new \<lparr>addr_id = 1 :: nat, addrs = [] :: nat list\<rparr>))) 2))"
proof -
  define pl where "pl = foldl (link_apply unit_ser) (peer_links_new \<lparr>addr_id = 1, addrs = []\<rparr>) [LIncoming 2 (InIp 7)]"
  have pl: "pl = remember_incoming 2 (InIp 7) (peer_links_new \<lparr>addr_id = 1, addrs = []\<rparr>)"
    by (simp add: pl_def link_apply_def)
  from address_book[OF pl_def, where n = 2 and a = "\<lparr>addr_id = 2, addrs = [8]\<rparr>"]
  have "dial_target (remember \<lparr>addr_id = 2, addrs = [8]\<rparr> pl) 2 = \<lparr>addr_id = 2, addrs = [8]\<rparr>" by simp
  then show ?thesis by (simp add: pl)
qed

end
