(* ===== verification/Clusters.thy ===== *)
theory Clusters
  imports Transport
begin

text \<open>
  Membership (\<^verbatim>\<open>src/cluster.rs\<close>, \<^verbatim>\<open>src/cluster_reactor.rs\<close>): the roster of a node, the
  quarantine that keeps a deliberately removed node out, and the reactor that follows losses.

  An \<^verbatim>\<open>Instant\<close> is a number of milliseconds and an argument of the operations that read the
  clock. What a broadcast receiver yields is \<open>BcOk\<close>, \<open>BcLagged\<close> or \<open>BcClosed\<close>.
\<close>

definition quarantine_ms :: nat where
  "quarantine_ms = 60000"

record 'n cluster =
  cl_me :: 'n
  members :: "'n list"
  quarantined :: "('n, nat) hmap"

definition cluster_new :: "'n \<Rightarrow> 'n cluster" where
  "cluster_new n = \<lparr>cl_me = n, members = [], quarantined = []\<rparr>"

definition quarantine :: "nat \<Rightarrow> 'n \<Rightarrow> 'n cluster \<Rightarrow> bool \<times> 'n cluster" where
  "quarantine now n cl =
     (n \<in> set (members cl),
      cl\<lparr>quarantined := hm_insert n (now + quarantine_ms) (quarantined cl),
         members := hs_remove n (members cl)\<rparr>)"

definition is_quarantined :: "nat \<Rightarrow> 'n \<Rightarrow> 'n cluster \<Rightarrow> bool \<times> 'n cluster" where
  "is_quarantined now n cl =
     (case hm_get (quarantined cl) n of
        Some until \<Rightarrow>
          if now < until then (True, cl)
          else (False, cl\<lparr>quarantined := hm_remove n (quarantined cl)\<rparr>)
      | None \<Rightarrow> (False, cl))"

definition cl_nodes :: "'n cluster \<Rightarrow> 'n list" where
  "cl_nodes cl = members cl"

definition cl_contains :: "'n cluster \<Rightarrow> 'n \<Rightarrow> bool" where
  "cl_contains cl n \<longleftrightarrow> n \<in> set (members cl)"

fun learn_loop :: "nat \<Rightarrow> 'n list \<Rightarrow> 'n cluster \<Rightarrow> 'n list \<times> 'n cluster" where
  "learn_loop now [] cl = ([], cl)"
| "learn_loop now (n # ns) cl =
     (case is_quarantined now n cl of
        (True, cl1) \<Rightarrow> learn_loop now ns cl1
      | (False, cl1) \<Rightarrow>
          (let known = n \<in> set (members cl1);
               (fresh, cl2) = learn_loop now ns (cl1\<lparr>members := hs_insert n (members cl1)\<rparr>)
           in (if known then fresh else n # fresh, cl2)))"

definition learn :: "nat \<Rightarrow> 'n list \<Rightarrow> 'n cluster \<Rightarrow> 'n list \<times> 'n cluster" where
  "learn now ns cl = learn_loop now (filter (\<lambda>n. n \<noteq> cl_me cl) ns) cl"

definition forget :: "'n \<Rightarrow> 'n cluster \<Rightarrow> bool \<times> 'n cluster" where
  "forget n cl = (n \<in> set (members cl), cl\<lparr>members := hs_remove n (members cl)\<rparr>)"

section \<open>The membership reactor\<close>

datatype 'e bc = BcOk 'e | BcLagged | BcClosed

fun membership_reactor :: "'n bc list \<Rightarrow> 'n cluster \<Rightarrow> 'n cluster" where
  "membership_reactor [] cl = cl"
| "membership_reactor (BcOk n # es) cl = membership_reactor es (snd (forget n cl))"
| "membership_reactor (BcLagged # es) cl = membership_reactor es cl"
| "membership_reactor (BcClosed # es) cl = cl"

section \<open>What learning does\<close>

definition barred :: "nat \<Rightarrow> 'n cluster \<Rightarrow> 'n \<Rightarrow> bool" where
  "barred now cl n \<longleftrightarrow> (\<exists>until. hm_get (quarantined cl) n = Some until \<and> now < until)"

lemma is_quarantined_barred:
  assumes "is_quarantined now n cl = (b, cl')"
  shows "b = barred now cl n" and "barred now cl' m = barred now cl m" and "cl_me cl' = cl_me cl"
    and "members cl' = members cl"
  using assms by (auto simp: is_quarantined_def barred_def split: option.splits if_splits)

lemma learn_loop_spec:
  "learn_loop now ns cl = (fresh, cl') \<Longrightarrow>
   cl_me cl' = cl_me cl \<and> (\<forall>m. barred now cl' m = barred now cl m)
   \<and> set (members cl') = set (members cl) \<union> {n \<in> set ns. \<not> barred now cl n}
   \<and> set fresh = {n \<in> set ns. \<not> barred now cl n} - set (members cl) \<and> distinct fresh
   \<and> (distinct (members cl) \<longrightarrow> distinct (members cl'))"
proof (induction ns arbitrary: cl fresh cl')
  case (Cons n ns)
  obtain b cl1 where q: "is_quarantined now n cl = (b, cl1)" by fastforce
  note q' = is_quarantined_barred[OF q]
  show ?case
  proof (cases b)
    case True
    with Cons.prems q have "learn_loop now ns cl1 = (fresh, cl')" by simp
    from Cons.IH[OF this] q' True show ?thesis by auto
  next
    case False
    let ?cl2 = "cl1\<lparr>members := hs_insert n (members cl1)\<rparr>"
    obtain fr cl3 where r: "learn_loop now ns ?cl2 = (fr, cl3)" by fastforce
    have b2: "barred now ?cl2 m = barred now cl m" for m
      using q'(2) by (simp add: barred_def)
    have out: "cl' = cl3" "fresh = (if n \<in> set (members cl) then fr else n # fr)"
      using Cons.prems q False r q'(4) by (auto simp: Let_def)
    have "\<not> barred now cl n" using q'(1) False by simp
    with Cons.IH[OF r] b2 out q'(3,4) show ?thesis by auto
  qed
qed simp

definition cluster_inv :: "'n cluster \<Rightarrow> bool" where
  "cluster_inv cl \<longleftrightarrow> cl_me cl \<notin> set (members cl) \<and> distinct (members cl)"

lemma cluster_inv_new: "cluster_inv (cluster_new n)"
  by (simp add: cluster_inv_def cluster_new_def)

lemma learn_spec:
  assumes "learn now ns cl = (fresh, cl')"
  shows "cl_me cl' = cl_me cl \<and> (\<forall>m. barred now cl' m = barred now cl m)
    \<and> set (members cl') = set (members cl) \<union> {n \<in> set ns. n \<noteq> cl_me cl \<and> \<not> barred now cl n}
    \<and> set fresh = set (members cl') - set (members cl) \<and> distinct fresh
    \<and> (cluster_inv cl \<longrightarrow> cluster_inv cl')"
  using learn_loop_spec[OF assms[unfolded learn_def]] by (auto simp: cluster_inv_def)

lemma quarantine_spec:
  assumes "quarantine now n cl = (was, cl')"
  shows "cl_me cl' = cl_me cl \<and> set (members cl') = set (members cl) - {n}
    \<and> was = (n \<in> set (members cl)) \<and> barred now cl' n \<and> (cluster_inv cl \<longrightarrow> cluster_inv cl')"
  using assms by (auto simp: quarantine_def barred_def quarantine_ms_def cluster_inv_def)

lemma forget_spec:
  assumes "forget n cl = (was, cl')"
  shows "cl_me cl' = cl_me cl \<and> set (members cl') = set (members cl) - {n}
    \<and> (\<forall>t m. barred t cl' m = barred t cl m) \<and> (cluster_inv cl \<longrightarrow> cluster_inv cl')"
  using assms by (auto simp: forget_def barred_def cluster_inv_def)

section \<open>A roster's history\<close>

datatype 'n cluster_op = CLearn "'n list" | CForget 'n | CQuarantine 'n | CAsk 'n

definition cluster_apply :: "'n cluster \<Rightarrow> nat \<times> 'n cluster_op \<Rightarrow> 'n cluster" where
  "cluster_apply cl e =
     (case e of (now, op) \<Rightarrow>
        (case op of CLearn ns \<Rightarrow> snd (learn now ns cl) | CForget n \<Rightarrow> snd (forget n cl)
         | CQuarantine n \<Rightarrow> snd (quarantine now n cl) | CAsk n \<Rightarrow> snd (is_quarantined now n cl)))"

lemma cluster_inv_is_quarantined:
  "cluster_inv cl \<Longrightarrow> cluster_inv (snd (is_quarantined now n cl))"
  using is_quarantined_barred(3,4)[OF prod.collapse[symmetric], of now n cl]
  by (simp add: cluster_inv_def)

lemma cluster_inv_apply: "cluster_inv cl \<Longrightarrow> cluster_inv (cluster_apply cl e)"
proof -
  assume inv: "cluster_inv cl"
  obtain now op where e: "e = (now, op)" by fastforce
  show ?thesis
  proof (cases op)
    case (CLearn ns)
    then show ?thesis
      using learn_spec[OF prod.collapse[symmetric], of now ns cl] inv e by (simp add: cluster_apply_def)
  next
    case (CForget n)
    then show ?thesis
      using forget_spec[OF prod.collapse[symmetric], of n cl] inv e by (simp add: cluster_apply_def)
  next
    case (CQuarantine n)
    then show ?thesis
      using quarantine_spec[OF prod.collapse[symmetric], of now n cl] inv e by (simp add: cluster_apply_def)
  next
    case (CAsk n)
    then show ?thesis
      using cluster_inv_is_quarantined[OF inv] e by (simp add: cluster_apply_def)
  qed
qed

text \<open>A bar set for a while holds for that while, whatever happens.\<close>

definition barred_until :: "nat \<Rightarrow> 'n cluster \<Rightarrow> 'n \<Rightarrow> bool" where
  "barred_until t cl n \<longleftrightarrow> (\<exists>until. hm_get (quarantined cl) n = Some until \<and> t \<le> until) \<and> n \<notin> set (members cl)"

lemma is_quarantined_keeps:
  "hm_get (quarantined cl) n = Some until \<Longrightarrow> now < until \<Longrightarrow>
   hm_get (quarantined (snd (is_quarantined now m cl))) n = Some until"
  by (auto simp: is_quarantined_def split: option.splits)

lemma learn_loop_quarantined:
  "hm_get (quarantined cl) n = Some until \<Longrightarrow> now < until \<Longrightarrow>
   hm_get (quarantined (snd (learn_loop now ns cl))) n = Some until"
proof (induction ns arbitrary: cl)
  case (Cons m ns)
  obtain b cl1 where q: "is_quarantined now m cl = (b, cl1)" by fastforce
  have "hm_get (quarantined cl1) n = Some until" using is_quarantined_keeps[OF Cons.prems, of m] q by simp
  with Cons.IH Cons.prems(2) q show ?case by (cases b) (auto simp: Let_def split_def)
qed simp

lemma barred_until_apply:
  assumes b: "barred_until t cl n" and now: "fst e < t" and up: "t \<le> fst e + quarantine_ms"
  shows "barred_until t (cluster_apply cl e) n"
proof -
  obtain now op where e: "e = (now, op)" by fastforce
  from b obtain until where q: "hm_get (quarantined cl) n = Some until" "t \<le> until"
    and m: "n \<notin> set (members cl)"
    by (auto simp: barred_until_def)
  have lt: "now < until" using now e q(2) by simp
  then have bar: "barred now cl n" using q(1) by (auto simp: barred_def)
  show ?thesis
  proof (cases op)
    case (CLearn ns)
    have "hm_get (quarantined (snd (learn now ns cl))) n = Some until"
      unfolding learn_def by (rule learn_loop_quarantined[OF q(1) lt])
    moreover have "n \<notin> set (members (snd (learn now ns cl)))"
      using learn_spec[OF prod.collapse[symmetric], of now ns cl] m bar by simp
    ultimately show ?thesis using q(2) CLearn e by (auto simp: barred_until_def cluster_apply_def)
  next
    case (CQuarantine x)
    then show ?thesis using q m up e
      by (auto simp: barred_until_def cluster_apply_def quarantine_def)
  next
    case (CAsk x)
    then show ?thesis
      using is_quarantined_barred(4)[OF prod.collapse[symmetric], of now x cl]
        is_quarantined_keeps[OF q(1) lt, of x] q(2) m e
      by (auto simp: barred_until_def cluster_apply_def)
  next
    case (CForget x)
    then show ?thesis using q m e by (auto simp: barred_until_def cluster_apply_def forget_def)
  qed
qed

end
