(* ===== verification/Global_Names.thy ===== *)
theory Global_Names
  imports Clusters Registry_Laws "HOL-Library.Multiset"
begin

text \<open>
  Cluster-wide names (\<^verbatim>\<open>src/global.rs\<close>): the replicated table of each node, the requests of
  the lock protocol, the claim of a name, and the merge that settles a conflict.

  The tables of all the nodes are one function from nodes to \<open>global_names\<close>; the runtime of
  one node reaches another's table through \<open>ask\<close> only. Of a request to another node either
  nothing arrives, or it is applied and its reply is lost, or both arrive: the list
  \<open>fates\<close> says which, one entry for each request sent (a request past its end arrives). The
  transport itself (\<^verbatim>\<open>ask_remote\<close>: a QUIC stream, and postcard, whose round trip is
  \<open>codec_inverse\<close>) is not modelled further.
\<close>

section \<open>One node's table\<close>

record 'n global_names =
  g_me :: 'n
  g_names :: "(string, 'n pid) hmap"
  g_locks :: "(string, 'n) hmap"
  merges :: nat

datatype 'n claim_error = Taken "'n pid" | AlreadyNamed string | Unsettled

datatype lookup_error = LookupUnsettled

definition global_new :: "'n \<Rightarrow> 'n global_names" where
  "global_new n = \<lparr>g_me = n, g_names = [], g_locks = [], merges = 0\<rparr>"

text \<open>
  The table and the locks are behind two mutexes, and \<^verbatim>\<open>lock\<close> lets go of the first before it
  takes the second; \<open>race\<close> is what other tasks do in between.
\<close>

definition lock_raced ::
  "('n global_names \<Rightarrow> 'n global_names) \<Rightarrow> string \<Rightarrow> 'n \<Rightarrow> 'n global_names
     \<Rightarrow> 'n global_response \<times> 'n global_names" where
  "lock_raced race name holder g =
     (case hm_get (g_names g) name of
        Some p \<Rightarrow> (GTaken p, g)
      | None \<Rightarrow>
          (let g1 = race g
           in (case hm_get (g_locks g1) name of
                 Some h \<Rightarrow>
                   if h \<noteq> holder then (GBusy, g1)
                   else (GLocked, g1\<lparr>g_locks := hm_insert name holder (g_locks g1)\<rparr>)
               | None \<Rightarrow> (GLocked, g1\<lparr>g_locks := hm_insert name holder (g_locks g1)\<rparr>))))"

definition global_lock :: "string \<Rightarrow> 'n \<Rightarrow> 'n global_names \<Rightarrow> 'n global_response \<times> 'n global_names" where
  "global_lock name holder g = lock_raced (\<lambda>g. g) name holder g"

definition global_unlock :: "string \<Rightarrow> 'n \<Rightarrow> 'n global_names \<Rightarrow> 'n global_names" where
  "global_unlock name holder g =
     (if hm_get (g_locks g) name = Some holder then g\<lparr>g_locks := hm_remove name (g_locks g)\<rparr> else g)"

definition global_commit :: "string \<Rightarrow> 'n pid \<Rightarrow> 'n global_names \<Rightarrow> 'n global_names" where
  "global_commit name p g = g\<lparr>g_names := hm_insert name p (g_names g)\<rparr>"

definition global_release :: "string \<Rightarrow> 'n pid \<Rightarrow> 'n global_names \<Rightarrow> bool \<times> 'n global_names" where
  "global_release name p g =
     (if hm_get (g_names g) name = Some p
      then (True, g\<lparr>g_names := hm_remove name (g_names g)\<rparr>) else (False, g))"

definition global_snapshot :: "'n global_names \<Rightarrow> (string \<times> 'n pid) list" where
  "global_snapshot g = g_names g"

definition peek :: "string \<Rightarrow> 'n global_names \<Rightarrow> 'n pid option" where
  "peek name g = hm_get (g_names g) name"

definition name_of :: "'n pid \<Rightarrow> 'n global_names \<Rightarrow> string option" where
  "name_of p g = map_option fst (find (\<lambda>(_, q). q = p) (g_names g))"

section \<open>The merge gate\<close>

definition merge_begin :: "'n global_names \<Rightarrow> 'n global_names" where
  "merge_begin g = g\<lparr>merges := merges g + 1\<rparr>"

definition merge_end :: "'n global_names \<Rightarrow> 'n global_names" where
  "merge_end g = g\<lparr>merges := merges g - 1\<rparr>"

text \<open>
  \<open>settled\<close> waits for the count to reach zero; \<open>seen\<close> are the counts it observes before
  the deadline of ten seconds.
\<close>

definition settled :: "nat list \<Rightarrow> 'n global_names \<Rightarrow> bool" where
  "settled seen g \<longleftrightarrow> merges g = 0 \<or> 0 \<in> set seen"

text \<open>\<open>after\<close> is the table when the wait is over.\<close>

definition global_lookup ::
  "string \<Rightarrow> nat list \<Rightarrow> 'n global_names \<Rightarrow> 'n global_names \<Rightarrow> lookup_error + 'n pid option" where
  "global_lookup name seen g after =
     (if settled seen g then Inr (peek name after) else Inl LookupUnsettled)"

section \<open>A request, and the tables of the cluster\<close>

definition global_apply :: "'n global_request \<Rightarrow> 'n global_names \<Rightarrow> 'n global_response \<times> 'n global_names" where
  "global_apply req g =
     (case req of
        GLock name holder \<Rightarrow> global_lock name holder g
      | GUnlock name holder \<Rightarrow> (GOk, global_unlock name holder g)
      | GCommit name p _ \<Rightarrow> (GOk, global_commit name p g)
      | GRelease name p \<Rightarrow> (GOk, snd (global_release name p g))
      | GSync _ \<Rightarrow> (GNames (global_snapshot g), g))"

datatype fate = Arrives | ReplyLost | NeverArrives

type_synonym 'n tables = "'n \<Rightarrow> 'n global_names"

definition ask_one ::
  "fate \<Rightarrow> 'n \<Rightarrow> 'n \<Rightarrow> 'n global_request \<Rightarrow> 'n tables \<Rightarrow> 'n global_response option \<times> 'n tables" where
  "ask_one d m n req tb =
     (let (reply, g) = global_apply req (tb n)
      in if n = m \<or> d = Arrives then (Some reply, tb(n := g))
         else if d = ReplyLost then (None, tb(n := g))
         else (None, tb))"

record 'n grid =
  tables :: "'n tables"
  fates :: "fate list"

definition next_fate :: "fate list \<Rightarrow> fate" where
  "next_fate ds = (case ds of [] \<Rightarrow> Arrives | d # _ \<Rightarrow> d)"

definition ask ::
  "'n \<Rightarrow> 'n \<Rightarrow> 'n global_request \<Rightarrow> 'n grid \<Rightarrow> 'n global_response option \<times> 'n grid" where
  "ask m n req gr =
     (let (reply, tb) = ask_one (next_fate (fates gr)) m n req (tables gr)
      in (reply, \<lparr>tables = tb, fates = tl (fates gr)\<rparr>))"

definition ask_lock :: "'n \<Rightarrow> 'n \<Rightarrow> string \<Rightarrow> 'n grid \<Rightarrow> 'n global_response \<times> 'n grid" where
  "ask_lock m n name gr =
     (case ask m n (GLock name m) gr of
        (Some r, gr1) \<Rightarrow> (r, gr1) | (None, gr1) \<Rightarrow> (GBusy, gr1))"

section \<open>Claiming a name\<close>

fun release_locks :: "'n \<Rightarrow> 'n list \<Rightarrow> string \<Rightarrow> 'n grid \<Rightarrow> 'n grid" where
  "release_locks m [] name gr = gr"
| "release_locks m (n # ns) name gr = release_locks m ns name (snd (ask m n (GUnlock name m) gr))"

fun commit_all :: "'n \<Rightarrow> 'n list \<Rightarrow> string \<Rightarrow> 'n pid \<Rightarrow> 'n grid \<Rightarrow> 'n grid" where
  "commit_all m [] name p gr = gr"
| "commit_all m (n # ns) name p gr = commit_all m ns name p (snd (ask m n (GCommit name p m) gr))"

fun claim_loop ::
  "'n \<Rightarrow> string \<Rightarrow> 'n pid \<Rightarrow> 'n list \<Rightarrow> 'n list \<Rightarrow> 'n grid \<Rightarrow> ('n claim_error + unit) \<times> 'n grid" where
  "claim_loop m name p held [] gr =
     (Inr (), release_locks m held name (commit_all m held name p gr))"
| "claim_loop m name p held (n # ns) gr =
     (case ask_lock m n name gr of
        (GLocked, gr1) \<Rightarrow> claim_loop m name p (held @ [n]) ns gr1
      | (GTaken q, gr1) \<Rightarrow> (Inl (Taken q), release_locks m held name gr1)
      | (_, gr1) \<Rightarrow> (Inl Unsettled, release_locks m held name gr1))"

definition try_claim ::
  "'n \<Rightarrow> string \<Rightarrow> 'n pid \<Rightarrow> 'n list \<Rightarrow> 'n grid \<Rightarrow> ('n claim_error + unit) \<times> 'n grid" where
  "try_claim m name p ns gr = claim_loop m name p [] ns gr"

definition claim_retries :: nat where
  "claim_retries = 3"

text \<open>Membership is read again before each attempt: the list has what each reading gives.\<close>

fun claim_attempts ::
  "('n :: linorder) \<Rightarrow> string \<Rightarrow> 'n pid \<Rightarrow> 'n list list \<Rightarrow> 'n grid \<Rightarrow> ('n claim_error + unit) \<times> 'n grid" where
  "claim_attempts m name p [] gr = (Inl Unsettled, gr)"
| "claim_attempts m name p (ns # rest) gr =
     (case try_claim m name p (sort (ns @ [m])) gr of
        (Inr (), gr1) \<Rightarrow> (Inr (), gr1)
      | (Inl (Taken q), gr1) \<Rightarrow> (Inl (Taken q), gr1)
      | (Inl (AlreadyNamed s), gr1) \<Rightarrow> (Inl (AlreadyNamed s), gr1)
      | (Inl Unsettled, gr1) \<Rightarrow> claim_attempts m name p rest gr1)"

definition global_register ::
  "('n :: linorder) \<Rightarrow> string \<Rightarrow> 'n pid \<Rightarrow> (nat \<Rightarrow> 'n cluster) \<Rightarrow> nat list \<Rightarrow> 'n grid
     \<Rightarrow> ('n claim_error + unit) \<times> 'n grid" where
  "global_register m name p roster seen gr =
     (if \<not> settled seen (tables gr m) then (Inl Unsettled, gr)
      else
        (case name_of p (tables gr m) of
           Some existing \<Rightarrow> (Inl (AlreadyNamed existing), gr)
         | None \<Rightarrow>
             claim_attempts m name p (map (\<lambda>i. cl_nodes (roster i)) [0..<claim_retries]) gr))"

section \<open>Giving a name up\<close>

fun release_all :: "'n \<Rightarrow> 'n list \<Rightarrow> string \<Rightarrow> 'n pid \<Rightarrow> 'n grid \<Rightarrow> 'n grid" where
  "release_all m [] name p gr = gr"
| "release_all m (n # ns) name p gr = release_all m ns name p (snd (ask m n (GRelease name p) gr))"

definition global_unregister :: "'n \<Rightarrow> string \<Rightarrow> 'n pid \<Rightarrow> 'n cluster \<Rightarrow> 'n grid \<Rightarrow> 'n grid" where
  "global_unregister m name p cl gr =
     (let (ours, g) = global_release name p (tables gr m);
          gr1 = gr\<lparr>tables := (tables gr)(m := g)\<rparr>
      in if ours then release_all m (cl_nodes cl) name p gr1 else gr1)"

fun death_reactor :: "'n \<Rightarrow> 'n cluster \<Rightarrow> 'n particle_death bc list \<Rightarrow> 'n grid \<Rightarrow> 'n grid" where
  "death_reactor m cl [] gr = gr"
| "death_reactor m cl (BcOk d # es) gr =
     death_reactor m cl es
       (case name_of (dead_pid d) (tables gr m) of
          None \<Rightarrow> gr | Some name \<Rightarrow> global_unregister m name (dead_pid d) cl gr)"
| "death_reactor m cl (BcLagged # es) gr = death_reactor m cl es gr"
| "death_reactor m cl (BcClosed # es) gr = gr"

section \<open>Merging tables\<close>

fun merge_loop ::
  "('n :: linorder) \<Rightarrow> (string \<times> 'n pid) list \<Rightarrow> (string, 'n pid) hmap
     \<Rightarrow> (string \<times> 'n pid \<times> 'n pid) list \<times> (string, 'n pid) hmap" where
  "merge_loop m [] tbl = ([], tbl)"
| "merge_loop m ((name, theirs) # rest) tbl =
     (case hm_get tbl name of
        Some ours \<Rightarrow>
          if ours = theirs then merge_loop m rest tbl
          else
            (let (winner, loser) = (if ours < theirs then (ours, theirs) else (theirs, ours));
                 (losers, tbl') = merge_loop m rest (hm_insert name winner tbl)
             in (if is_local_to loser m then (name, loser, winner) # losers else losers, tbl'))
      | None \<Rightarrow> merge_loop m rest (hm_insert name theirs tbl))"

definition global_merge ::
  "(string \<times> 'n pid) list \<Rightarrow> ('n :: linorder) global_names
     \<Rightarrow> (string \<times> 'n pid \<times> 'n pid) list \<times> 'n global_names" where
  "global_merge theirs g =
     (let (losers, tbl) = merge_loop (g_me g) theirs (g_names g)
      in (losers, g\<lparr>g_names := tbl\<rparr>))"

fun kill_losers :: "(string \<times> 'n pid \<times> 'n pid) list \<Rightarrow> ('n, 'c) registry \<Rightarrow> ('n, 'c) registry" where
  "kill_losers [] reg = reg"
| "kill_losers ((_, loser, winner) # ls) reg =
     kill_losers ls (apply_directed_exit loser winner Kill reg)"

definition answer_sync ::
  "(string \<times> 'n pid) list \<Rightarrow> ('n :: linorder) global_names \<times> ('n, 'c) registry
     \<Rightarrow> 'n global_response \<times> 'n global_names \<times> ('n, 'c) registry" where
  "answer_sync theirs side =
     (let (g, reg) = side; mine = global_snapshot g;
          (losers, g1) = global_merge theirs (merge_begin g)
      in (GNames mine, merge_end g1, kill_losers losers reg))"

text \<open>
  One side's sync with another: \<open>d\<close> is the fate of the request, and the other side answers
  with \<open>answer_sync\<close> if it arrives.
\<close>

definition sync_with ::
  "fate \<Rightarrow> ('n :: linorder) global_names \<times> ('n, 'c) registry \<Rightarrow> 'n global_names \<times> ('n, 'c) registry
     \<Rightarrow> ('n global_names \<times> ('n, 'c) registry) \<times> ('n global_names \<times> ('n, 'c) registry)" where
  "sync_with d here there =
     (let (g, reg) = here; g1 = merge_begin g; mine = global_snapshot g1
      in if d = NeverArrives then ((merge_end g1, reg), there)
         else
           (let (reply, there') = answer_sync mine there
            in if d = ReplyLost then ((merge_end g1, reg), there')
               else
                 (case reply of
                    GNames theirs \<Rightarrow>
                      (let (losers, g2) = global_merge theirs g1
                       in ((merge_end g2, kill_losers losers reg), there'))
                  | _ \<Rightarrow> ((merge_end g1, reg), there'))))"

section \<open>Resolving conflicts\<close>

text \<open>What is needed of the rule that picks the owner of a name two particles hold.\<close>

definition combine :: "('p \<Rightarrow> 'p \<Rightarrow> 'p) \<Rightarrow> 'p option \<Rightarrow> 'p option \<Rightarrow> 'p option" where
  "combine pick a b =
     (case a of None \<Rightarrow> b | Some x \<Rightarrow> (case b of None \<Rightarrow> a | Some y \<Rightarrow> Some (pick x y)))"

locale conflict_resolver =
  fixes pick :: "'p \<Rightarrow> 'p \<Rightarrow> 'p"
  assumes pick_one: "pick x y = x \<or> pick x y = y"
    and pick_commute: "pick x y = pick y x"
    and pick_assoc: "pick (pick x y) z = pick x (pick y z)"
begin

lemma pick_idem: "pick x x = x"
  using pick_one[of x x] by auto

lemma combine_None [simp]: "combine pick a None = a" "combine pick None a = a"
  by (auto simp: combine_def split: option.splits)

lemma combine_idem: "combine pick a a = a"
  by (auto simp: combine_def pick_idem split: option.splits)

lemma combine_commute: "combine pick a b = combine pick b a"
  by (auto simp: combine_def pick_commute split: option.splits)

lemma combine_assoc: "combine pick (combine pick a b) c = combine pick a (combine pick b c)"
  by (auto simp: combine_def pick_assoc split: option.splits)

lemma combine_left_commute: "combine pick a (combine pick b c) = combine pick b (combine pick a c)"
  using combine_assoc[of a b c] combine_assoc[of b a c] combine_commute[of a b] by simp

lemma combine_absorb: "combine pick a (combine pick a b) = combine pick a b"
  using combine_assoc[of a a b] combine_idem[of a] by simp

lemma combine_source: "combine pick a b = a \<or> combine pick a b = b"
  using pick_one by (auto simp: combine_def split: option.splits)

lemma combine_order:
  assumes "mset bs = mset cs"
  shows "foldl (combine pick) a bs = foldl (combine pick) a cs"
proof -
  have "fold (\<lambda>b a. combine pick a b) bs = fold (\<lambda>b a. combine pick a b) cs"
    by (rule fold_multiset_equiv[OF _ assms])
      (auto simp: fun_eq_iff combine_assoc combine_commute combine_left_commute)
  then show ?thesis by (simp add: foldl_conv_fold)
qed

lemma combine_winner:
  "foldl (combine pick) a bs = None \<longleftrightarrow> a = None \<and> (\<forall>b \<in> set bs. b = None)"
  "foldl (combine pick) a bs = a \<or> foldl (combine pick) a bs \<in> set bs"
proof (induction bs arbitrary: a)
  case (Cons b bs)
  {
    case 1
    show ?case using Cons(1)[of "combine pick a b"]
      by (auto simp: combine_def split: option.splits)
  next
    case 2
    show ?case using Cons(2)[of "combine pick a b"] combine_source[of a b] by auto
  }
qed simp_all

end

definition lower_pid :: "('n :: linorder) pid \<Rightarrow> 'n pid \<Rightarrow> 'n pid" where
  "lower_pid p q = (if p < q then p else q)"

interpretation lowest: conflict_resolver "lower_pid :: 'n pid \<Rightarrow> 'n pid \<Rightarrow> ('n :: linorder) pid"
  by unfold_locales (auto simp: lower_pid_def)

lemma lower_pid_le: "lower_pid p q \<le> p" "lower_pid p q \<le> q"
  by (auto simp: lower_pid_def)

lemma combine_lowest: "combine lower_pid a b = Some w \<Longrightarrow> a = Some x \<or> b = Some x \<Longrightarrow> w \<le> x"
  using lower_pid_le by (auto simp: combine_def split: option.splits)

lemma foldl_lowest:
  "foldl (combine lower_pid) a bs = Some w \<Longrightarrow> a = Some x \<or> Some x \<in> set bs \<Longrightarrow> w \<le> x"
proof (induction bs arbitrary: a x)
  case (Cons b bs)
  have *: "foldl (combine lower_pid) (combine lower_pid a b) bs = Some w" using Cons.prems(1) by simp
  show ?case
  proof (cases "a = Some x \<or> b = Some x")
    case True
    then obtain y where y: "combine lower_pid a b = Some y"
      by (cases a; cases b) (auto simp: combine_def)
    from combine_lowest[OF y True] Cons.IH[OF *, of y] y show ?thesis by auto
  next
    case False
    with Cons.prems(2) Cons.IH[OF *, of x] show ?thesis by auto
  qed
qed simp

section \<open>What a merge does\<close>

lemma merge_loop_spec:
  "merge_loop m theirs tbl = (ls, tbl') \<Longrightarrow> hm_wf theirs \<Longrightarrow>
   hm_get tbl' k = combine lower_pid (hm_get tbl k) (hm_get theirs k) \<and> (hm_wf tbl \<longrightarrow> hm_wf tbl')
   \<and> ((k, l, w) \<in> set ls \<longleftrightarrow>
       (\<exists>a b. hm_get tbl k = Some a \<and> hm_get theirs k = Some b \<and> a \<noteq> b \<and> w = lower_pid a b
          \<and> l = (if a < b then b else a) \<and> node l = m))"
proof (induction m theirs tbl arbitrary: ls tbl' rule: merge_loop.induct)
  case (2 m name theirs rest tbl)
  have wf: "hm_wf rest" and nn: "hm_get rest name = None"
    using 2(5) by (auto simp: hm_wf_def hm_get_def map_of_eq_None_iff)
  show ?case
  proof (cases "hm_get tbl name")
    case None
    have "merge_loop m rest (hm_insert name theirs tbl) = (ls, tbl')" using 2(4) None by simp
    from 2(1)[OF None this wf] None nn show ?thesis by (auto simp: combine_def)
  next
    case (Some ours)
    show ?thesis
    proof (cases "ours = theirs")
      case True
      have "merge_loop m rest tbl = (ls, tbl')" using 2(4) Some True by simp
      from 2(2)[OF Some True this wf] Some True nn show ?thesis
        by (auto simp: combine_def lower_pid_def)
    next
      case False
      let ?w = "lower_pid ours theirs" let ?l = "if ours < theirs then theirs else ours"
      obtain ls1 tbl1 where r: "merge_loop m rest (hm_insert name ?w tbl) = (ls1, tbl1)" by fastforce
      have e: "(?w, ?l) = (if ours < theirs then (ours, theirs) else (theirs, ours))"
        by (simp add: lower_pid_def)
      have out: "ls = (if node ?l = m then (name, ?l, ?w) # ls1 else ls1)" "tbl' = tbl1"
        using 2(4) Some False r by (auto simp: lower_pid_def is_local_to_def split: if_splits)
      from 2(3)[OF Some False e refl r wf] Some False nn out show ?thesis
        by (auto simp: combine_def)
    qed
  qed
qed simp

lemma global_merge_spec:
  assumes "global_merge theirs g = (ls, g')" and "hm_wf theirs"
  shows "peek k g' = combine lower_pid (peek k g) (hm_get theirs k)
    \<and> (hm_wf (g_names g) \<longrightarrow> hm_wf (g_names g')) \<and> g_me g' = g_me g \<and> merges g' = merges g
    \<and> g_locks g' = g_locks g
    \<and> ((k, l, w) \<in> set ls \<longleftrightarrow>
       (\<exists>a b. peek k g = Some a \<and> hm_get theirs k = Some b \<and> a \<noteq> b \<and> w = lower_pid a b
          \<and> l = (if a < b then b else a) \<and> node l = g_me g))"
proof -
  obtain tbl where m: "merge_loop (g_me g) theirs (g_names g) = (ls, tbl)" and g: "g' = g\<lparr>g_names := tbl\<rparr>"
    using assms(1) by (auto simp: global_merge_def Let_def split: prod.splits)
  show ?thesis using merge_loop_spec[OF m assms(2)] g by (simp add: peek_def)
qed

lemma kill_keeps_dead:
  "\<not> particle_exists reg q \<Longrightarrow> \<not> particle_exists (apply_directed_exit l w Kill reg) q"
  by (simp add: apply_directed_exit_def exit_particle_alive)

lemma kill_kills: "\<not> particle_exists (apply_directed_exit q w Kill reg) q"
proof (cases "particle_exists reg q")
  case True
  then have "q \<in> reached reg Killed [q]" by (auto intro: reached.seed)
  with True show ?thesis
    by (simp add: apply_directed_exit_def exit_particle_alive)
      (simp add: particle_exists_def)
qed (rule kill_keeps_dead)

lemma kill_losers_keeps_dead: "\<not> particle_exists reg q \<Longrightarrow> \<not> particle_exists (kill_losers ls reg) q"
  by (induction ls reg rule: kill_losers.induct) (auto dest: kill_keeps_dead)

lemma kill_losers_kills: "(k, q, w) \<in> set ls \<Longrightarrow> \<not> particle_exists (kill_losers ls reg) q"
proof (induction ls reg rule: kill_losers.induct)
  case (2 k' l w' ls reg)
  show ?case
  proof (cases "(k, q, w) = (k', l, w')")
    case True
    have "\<not> particle_exists (kill_losers ls (apply_directed_exit l w' Kill reg)) l"
      by (rule kill_losers_keeps_dead[OF kill_kills])
    with True show ?thesis by simp
  next
    case False
    with 2 show ?thesis by auto
  qed
qed simp

lemma sync_with_arrives:
  assumes "sync_with Arrives (ga, ra) (gb, rb) = ((ga', ra'), (gb', rb'))"
  obtains la g1 lb g2 where "global_merge (g_names gb) (merge_begin ga) = (la, g1)"
    and "global_merge (g_names ga) (merge_begin gb) = (lb, g2)"
    and "ga' = merge_end g1" and "gb' = merge_end g2"
    and "ra' = kill_losers la ra" and "rb' = kill_losers lb rb"
  using assms
  by (auto simp: sync_with_def answer_sync_def Let_def global_snapshot_def merge_begin_def split: prod.splits)

lemma merge_gate [simp]:
  "g_names (merge_begin g) = g_names g" "g_me (merge_begin g) = g_me g"
  "merges (merge_begin g) = Suc (merges g)" "merges (merge_end g) = merges g - 1"
  "peek k (merge_begin g) = peek k g" "peek k (merge_end g) = peek k g"
  "g_names (merge_end g) = g_names g" "g_me (merge_end g) = g_me g"
  by (simp_all add: merge_begin_def merge_end_def peek_def)

section \<open>Properties of merging\<close>



lemma merges_fold:
  "\<forall>t \<in> set ts. hm_wf t \<Longrightarrow>
   peek k (foldl (\<lambda>g t. snd (global_merge t g)) g ts)
     = foldl (combine lower_pid) (peek k g) (map (\<lambda>t. hm_get t k) ts)"
proof (induction ts arbitrary: g)
  case (Cons t ts)
  have "peek k (snd (global_merge t g)) = combine lower_pid (peek k g) (hm_get t k)"
  proof -
    obtain ls g' where m: "global_merge t g = (ls, g')" by fastforce
    have "hm_wf t" using Cons.prems by simp
    from global_merge_spec[OF m this] m show ?thesis by simp
  qed
  with Cons show ?case by simp
qed simp

text \<open>
  C27: the order of merges does not matter. A node that has merged the same tables in two
  orders looks every name up alike, and finds the lowest of the pids that were registered
  under the name in its own table and in those it merged; it finds none only if none was.
\<close>

theorem merges_commute:
  fixes ts us :: "(string, ('n :: linorder) pid) hmap list"
  assumes wf: "\<forall>t \<in> set ts. hm_wf t" and perm: "mset ts = mset us"
  shows "peek k (foldl (\<lambda>g t. snd (global_merge t g)) g ts)
       = peek k (foldl (\<lambda>g t. snd (global_merge t g)) g us)
    \<and> (\<forall>w. peek k (foldl (\<lambda>g t. snd (global_merge t g)) g ts) = Some w \<longrightarrow>
         (peek k g = Some w \<or> (\<exists>t \<in> set ts. hm_get t k = Some w))
         \<and> (\<forall>x. peek k g = Some x \<or> (\<exists>t \<in> set ts. hm_get t k = Some x) \<longrightarrow> w \<le> x))
    \<and> (peek k (foldl (\<lambda>g t. snd (global_merge t g)) g ts) = None \<longleftrightarrow>
         peek k g = None \<and> (\<forall>t \<in> set ts. hm_get t k = None))"
proof -
  let ?gets = "map (\<lambda>t. hm_get t k)"
  have wf': "\<forall>t \<in> set us. hm_wf t" using wf mset_eq_setD[OF perm] by simp
  have "mset (?gets ts) = mset (?gets us)" using perm by simp
  from lowest.combine_order[OF this]
  have 1: "foldl (combine lower_pid) (peek k g) (?gets ts) = foldl (combine lower_pid) (peek k g) (?gets us)" .
  have 2: "(peek k g = Some w \<or> (\<exists>t \<in> set ts. hm_get t k = Some w))
      \<and> (\<forall>x. peek k g = Some x \<or> (\<exists>t \<in> set ts. hm_get t k = Some x) \<longrightarrow> w \<le> x)"
    if "foldl (combine lower_pid) (peek k g) (?gets ts) = Some w" for w
    using lowest.combine_winner(2)[of "peek k g" "?gets ts"] foldl_lowest[OF that] that
    by (auto simp: image_iff) metis+
  show ?thesis
    unfolding merges_fold[OF wf] merges_fold[OF wf']
    using 1 2 lowest.combine_winner(1)[of "peek k g" "?gets ts"] by auto
qed

theorem merges_commute_witness:
  "peek ''a'' (foldl (\<lambda>g t. snd (global_merge t g)) (global_new 0)
     [[(''a'', Pid (2 :: nat) 1)], [(''a'', Pid 1 7)]])
   = peek ''a'' (foldl (\<lambda>g t. snd (global_merge t g)) (global_new 0)
     [[(''a'', Pid 1 7)], [(''a'', Pid 2 1)]])"
  using merges_commute[of "[[(''a'', Pid (2 :: nat) 1)], [(''a'', Pid 1 7)]]"
      "[[(''a'', Pid 1 7)], [(''a'', Pid 2 1)]]" "''a''" "global_new 0"]
  by (simp add: hm_wf_def add_mset_commute)

section \<open>What a claim does\<close>

lemma ask_one_effect:
  assumes "ask_one d m n req tb = (r, tb')"
  shows "tb' = tb \<or> tb' = tb(n := snd (global_apply req (tb n)))"
    and "n = m \<or> d = Arrives \<Longrightarrow> tb' = tb(n := snd (global_apply req (tb n)))
           \<and> r = Some (fst (global_apply req (tb n)))"
    and "r = Some x \<Longrightarrow> tb' = tb(n := snd (global_apply req (tb n))) \<and> x = fst (global_apply req (tb n))"
  using assms by (auto simp: ask_one_def Let_def split: prod.splits if_splits)

lemma ask_effect:
  assumes "ask m n req gr = (r, gr')"
  shows "tables gr' = tables gr \<or> tables gr' = (tables gr)(n := snd (global_apply req (tables gr n)))"
    and "n = m \<or> fates gr = [] \<Longrightarrow> tables gr' = (tables gr)(n := snd (global_apply req (tables gr n)))
           \<and> r = Some (fst (global_apply req (tables gr n)))"
    and "r = Some x \<Longrightarrow> tables gr' = (tables gr)(n := snd (global_apply req (tables gr n)))
           \<and> x = fst (global_apply req (tables gr n))"
    and "fates gr = [] \<Longrightarrow> fates gr' = []"
  using assms ask_one_effect[of "next_fate (fates gr)" m n req "tables gr" r "tables gr'"]
  by (auto simp: ask_def Let_def next_fate_def split: prod.splits)

text \<open>What is left alone: \<open>names\<close> and \<open>locks\<close> except the lock of \<open>name\<close> that \<open>m\<close> holds.\<close>

definition same_names :: "'n tables \<Rightarrow> 'n tables \<Rightarrow> bool" where
  "same_names tb tb' \<longleftrightarrow> (\<forall>n. g_names (tb' n) = g_names (tb n))"

definition same_locks :: "'n \<Rightarrow> string \<Rightarrow> 'n tables \<Rightarrow> 'n tables \<Rightarrow> bool" where
  "same_locks m name tb tb' \<longleftrightarrow>
     (\<forall>n k h. k \<noteq> name \<or> h \<noteq> m \<longrightarrow>
        hm_get (g_locks (tb' n)) k = Some h \<longleftrightarrow> hm_get (g_locks (tb n)) k = Some h)"

lemma same_trans:
  "same_names a b \<Longrightarrow> same_names b c \<Longrightarrow> same_names a c"
  "same_locks m name a b \<Longrightarrow> same_locks m name b c \<Longrightarrow> same_locks m name a c"
  by (simp_all add: same_names_def same_locks_def)

lemma same_refl [simp]: "same_names a a" "same_locks m name a a"
  by (simp_all add: same_names_def same_locks_def)

lemma free_iff: "v \<in> {None, Some m} \<longleftrightarrow> (\<forall>h. h \<noteq> m \<longrightarrow> v \<noteq> Some h)"
  by (cases v) auto

lemma same_locks_free:
  "same_locks m name tb tb' \<Longrightarrow>
   hm_get (g_locks (tb' x)) name \<in> {None, Some m} \<longleftrightarrow> hm_get (g_locks (tb x)) name \<in> {None, Some m}"
  unfolding free_iff by (simp add: same_locks_def)

lemma apply_lock_same:
  "same_names tb (tb(n := snd (global_apply (GLock name m) (tb n))))"
  "same_locks m name tb (tb(n := snd (global_apply (GLock name m) (tb n))))"
  by (auto simp: same_names_def same_locks_def global_apply_def global_lock_def lock_raced_def
      Let_def split: option.splits)

lemma apply_unlock_same:
  "same_names tb (tb(n := snd (global_apply (GUnlock name m) (tb n))))"
  "same_locks m name tb (tb(n := snd (global_apply (GUnlock name m) (tb n))))"
  by (auto simp: same_names_def same_locks_def global_apply_def global_unlock_def)

lemma release_locks_spec:
  "same_names (tables gr) (tables (release_locks m ns name gr))
   \<and> same_locks m name (tables gr) (tables (release_locks m ns name gr))
   \<and> (fates gr = [] \<longrightarrow> (\<forall>n.
        (n \<in> set ns \<longrightarrow> hm_get (g_locks (tables (release_locks m ns name gr) n)) name \<noteq> Some m)
        \<and> (hm_get (g_locks (tables gr n)) name \<noteq> Some m \<longrightarrow>
             hm_get (g_locks (tables (release_locks m ns name gr) n)) name \<noteq> Some m)))"
proof (induction ns arbitrary: gr)
  case (Cons n ns)
  let ?req = "GUnlock name m"
  obtain r gr1 where a: "ask m n ?req gr = (r, gr1)" by fastforce
  note E = ask_effect[OF a]
  have 1: "same_names (tables gr) (tables gr1)" "same_locks m name (tables gr) (tables gr1)"
    using E(1) apply_unlock_same[where tb = "tables gr" and n = n and name = name and m = m] by auto
  have 2: "hm_get (g_locks (tables gr1 n)) name \<noteq> Some m"
    "hm_get (g_locks (tables gr x)) name \<noteq> Some m \<Longrightarrow> hm_get (g_locks (tables gr1 x)) name \<noteq> Some m"
    if "fates gr = []" for x
    using E(2) that by (auto simp: global_apply_def global_unlock_def)
  from Cons[of gr1] 1 2 E(4) a show ?case by (auto intro: same_trans)
qed simp

lemma commit_all_spec:
  "g_locks (tables (commit_all m ns name p gr) n) = g_locks (tables gr n)
   \<and> (k \<noteq> name \<longrightarrow> peek k (tables (commit_all m ns name p gr) n) = peek k (tables gr n))
   \<and> (peek name (tables (commit_all m ns name p gr) n) = peek name (tables gr n)
      \<or> n \<in> set ns \<and> peek name (tables (commit_all m ns name p gr) n) = Some p)
   \<and> (n \<in> set ns \<and> (n = m \<or> fates gr = []) \<longrightarrow> peek name (tables (commit_all m ns name p gr) n) = Some p)
   \<and> (fates gr = [] \<longrightarrow> fates (commit_all m ns name p gr) = [])"
proof (induction ns arbitrary: gr)
  case (Cons x ns)
  obtain r gr1 where a: "ask m x (GCommit name p m) gr = (r, gr1)" by fastforce
  note E = ask_effect[OF a]
  have 1: "g_locks (tables gr1 n) = g_locks (tables gr n)"
    "k \<noteq> name \<Longrightarrow> peek k (tables gr1 n) = peek k (tables gr n)"
    "peek name (tables gr1 n) = peek name (tables gr n) \<or> n = x \<and> peek name (tables gr1 n) = Some p"
    using E(1) by (auto simp: global_apply_def global_commit_def peek_def split: if_splits)
  have 2: "peek name (tables gr1 x) = Some p" if "x = m \<or> fates gr = []"
    using E(2) that by (auto simp: global_apply_def global_commit_def peek_def)
  from Cons[of gr1] 1 2 E(4) a show ?case by (auto split: if_splits)
qed simp

lemma lock_reply:
  assumes "global_lock name m g = (r, g')"
  shows "r = GLocked \<Longrightarrow> peek name g = None \<and> hm_get (g_locks g) name \<in> {None, Some m}
            \<and> hm_get (g_locks g') name = Some m"
    and "r = GTaken q \<Longrightarrow> peek name g = Some q \<and> g' = g"
    and "r = GLocked \<or> r = GBusy \<or> (\<exists>q. r = GTaken q)"
    and "r \<noteq> GLocked \<Longrightarrow> g' = g"
    and "peek name g = None \<Longrightarrow> hm_get (g_locks g) name \<in> {None, Some m} \<Longrightarrow> r = GLocked"
  using assms by (auto simp: global_lock_def lock_raced_def Let_def peek_def split: option.splits if_splits)

text \<open>A lock request, as the claim sees it: granted, taken, or neither.\<close>

lemma ask_lock_effect:
  assumes "ask_lock m n name gr = (r, gr1)"
  shows "same_names (tables gr) (tables gr1)" and "same_locks m name (tables gr) (tables gr1)"
    and "r = GLocked \<Longrightarrow> peek name (tables gr n) = None
           \<and> hm_get (g_locks (tables gr n)) name \<in> {None, Some m}"
    and "r = GTaken q \<Longrightarrow> peek name (tables gr n) = Some q"
    and "r = GLocked \<or> r = GBusy \<or> (\<exists>q. r = GTaken q)"
    and "fates gr = [] \<Longrightarrow> fates gr1 = []
           \<and> (\<forall>x. hm_get (g_locks (tables gr x)) name \<noteq> Some m \<longrightarrow>
                hm_get (g_locks (tables gr1 x)) name = Some m \<longrightarrow> x = n \<and> r = GLocked)
           \<and> (peek name (tables gr n) = None \<longrightarrow> hm_get (g_locks (tables gr n)) name \<in> {None, Some m}
                \<longrightarrow> r = GLocked)"
proof -
  obtain a where a: "ask m n (GLock name m) gr = (a, gr1)" and r: "r = (case a of Some x \<Rightarrow> x | None \<Rightarrow> GBusy)"
    using assms by (auto simp: ask_lock_def split: prod.splits option.splits)
  note E = ask_effect[OF a]
  obtain l g where l: "global_lock name m (tables gr n) = (l, g)" by fastforce
  note L = lock_reply[OF l]
  have ap: "global_apply (GLock name m) (tables gr n) = (l, g)" by (simp add: global_apply_def l)
  show "same_names (tables gr) (tables gr1)" "same_locks m name (tables gr) (tables gr1)"
    using E(1) apply_lock_same[where tb = "tables gr" and n = n and name = name and m = m] by auto
  show "r = GLocked \<Longrightarrow> peek name (tables gr n) = None
      \<and> hm_get (g_locks (tables gr n)) name \<in> {None, Some m}"
    using E(3) L(1) r ap by (cases a) auto
  show "r = GTaken q \<Longrightarrow> peek name (tables gr n) = Some q"
    using E(3) L(2) r ap by (cases a) auto
  show "r = GLocked \<or> r = GBusy \<or> (\<exists>q. r = GTaken q)"
    using E(3) L(3) r ap by (cases a) auto
  show "fates gr1 = []
           \<and> (\<forall>x. hm_get (g_locks (tables gr x)) name \<noteq> Some m \<longrightarrow>
                hm_get (g_locks (tables gr1 x)) name = Some m \<longrightarrow> x = n \<and> r = GLocked)
           \<and> (peek name (tables gr n) = None \<longrightarrow> hm_get (g_locks (tables gr n)) name \<in> {None, Some m}
                \<longrightarrow> r = GLocked)" if "fates gr = []"
    using E(2,4) that L(4,5) r ap by auto
qed

text \<open>The outcome of the claim's loop, relative to the tables it starts on.\<close>

definition claim_done ::
  "'n \<Rightarrow> string \<Rightarrow> 'n pid \<Rightarrow> 'n list \<Rightarrow> 'n list \<Rightarrow> 'n grid \<Rightarrow> 'n claim_error + unit \<Rightarrow> 'n grid \<Rightarrow> bool" where
  "claim_done m name p held ns gr out gr' \<longleftrightarrow>
     same_locks m name (tables gr) (tables gr')
     \<and> (out \<noteq> Inr () \<longrightarrow> same_names (tables gr) (tables gr'))
     \<and> (out = Inr () \<longrightarrow>
          (\<forall>n \<in> set ns. peek name (tables gr n) = None \<and> hm_get (g_locks (tables gr n)) name \<in> {None, Some m})
          \<and> (\<forall>n k. peek k (tables gr' n) = peek k (tables gr n)
                  \<or> k = name \<and> n \<in> set held \<union> set ns \<and> peek k (tables gr' n) = Some p)
          \<and> (\<forall>n \<in> set held \<union> set ns. n = m \<or> fates gr = [] \<longrightarrow> peek name (tables gr' n) = Some p))
     \<and> (\<forall>q. out = Inl (Taken q) \<longrightarrow> (\<exists>n \<in> set ns. peek name (tables gr n) = Some q))
     \<and> (\<forall>s. out \<noteq> Inl (AlreadyNamed s))
     \<and> (fates gr = [] \<longrightarrow>
          (\<forall>x. hm_get (g_locks (tables gr x)) name \<noteq> Some m \<or> x \<in> set held \<longrightarrow>
             hm_get (g_locks (tables gr' x)) name \<noteq> Some m)
          \<and> ((\<forall>n \<in> set ns. peek name (tables gr n) = None
                \<and> hm_get (g_locks (tables gr n)) name \<in> {None, Some m}) \<longrightarrow> out = Inr ()))"

lemma claim_finish:
  "claim_done m name p held [] gr (Inr ()) (release_locks m held name (commit_all m held name p gr))"
proof -
  let ?c = "commit_all m held name p gr" let ?gr = "release_locks m held name ?c"
  note R = release_locks_spec[where gr = ?c and m = m and ns = held and name = name]
  have C: "g_locks (tables ?c n) = g_locks (tables gr n)"
    "k \<noteq> name \<Longrightarrow> peek k (tables ?c n) = peek k (tables gr n)"
    "peek name (tables ?c n) = peek name (tables gr n) \<or> n \<in> set held \<and> peek name (tables ?c n) = Some p"
    "n \<in> set held \<Longrightarrow> n = m \<or> fates gr = [] \<Longrightarrow> peek name (tables ?c n) = Some p"
    "fates gr = [] \<Longrightarrow> fates ?c = []" for n k
    using commit_all_spec[of m held name p gr n k] by auto
  have "same_locks m name (tables gr) (tables ?c)" by (simp add: same_locks_def C(1))
  then have 1: "same_locks m name (tables gr) (tables ?gr)" using R by (auto intro: same_trans)
  have keep: "peek k (tables ?gr n) = peek k (tables ?c n)" for k n
    using R by (auto simp: same_names_def peek_def)
  have 2: "peek k (tables ?gr n) = peek k (tables gr n)
      \<or> k = name \<and> n \<in> set held \<and> peek k (tables ?gr n) = Some p" for k n
    using C(2)[of k n] C(3)[of n] keep by (cases "k = name") auto
  show ?thesis unfolding claim_done_def using 1 2 R C(1,4,5) keep by auto
qed

lemma claim_stop:
  assumes "ask_lock m n name gr = (r, gr1)" and "r \<noteq> GLocked"
  shows "claim_done m name p held (n # ns) gr
    (Inl (case r of GTaken q \<Rightarrow> Taken q | _ \<Rightarrow> Unsettled)) (release_locks m held name gr1)"
proof -
  note A = ask_lock_effect[OF assms(1)]
  note R = release_locks_spec[where gr = gr1 and m = m and ns = held and name = name]
  from A(5) assms(2) consider "r = GBusy" | q where "r = GTaken q" by auto
  then show ?thesis
  proof cases
    case 1
    then show ?thesis using A(1,2,6) R by (auto simp: claim_done_def intro: same_trans)
  next
    case 2
    then show ?thesis using A(1,2,4,6) R by (auto simp: claim_done_def intro: same_trans)
  qed
qed

lemma claim_go:
  assumes "ask_lock m n name gr = (GLocked, gr1)" and "claim_done m name p (held @ [n]) ns gr1 out gr'"
  shows "claim_done m name p held (n # ns) gr out gr'"
proof -
  note A = ask_lock_effect[OF assms(1)]
  have names: "peek k (tables gr1 x) = peek k (tables gr x)" for k x
    using A(1) by (simp add: same_names_def peek_def)
  have free: "hm_get (g_locks (tables gr1 x)) name \<in> {None, Some m} \<longleftrightarrow>
      hm_get (g_locks (tables gr x)) name \<in> {None, Some m}" for x
    by (rule same_locks_free[OF A(2)])
  have "same_locks m name (tables gr1) (tables gr')" using assms(2) unfolding claim_done_def by (elim conjE)
  then have 1: "same_locks m name (tables gr) (tables gr')" by (rule same_trans(2)[OF A(2)])
  have "out \<noteq> Inr () \<longrightarrow> same_names (tables gr1) (tables gr')"
    using assms(2) unfolding claim_done_def by (elim conjE)
  then have 2: "out \<noteq> Inr () \<longrightarrow> same_names (tables gr) (tables gr')" using same_trans(1)[OF A(1)] by blast
  have f1: "fates gr = [] \<Longrightarrow> fates gr1 = []" using A(6) by simp
  note D = assms(2)[unfolded claim_done_def names Un_iff set_append list.set empty_iff insert_iff]
  have won: "(\<forall>x \<in> set (n # ns). peek name (tables gr x) = None \<and> hm_get (g_locks (tables gr x)) name \<in> {None, Some m})
      \<and> (\<forall>x k. peek k (tables gr' x) = peek k (tables gr x)
              \<or> k = name \<and> x \<in> set held \<union> set (n # ns) \<and> peek k (tables gr' x) = Some p)
      \<and> (\<forall>x \<in> set held \<union> set (n # ns). x = m \<or> fates gr = [] \<longrightarrow> peek name (tables gr' x) = Some p)"
    if "out = Inr ()"
  proof (intro conjI allI ballI impI)
    fix x assume x: "x \<in> set (n # ns)"
    show "peek name (tables gr x) = None" using x A(3) D that by auto
    show "hm_get (g_locks (tables gr x)) name \<in> {None, Some m}"
      using x A(3) D that free[of x] by auto
  next
    fix x k
    show "peek k (tables gr' x) = peek k (tables gr x)
       \<or> k = name \<and> x \<in> set held \<union> set (n # ns) \<and> peek k (tables gr' x) = Some p"
    proof -
      have "\<forall>x k. peek k (tables gr' x) = peek k (tables gr x)
          \<or> k = name \<and> (x \<in> set held \<or> x = n \<or> x \<in> set ns) \<and> peek k (tables gr' x) = Some p"
        using D that by simp
      from this[rule_format, of k x] show ?thesis by auto
    qed
  next
    fix x assume "x \<in> set held \<union> set (n # ns)" "x = m \<or> fates gr = []"
    then show "peek name (tables gr' x) = Some p" using D that f1 by auto
  qed
  have quiet: "(\<forall>x. hm_get (g_locks (tables gr x)) name \<noteq> Some m \<or> x \<in> set held \<longrightarrow>
             hm_get (g_locks (tables gr' x)) name \<noteq> Some m)
      \<and> ((\<forall>x \<in> set (n # ns). peek name (tables gr x) = None
            \<and> hm_get (g_locks (tables gr x)) name \<in> {None, Some m}) \<longrightarrow> out = Inr ())"
    if "fates gr = []"
  proof (intro conjI allI impI)
    fix x assume "hm_get (g_locks (tables gr x)) name \<noteq> Some m \<or> x \<in> set held"
    then show "hm_get (g_locks (tables gr' x)) name \<noteq> Some m"
      using A(6)[OF that] D f1[OF that] by (cases "x = n") auto
  next
    assume "\<forall>x \<in> set (n # ns). peek name (tables gr x) = None
            \<and> hm_get (g_locks (tables gr x)) name \<in> {None, Some m}"
    then have "\<forall>x \<in> set ns. peek name (tables gr x) = None
            \<and> hm_get (g_locks (tables gr1 x)) name \<in> {None, Some m}"
      using free by simp
    then show "out = Inr ()" using D f1[OF that] by auto
  qed
  have "\<forall>q. out = Inl (Taken q) \<longrightarrow> (\<exists>x \<in> set (n # ns). peek name (tables gr x) = Some q)"
    "\<forall>s. out \<noteq> Inl (AlreadyNamed s)"
    using D by auto
  then show ?thesis unfolding claim_done_def
    using 1 2 impI[OF won] impI[OF quiet] by (intro conjI)
qed

lemma claim_loop_spec:
  "claim_loop m name p held ns gr = (out, gr') \<Longrightarrow> claim_done m name p held ns gr out gr'"
proof (induction ns arbitrary: held gr)
  case Nil
  then show ?case using claim_finish by auto
next
  case (Cons n ns)
  obtain r gr1 where a: "ask_lock m n name gr = (r, gr1)" by fastforce
  show ?case
  proof (cases "r = GLocked")
    case True
    then have "claim_loop m name p (held @ [n]) ns gr1 = (out, gr')" using Cons.prems a by simp
    from claim_go[OF _ Cons.IH[OF this]] a True show ?thesis by simp
  next
    case False
    then show ?thesis using claim_stop[OF a False] Cons.prems a
      by (cases r) auto
  qed
qed

section \<open>Properties of claiming\<close>

text \<open>
  C15: the outcome of a claim. It succeeds only if every member granted its lock, which none
  does that knows the name or has it locked for another node; then the claimant's own node
  records the new owner, and every member does if the messages arrive. A claim that fails
  changes no table, and it fails as taken only if some member knows that owner. Other names and
  other holders' locks are left alone, and if the messages arrive no lock is left behind and a
  name that is free everywhere is granted.
\<close>

theorem claim_outcome:
  assumes "try_claim m name p ns gr = (out, gr')"
  shows "(out = Inr () \<longrightarrow>
      (\<forall>n \<in> set ns. peek name (tables gr n) = None \<and> hm_get (g_locks (tables gr n)) name \<in> {None, Some m})
      \<and> (\<forall>n \<in> set ns. n = m \<or> fates gr = [] \<longrightarrow> peek name (tables gr' n) = Some p)
      \<and> (\<forall>n k. k \<noteq> name \<or> n \<notin> set ns \<longrightarrow> peek k (tables gr' n) = peek k (tables gr n)))
    \<and> (\<forall>e. out = Inl e \<longrightarrow>
         (\<forall>n. g_names (tables gr' n) = g_names (tables gr n))
         \<and> (e = Unsettled \<or> (\<exists>q n. e = Taken q \<and> n \<in> set ns \<and> peek name (tables gr n) = Some q)))
    \<and> (\<forall>n k h. k \<noteq> name \<or> h \<noteq> m \<longrightarrow>
         (hm_get (g_locks (tables gr' n)) k = Some h) = (hm_get (g_locks (tables gr n)) k = Some h))
    \<and> (fates gr = [] \<longrightarrow>
         (\<forall>n. hm_get (g_locks (tables gr' n)) name = Some m \<longrightarrow> hm_get (g_locks (tables gr n)) name = Some m)
         \<and> ((\<forall>n \<in> set ns. peek name (tables gr n) = None
               \<and> hm_get (g_locks (tables gr n)) name \<in> {None, Some m}) \<longrightarrow> out = Inr ()))"
proof -
  note D = claim_loop_spec[OF assms[unfolded try_claim_def], unfolded claim_done_def same_locks_def same_names_def]
  show ?thesis
  proof (intro conjI)
    show "\<forall>e. out = Inl e \<longrightarrow> (\<forall>n. g_names (tables gr' n) = g_names (tables gr n))
         \<and> (e = Unsettled \<or> (\<exists>q n. e = Taken q \<and> n \<in> set ns \<and> peek name (tables gr n) = Some q))"
    proof (intro allI impI)
      fix e assume e: "out = Inl e"
      show "(\<forall>n. g_names (tables gr' n) = g_names (tables gr n))
         \<and> (e = Unsettled \<or> (\<exists>q n. e = Taken q \<and> n \<in> set ns \<and> peek name (tables gr n) = Some q))"
        using D e by (cases e) auto
    qed
    show "fates gr = [] \<longrightarrow>
         (\<forall>n. hm_get (g_locks (tables gr' n)) name = Some m \<longrightarrow> hm_get (g_locks (tables gr n)) name = Some m)
         \<and> ((\<forall>n \<in> set ns. peek name (tables gr n) = None
               \<and> hm_get (g_locks (tables gr n)) name \<in> {None, Some m}) \<longrightarrow> out = Inr ())"
      using D by blast
    show "out = Inr () \<longrightarrow>
      (\<forall>n \<in> set ns. peek name (tables gr n) = None \<and> hm_get (g_locks (tables gr n)) name \<in> {None, Some m})
      \<and> (\<forall>n \<in> set ns. n = m \<or> fates gr = [] \<longrightarrow> peek name (tables gr' n) = Some p)
      \<and> (\<forall>n k. k \<noteq> name \<or> n \<notin> set ns \<longrightarrow> peek k (tables gr' n) = peek k (tables gr n))"
    proof
      assume o: "out = Inr ()"
      from D have "out = Inr () \<longrightarrow>
          (\<forall>n \<in> set ns. peek name (tables gr n) = None \<and> hm_get (g_locks (tables gr n)) name \<in> {None, Some m})
          \<and> (\<forall>n k. peek k (tables gr' n) = peek k (tables gr n)
                  \<or> k = name \<and> n \<in> set [] \<union> set ns \<and> peek k (tables gr' n) = Some p)
          \<and> (\<forall>n \<in> set [] \<union> set ns. n = m \<or> fates gr = [] \<longrightarrow> peek name (tables gr' n) = Some p)"
        by (elim conjE)
      from mp[OF this o]
      have w1: "\<forall>n \<in> set ns. peek name (tables gr n) = None \<and> hm_get (g_locks (tables gr n)) name \<in> {None, Some m}"
        and w2: "\<forall>n k. peek k (tables gr' n) = peek k (tables gr n)
                  \<or> k = name \<and> n \<in> set [] \<union> set ns \<and> peek k (tables gr' n) = Some p"
        and w3: "\<forall>n \<in> set [] \<union> set ns. n = m \<or> fates gr = [] \<longrightarrow> peek name (tables gr' n) = Some p"
        by blast+
      have "peek k (tables gr' n) = peek k (tables gr n)" if "k \<noteq> name \<or> n \<notin> set ns" for n k
        using w2[rule_format, of k n] that by auto
      with w1 w3 show "(\<forall>n \<in> set ns. peek name (tables gr n) = None \<and> hm_get (g_locks (tables gr n)) name \<in> {None, Some m})
      \<and> (\<forall>n \<in> set ns. n = m \<or> fates gr = [] \<longrightarrow> peek name (tables gr' n) = Some p)
      \<and> (\<forall>n k. k \<noteq> name \<or> n \<notin> set ns \<longrightarrow> peek k (tables gr' n) = peek k (tables gr n))"
        by simp
    qed
    show "\<forall>n k h. k \<noteq> name \<or> h \<noteq> m \<longrightarrow>
         (hm_get (g_locks (tables gr' n)) k = Some h) = (hm_get (g_locks (tables gr n)) k = Some h)"
      using D by (elim conjE)
  qed
qed

definition calm_grid :: "fate list \<Rightarrow> nat grid" where
  "calm_grid ds = \<lparr>tables = global_new, fates = ds\<rparr>"

theorem claim_outcome_witness:
  "peek ''a'' (tables (snd (try_claim 1 ''a'' (Pid 1 4) [0, 1, 2] (calm_grid []))) 2) = Some (Pid 1 4)
   \<and> hm_get (g_locks (tables (snd (try_claim 1 ''a'' (Pid 1 4) [0, 1, 2] (calm_grid []))) 2)) ''a'' \<noteq> Some 1"
proof -
  obtain out gr where t: "try_claim 1 ''a'' (Pid 1 4) [0, 1, 2] (calm_grid []) = (out, gr)" by fastforce
  have "\<forall>n. peek ''a'' (tables (calm_grid []) n) = None \<and> hm_get (g_locks (tables (calm_grid []) n)) ''a'' = None"
    "fates (calm_grid []) = []"
    by (simp_all add: calm_grid_def global_new_def peek_def)
  with claim_outcome[OF t] t show ?thesis by auto
qed

text \<open>
  A lost reply leaks a lock. If a member grants its lock and the reply is lost, the claim
  gives up without ever releasing that member, since it counts only the grants it heard of. The
  member keeps the name locked for a claimant that does not know it, and nothing but that
  claimant's node asks for it back: however the tables of the other nodes change, no other
  node's claim of the name succeeds while the member is among those it must ask.
\<close>

lemma lost_reply_leaks_lock:
  assumes "n \<noteq> m" and "peek name (tables gr n) = None"
    and "hm_get (g_locks (tables gr n)) name \<in> {None, Some m}"
    and "fates gr = ReplyLost # ds" and "try_claim m name p (n # ns) gr = (out, gr')"
    and "k \<noteq> m" and "n \<in> set xs" and "tables later n = tables gr' n"
  shows "out = Inl Unsettled \<and> hm_get (g_locks (tables gr' n)) name = Some m
    \<and> fst (try_claim k name q xs later) \<noteq> Inr ()"
proof -
  have "out = Inl Unsettled \<and> hm_get (g_locks (tables gr' n)) name = Some m"
    using assms(1-5)
    by (auto simp: try_claim_def ask_lock_def ask_def ask_one_def next_fate_def global_apply_def
        global_lock_def lock_raced_def Let_def peek_def)
  moreover have "fst (try_claim k name q xs later) \<noteq> Inr ()"
    if "hm_get (g_locks (tables later n)) name = Some m"
  proof
    assume "fst (try_claim k name q xs later) = Inr ()"
    then obtain gr2 where "try_claim k name q xs later = (Inr (), gr2)" by (metis prod.collapse)
    from claim_outcome[OF this] assms(6,7) that show False by auto
  qed
  ultimately show ?thesis using assms(8) by simp
qed

lemma lost_reply_leaks_lock_witness:
  "\<exists>gr. try_claim 1 ''a'' (Pid 1 4) [0, 1] (calm_grid [ReplyLost]) = (Inl Unsettled, gr)
     \<and> fst (try_claim 2 ''a'' (Pid 2 9) [0, 1, 2] gr) \<noteq> Inr ()"
proof -
  obtain out gr where t: "try_claim 1 ''a'' (Pid 1 4) [0, 1] (calm_grid [ReplyLost]) = (out, gr)" by fastforce
  have "peek ''a'' (tables (calm_grid [ReplyLost]) 0) = None"
    "hm_get (g_locks (tables (calm_grid [ReplyLost]) 0)) ''a'' \<in> {None, Some 1}"
    "fates (calm_grid [ReplyLost]) = ReplyLost # []"
    by (simp_all add: calm_grid_def global_new_def peek_def)
  from lost_reply_leaks_lock[OF _ this t, of 2 "[0, 1, 2]" gr "Pid 2 9"] t show ?thesis by simp
qed

end
