(* ===== verification/Claims.thy ===== *)
theory Claims
  imports Global_Names
begin

text \<open>
  Claims that run at the same time (\<^verbatim>\<open>GlobalNames::try_claim\<close>, \<^verbatim>\<open>src/global.rs\<close>): a claim as
  a sequence of steps, each of them one request, so that the steps of several claims may come
  in any order. \<open>Global_Names\<close> runs one claim without interruption; \<open>claim_steps_refine\<close>
  says that the steps are those of its \<open>try_claim\<close>.
\<close>

datatype 'n phase =
    Locking "'n list" "'n list"
  | Committing "'n list" "'n list"
  | Releasing "'n list" "'n claim_error + unit"
  | Finished "'n claim_error + unit"

record 'n claim =
  cm_node :: 'n
  cm_name :: string
  cm_pid :: "'n pid"
  cm_members :: "'n list"
  cm_phase :: "'n phase"

definition new_claim :: "'n \<Rightarrow> string \<Rightarrow> 'n pid \<Rightarrow> 'n list \<Rightarrow> 'n claim" where
  "new_claim m name p ns =
     \<lparr>cm_node = m, cm_name = name, cm_pid = p, cm_members = ns, cm_phase = Locking ns []\<rparr>"

text \<open>After the reply to a lock request: the next phase.\<close>

definition after_lock ::
  "'n \<Rightarrow> 'n list \<Rightarrow> 'n list \<Rightarrow> 'n global_response option \<Rightarrow> 'n phase" where
  "after_lock n ns held reply =
     (case reply of
        Some GLocked \<Rightarrow> Locking ns (held @ [n])
      | Some (GTaken q) \<Rightarrow> Releasing held (Inl (Taken q))
      | _ \<Rightarrow> Releasing held (Inl Unsettled))"

definition claim_step :: "fate \<Rightarrow> 'n claim \<Rightarrow> 'n tables \<Rightarrow> 'n claim \<times> 'n tables" where
  "claim_step d c tb =
     (let m = cm_node c; name = cm_name c
      in (case cm_phase c of
            Locking [] held \<Rightarrow> (c\<lparr>cm_phase := Committing held held\<rparr>, tb)
          | Locking (n # ns) held \<Rightarrow>
              (let (reply, tb') = ask_one d m n (GLock name m) tb
               in (c\<lparr>cm_phase := after_lock n ns held reply\<rparr>, tb'))
          | Committing [] held \<Rightarrow> (c\<lparr>cm_phase := Releasing held (Inr ())\<rparr>, tb)
          | Committing (n # ns) held \<Rightarrow>
              (c\<lparr>cm_phase := Committing ns held\<rparr>, snd (ask_one d m n (GCommit name (cm_pid c) m) tb))
          | Releasing [] out \<Rightarrow> (c\<lparr>cm_phase := Finished out\<rparr>, tb)
          | Releasing (n # ns) out \<Rightarrow>
              (c\<lparr>cm_phase := Releasing ns out\<rparr>, snd (ask_one d m n (GUnlock name m) tb))
          | Finished out \<Rightarrow> (c, tb)))"

text \<open>Several claims, and a schedule of whose turn it is and what befalls its request.\<close>

type_synonym 'n system = "'n claim list \<times> 'n tables"

definition system_step :: "nat \<times> fate \<Rightarrow> 'n system \<Rightarrow> 'n system" where
  "system_step turn s =
     (let (i, d) = turn; (cs, tb) = s
      in if i < length cs
         then (let (c, tb') = claim_step d (cs ! i) tb in (cs[i := c], tb')) else s)"

definition run_system :: "(nat \<times> fate) list \<Rightarrow> 'n system \<Rightarrow> 'n system" where
  "run_system turns s = fold system_step turns s"

text \<open>A claim has won when it holds every member's lock, and stays so.\<close>

definition won :: "'n claim \<Rightarrow> bool" where
  "won c \<longleftrightarrow>
     (case cm_phase c of
        Locking _ _ \<Rightarrow> False | Committing _ _ \<Rightarrow> True
      | Releasing _ out \<Rightarrow> out = Inr () | Finished out \<Rightarrow> out = Inr ())"

definition holds :: "'n claim \<Rightarrow> 'n set" where
  "holds c = (case cm_phase c of Locking _ held \<Rightarrow> set held | Committing _ held \<Rightarrow> set held | _ \<Rightarrow> {})"

definition is_locking :: "'n claim \<Rightarrow> bool" where
  "is_locking c \<longleftrightarrow> (case cm_phase c of Locking _ _ \<Rightarrow> True | _ \<Rightarrow> False)"

definition is_committing :: "'n claim \<Rightarrow> bool" where
  "is_committing c \<longleftrightarrow> (case cm_phase c of Committing _ _ \<Rightarrow> True | _ \<Rightarrow> False)"

text \<open>The members still to be asked, and how they relate to the whole list.\<close>

definition well_phased :: "'n claim \<Rightarrow> bool" where
  "well_phased c \<longleftrightarrow>
     cm_node c \<in> set (cm_members c) \<and>
     (case cm_phase c of
        Locking ns held \<Rightarrow> set ns \<union> set held = set (cm_members c)
      | Committing ns held \<Rightarrow> set held = set (cm_members c) \<and> set ns \<subseteq> set held
      | _ \<Rightarrow> True)"

text \<open>The claimant's own commit is done once it is no longer among those to come.\<close>

definition own_commit_done :: "'n claim \<Rightarrow> bool" where
  "own_commit_done c \<longleftrightarrow>
     (case cm_phase c of
        Locking _ _ \<Rightarrow> False | Committing ns _ \<Rightarrow> cm_node c \<notin> set ns
      | Releasing _ out \<Rightarrow> out = Inr () | Finished out \<Rightarrow> out = Inr ())"

definition to_commit :: "'n claim \<Rightarrow> 'n set" where
  "to_commit c = (case cm_phase c of Committing ns _ \<Rightarrow> set ns | _ \<Rightarrow> {})"

definition claim_inv :: "'n claim \<Rightarrow> 'n tables \<Rightarrow> bool" where
  "claim_inv c tb \<longleftrightarrow>
     well_phased c
     \<and> (\<forall>n \<in> holds c. hm_get (g_locks (tb n)) (cm_name c) = Some (cm_node c))
     \<and> (is_locking c \<longrightarrow> (\<forall>n \<in> holds c. peek (cm_name c) (tb n) = None))
     \<and> (\<forall>n \<in> to_commit c. peek (cm_name c) (tb n) = None \<or> peek (cm_name c) (tb n) = Some (cm_pid c))
     \<and> (own_commit_done c \<longrightarrow> peek (cm_name c) (tb (cm_node c)) = Some (cm_pid c))"

text \<open>Two claims that know of each other.\<close>

definition rivals :: "'n claim \<Rightarrow> 'n claim \<Rightarrow> bool" where
  "rivals c c' \<longleftrightarrow> cm_name c = cm_name c' \<and> cm_node c \<noteq> cm_node c'
     \<and> cm_node c \<in> set (cm_members c') \<and> cm_node c' \<in> set (cm_members c)"

section \<open>What a step does to the tables\<close>

lemma claim_step_fixed:
  "claim_step d c tb = (c', tb') \<Longrightarrow>
   cm_node c' = cm_node c \<and> cm_name c' = cm_name c \<and> cm_pid c' = cm_pid c \<and> cm_members c' = cm_members c"
  by (auto simp: claim_step_def Let_def split: phase.splits list.splits prod.splits)

lemma ask_one_tables:
  "snd (ask_one d m n req tb) = tb \<or> snd (ask_one d m n req tb) = tb(n := snd (global_apply req (tb n)))"
  by (auto simp: ask_one_def Let_def split: prod.splits)

lemma claim_step_tables:
  assumes "claim_step d c tb = (c', tb')" and "well_phased c"
  obtains "tb' = tb"
  | n where "tb' = tb(n := snd (global_apply (GLock (cm_name c) (cm_node c)) (tb n)))"
  | n where "n \<in> holds c" "n \<in> to_commit c"
      "tb' = tb(n := snd (global_apply (GCommit (cm_name c) (cm_pid c) (cm_node c)) (tb n)))"
  | n where "tb' = tb(n := snd (global_apply (GUnlock (cm_name c) (cm_node c)) (tb n)))"
proof (cases "cm_phase c")
  case (Locking ns held)
  show ?thesis
  proof (cases ns)
    case Nil
    then show ?thesis using assms(1) Locking that(1) by (simp add: claim_step_def Let_def)
  next
    case (Cons n ns')
    let ?req = "GLock (cm_name c) (cm_node c)"
    have "tb' = snd (ask_one d (cm_node c) n ?req tb)"
      using assms(1) Locking Cons by (auto simp: claim_step_def Let_def split: prod.splits)
    then show ?thesis using ask_one_tables[of d "cm_node c" n ?req tb] that(1,2) by auto
  qed
next
  case (Committing ns held)
  show ?thesis
  proof (cases ns)
    case Nil
    then show ?thesis using assms(1) Committing that(1) by (simp add: claim_step_def Let_def)
  next
    case (Cons n ns')
    let ?req = "GCommit (cm_name c) (cm_pid c) (cm_node c)"
    have "tb' = snd (ask_one d (cm_node c) n ?req tb)"
      using assms(1) Committing Cons by (auto simp: claim_step_def Let_def)
    moreover have "n \<in> holds c" "n \<in> to_commit c"
      using assms(2) Committing Cons by (auto simp: well_phased_def holds_def to_commit_def)
    ultimately show ?thesis using ask_one_tables[of d "cm_node c" n ?req tb] that(1,3) by auto
  qed
next
  case (Releasing ns out)
  show ?thesis
  proof (cases ns)
    case Nil
    then show ?thesis using assms(1) Releasing that(1) by (simp add: claim_step_def Let_def)
  next
    case (Cons n ns')
    let ?req = "GUnlock (cm_name c) (cm_node c)"
    have "tb' = snd (ask_one d (cm_node c) n ?req tb)"
      using assms(1) Releasing Cons by (auto simp: claim_step_def Let_def)
    then show ?thesis using ask_one_tables[of d "cm_node c" n ?req tb] that(1,4) by auto
  qed
next
  case (Finished out)
  then show ?thesis using assms(1) that(1) by (simp add: claim_step_def Let_def)
qed

lemma commit_effect:
  "g_locks (snd (global_apply (GCommit k p m) g)) = g_locks g"
  "peek k' (snd (global_apply (GCommit k p m) g)) = (if k' = k then Some p else peek k' g)"
  by (simp_all add: global_apply_def global_commit_def peek_def)

lemma claim_inv_keep:
  assumes "claim_inv c tb"
    and "\<And>n. n \<in> holds c \<Longrightarrow> hm_get (g_locks (tb n)) (cm_name c) = Some (cm_node c) \<Longrightarrow>
           hm_get (g_locks (tb' n)) (cm_name c) = Some (cm_node c)"
    and "\<And>n. is_locking c \<Longrightarrow> n \<in> holds c \<Longrightarrow> peek (cm_name c) (tb n) = None \<Longrightarrow> peek (cm_name c) (tb' n) = None"
    and "\<And>n. n \<in> to_commit c \<Longrightarrow> peek (cm_name c) (tb n) = None \<or> peek (cm_name c) (tb n) = Some (cm_pid c) \<Longrightarrow>
           peek (cm_name c) (tb' n) = None \<or> peek (cm_name c) (tb' n) = Some (cm_pid c)"
    and "own_commit_done c \<Longrightarrow> peek (cm_name c) (tb (cm_node c)) = Some (cm_pid c) \<Longrightarrow>
           peek (cm_name c) (tb' (cm_node c)) = Some (cm_pid c)"
  shows "claim_inv c tb'"
  using assms by (auto simp: claim_inv_def)

lemma claim_inv_same:
  assumes "claim_inv c tb" and "same_names tb tb'" and "same_locks m k tb tb'"
    and "cm_name c \<noteq> k \<or> cm_node c \<noteq> m"
  shows "claim_inv c tb'"
proof (rule claim_inv_keep[OF assms(1)])
  show "hm_get (g_locks (tb' n)) (cm_name c) = Some (cm_node c)"
    if "hm_get (g_locks (tb n)) (cm_name c) = Some (cm_node c)" for n
    using assms(3,4) that unfolding same_locks_def by auto
qed (use assms(2) in \<open>auto simp: same_names_def peek_def\<close>)

lemma step_other:
  assumes step: "claim_step d c tb = (c', tb')" and inv: "claim_inv c tb" "claim_inv b tb"
    and ne: "cm_name b \<noteq> cm_name c \<or> cm_node b \<noteq> cm_node c"
  shows "claim_inv b tb'"
proof -
  have "well_phased c" using inv(1) by (simp add: claim_inv_def)
  with step show ?thesis
  proof (cases rule: claim_step_tables)
    case 1
    then show ?thesis using inv(2) by simp
  next
    case (2 n)
    show ?thesis unfolding 2 by (rule claim_inv_same[OF inv(2) apply_lock_same ne])
  next
    case (4 n)
    show ?thesis unfolding 4 by (rule claim_inv_same[OF inv(2) apply_unlock_same ne])
  next
    case (3 n)
    have lock: "hm_get (g_locks (tb n)) (cm_name c) = Some (cm_node c)"
      using inv(1) 3(1) by (simp add: claim_inv_def)
    have 1: "n \<notin> holds b" if "cm_name b = cm_name c"
      using inv(2) ne lock that by (auto simp: claim_inv_def)
    then have 2: "n \<notin> to_commit b" if "cm_name b = cm_name c"
      using inv(2) that by (auto simp: claim_inv_def well_phased_def holds_def to_commit_def split: phase.splits)
    have "peek (cm_name c) (tb n) = None \<or> peek (cm_name c) (tb n) = Some (cm_pid c)"
      using inv(1) 3(2) by (simp add: claim_inv_def)
    with 1 2 show ?thesis
      by (intro claim_inv_keep[OF inv(2)]) (auto simp: 3(3) commit_effect)
  qed
qed

lemmas phase_simps = well_phased_def holds_def is_locking_def is_committing_def own_commit_done_def
  won_def to_commit_def

lemma lock_granted:
  assumes "ask_one d m n (GLock k m) tb = (Some GLocked, tb')"
  shows "hm_get (g_locks (tb' n)) k = Some m" and "peek k (tb' n) = None" and "same_names tb tb'"
    and "hm_get (g_locks (tb x)) k = Some m \<Longrightarrow> hm_get (g_locks (tb' x)) k = Some m"
proof -
  have e: "tb' = tb(n := snd (global_apply (GLock k m) (tb n)))"
    and r: "GLocked = fst (global_apply (GLock k m) (tb n))"
    using ask_one_effect(3)[OF assms] by auto
  obtain r g where l: "global_lock k m (tb n) = (r, g)" by fastforce
  have g: "tb' n = g" "r = GLocked" using e r l by (simp_all add: global_apply_def)
  show n: "same_names tb tb'" unfolding e by (rule apply_lock_same)
  show 1: "hm_get (g_locks (tb' n)) k = Some m" using lock_reply(1)[OF l] g by simp
  have "peek k (tb' n) = peek k (tb n)" using n by (simp add: same_names_def peek_def)
  with lock_reply(1)[OF l] g show "peek k (tb' n) = None" by simp
  show "hm_get (g_locks (tb x)) k = Some m \<Longrightarrow> hm_get (g_locks (tb' x)) k = Some m"
    using 1 e by (cases "x = n") auto
qed

lemma after_lock_fails:
  assumes "reply \<noteq> Some GLocked"
  shows "\<exists>e. after_lock n ns held reply = Releasing held (Inl e)"
proof (cases reply)
  case (Some r)
  with assms show ?thesis by (cases r) (auto simp: after_lock_def)
qed (simp add: after_lock_def)

lemma step_self:
  assumes step: "claim_step d c tb = (c', tb')" and inv: "claim_inv c tb"
  shows "claim_inv c' tb'"
proof (cases "cm_phase c")
  case (Locking ns held)
  show ?thesis
  proof (cases ns)
    case Nil
    then show ?thesis using step inv Locking
      by (auto simp: claim_step_def claim_inv_def phase_simps)
  next
    case (Cons n ns')
    obtain reply tb1 where a: "ask_one d (cm_node c) n (GLock (cm_name c) (cm_node c)) tb = (reply, tb1)"
      by fastforce
    have out: "c' = c\<lparr>cm_phase := after_lock n ns' held reply\<rparr>" "tb' = tb1"
      using step a Locking Cons by (simp_all add: claim_step_def)
    show ?thesis
    proof (cases "reply = Some GLocked")
      case True
      note L = lock_granted[OF a[unfolded True]]
      have "peek k (tb1 x) = peek k (tb x)" for k x using L(3) by (simp add: same_names_def peek_def)
      then show ?thesis using inv Locking Cons True L(1,2,4) out
        by (auto simp: claim_inv_def phase_simps after_lock_def)
    next
      case False
      obtain e where "after_lock n ns' held reply = Releasing held (Inl e)"
        using after_lock_fails[OF False, of n ns' held] by (elim exE)
      then show ?thesis using inv out by (simp add: claim_inv_def phase_simps)
    qed
  qed
next
  case (Committing ns held)
  show ?thesis
  proof (cases ns)
    case Nil
    then show ?thesis using step inv Committing
      by (auto simp: claim_step_def claim_inv_def phase_simps)
  next
    case (Cons n ns')
    let ?req = "GCommit (cm_name c) (cm_pid c) (cm_node c)"
    obtain reply tb1 where a: "ask_one d (cm_node c) n ?req tb = (reply, tb1)" by fastforce
    have out: "c' = c\<lparr>cm_phase := Committing ns' held\<rparr>" "tb' = tb1"
      using step a Committing Cons by (simp_all add: claim_step_def)
    note E = ask_one_effect(1,2)[OF a]
    have 1: "g_locks (tb1 x) = g_locks (tb x)" for x
      using E(1) by (auto simp: commit_effect)
    have 2: "peek (cm_name c) (tb1 x) = peek (cm_name c) (tb x) \<or> peek (cm_name c) (tb1 x) = Some (cm_pid c)" for x
      using E(1) by (auto simp: commit_effect)
    have 3: "n = cm_node c \<Longrightarrow> peek (cm_name c) (tb1 n) = Some (cm_pid c)"
      using E(2) by (simp add: commit_effect)
    have 4: "peek (cm_name c) (tb1 (cm_node c)) = Some (cm_pid c)" if "cm_node c \<notin> set ns'"
      using inv Committing Cons that 2[of "cm_node c"] 3
      by (cases "n = cm_node c") (auto simp: claim_inv_def phase_simps)
    have 5: "peek (cm_name c) (tb1 x) = None \<or> peek (cm_name c) (tb1 x) = Some (cm_pid c)" if "x \<in> set ns'" for x
      using inv Committing Cons that 2[of x] by (auto simp: claim_inv_def phase_simps)
    show ?thesis using inv Committing Cons out 1 4 5
      by (auto simp: claim_inv_def phase_simps)
  qed
next
  case (Releasing ns out)
  show ?thesis
  proof (cases ns)
    case Nil
    then show ?thesis using step inv Releasing
      by (auto simp: claim_step_def claim_inv_def phase_simps)
  next
    case (Cons n ns')
    obtain reply tb1 where a: "ask_one d (cm_node c) n (GUnlock (cm_name c) (cm_node c)) tb = (reply, tb1)"
      by fastforce
    have o: "c' = c\<lparr>cm_phase := Releasing ns' out\<rparr>" "tb' = tb1"
      using step a Releasing Cons by (simp_all add: claim_step_def)
    have "same_names tb tb1" using ask_one_effect(1)[OF a] apply_unlock_same(1) by auto
    then have "peek k (tb1 x) = peek k (tb x)" for k x by (simp add: same_names_def peek_def)
    then show ?thesis using inv Releasing Cons o by (auto simp: claim_inv_def phase_simps)
  qed
next
  case (Finished out)
  then show ?thesis using step inv by (simp add: claim_step_def)
qed

lemma won_step:
  assumes step: "claim_step d c tb = (c', tb')" and inv: "claim_inv c tb" "claim_inv b tb"
    and riv: "rivals c b" and b: "won b" and nw: "\<not> won c"
  shows "\<not> won c'"
proof
  assume "won c'"
  then obtain held where ph: "cm_phase c = Locking [] held"
    using step nw by (cases "cm_phase c")
      (auto simp: claim_step_def won_def Let_def after_lock_def
        split: list.splits prod.splits option.splits global_response.splits)
  have mem: "cm_node b \<in> holds c" "cm_node c \<in> holds c"
    using inv(1) ph riv by (auto simp: claim_inv_def phase_simps rivals_def)
  have lock: "hm_get (g_locks (tb (cm_node c))) (cm_name c) = Some (cm_node c)"
    and free: "peek (cm_name c) (tb (cm_node b)) = None"
    using inv(1) mem ph by (auto simp: claim_inv_def is_locking_def)
  show False
  proof (cases "is_committing b")
    case True
    then have "cm_node c \<in> holds b"
      using inv(2) riv by (auto simp: claim_inv_def phase_simps rivals_def split: phase.splits)
    then have "hm_get (g_locks (tb (cm_node c))) (cm_name b) = Some (cm_node b)"
      using inv(2) by (simp add: claim_inv_def)
    with lock riv show False by (simp add: rivals_def)
  next
    case False
    with b have "own_commit_done b" by (auto simp: phase_simps split: phase.splits)
    then have "peek (cm_name b) (tb (cm_node b)) = Some (cm_pid b)" using inv(2) by (simp add: claim_inv_def)
    with free riv show False by (simp add: rivals_def)
  qed
qed

section \<open>Claims in parallel\<close>

definition system_inv :: "'n system \<Rightarrow> bool" where
  "system_inv s \<longleftrightarrow>
     (\<forall>i < length (fst s). claim_inv (fst s ! i) (snd s))
     \<and> (\<forall>i < length (fst s). \<forall>j < length (fst s). i \<noteq> j \<longrightarrow>
          cm_name (fst s ! i) \<noteq> cm_name (fst s ! j) \<or> cm_node (fst s ! i) \<noteq> cm_node (fst s ! j))
     \<and> (\<forall>i < length (fst s). \<forall>j < length (fst s). i \<noteq> j \<longrightarrow> rivals (fst s ! i) (fst s ! j) \<longrightarrow>
          \<not> (won (fst s ! i) \<and> won (fst s ! j)))"

lemma rivals_sym: "rivals c b \<Longrightarrow> rivals b c"
  by (auto simp: rivals_def)

lemma system_inv_step:
  assumes inv: "system_inv s"
  shows "system_inv (system_step turn s)"
proof -
  obtain i d where t: "turn = (i, d)" by fastforce
  obtain cs tb where s: "s = (cs, tb)" by fastforce
  show ?thesis
  proof (cases "i < length cs")
    case False
    then show ?thesis using inv by (simp add: system_step_def t s)
  next
    case True
    obtain c' tb' where step: "claim_step d (cs ! i) tb = (c', tb')" by fastforce
    have new: "system_step turn s = (cs[i := c'], tb')" using True step by (simp add: system_step_def t s)
    note F = claim_step_fixed[OF step]
    have I: "claim_inv (cs ! j) tb" if "j < length cs" for j using inv s that by (simp add: system_inv_def)
    have D: "cm_name (cs ! j) \<noteq> cm_name (cs ! k) \<or> cm_node (cs ! j) \<noteq> cm_node (cs ! k)"
      if "j < length cs" "k < length cs" "j \<noteq> k" for j k
      using inv s that by (simp add: system_inv_def)
    have W: "\<not> (won (cs ! j) \<and> won (cs ! k))"
      if "j < length cs" "k < length cs" "j \<noteq> k" "rivals (cs ! j) (cs ! k)" for j k
      using inv s that by (simp add: system_inv_def)
    have inv': "claim_inv (cs[i := c'] ! j) tb'" if "j < length cs" for j
      using step_self[OF step I[OF True]] step_other[OF step I[OF True] I[OF that]] D[OF that True] that
      by (cases "j = i") auto
    have win: "\<not> (won c' \<and> won (cs ! k))" if "k < length cs" "k \<noteq> i" "rivals (cs ! i) (cs ! k)" for k
      using won_step[OF step I[OF True] I[OF that(1)] that(3)] W[OF True that(1) _ that(3)] that(2) by auto
    have riv: "rivals c' b = rivals (cs ! i) b" "rivals b c' = rivals b (cs ! i)" for b
      using F by (auto simp: rivals_def)
    have "\<not> (won (cs[i := c'] ! j) \<and> won (cs[i := c'] ! k))"
      if "j < length cs" "k < length cs" "j \<noteq> k" "rivals (cs[i := c'] ! j) (cs[i := c'] ! k)" for j k
      using that W[of j k] win[of k] win[of j] riv rivals_sym
      by (cases "j = i"; cases "k = i") auto
    moreover have "cm_name (cs[i := c'] ! j) \<noteq> cm_name (cs[i := c'] ! k)
        \<or> cm_node (cs[i := c'] ! j) \<noteq> cm_node (cs[i := c'] ! k)"
      if "j < length cs" "k < length cs" "j \<noteq> k" for j k
      using that D[of j k] F by (cases "j = i"; cases "k = i") auto
    ultimately show ?thesis using inv' unfolding new system_inv_def by simp
  qed
qed

lemma system_inv_run: "system_inv s \<Longrightarrow> system_inv (run_system turns s)"
  unfolding run_system_def
proof (induction turns arbitrary: s)
  case (Cons turn turns)
  from Cons.IH[OF system_inv_step[OF Cons.prems]] show ?case by simp
qed simp

lemma run_system_fixed:
  "run_system turns s = s' \<Longrightarrow> length (fst s') = length (fst s) \<and>
   (\<forall>i < length (fst s). cm_node (fst s' ! i) = cm_node (fst s ! i) \<and> cm_name (fst s' ! i) = cm_name (fst s ! i)
      \<and> cm_pid (fst s' ! i) = cm_pid (fst s ! i) \<and> cm_members (fst s' ! i) = cm_members (fst s ! i))"
  unfolding run_system_def
proof (induction turns arbitrary: s)
  case (Cons turn turns)
  obtain i d where t: "turn = (i, d)" by fastforce
  obtain cs tb where s: "s = (cs, tb)" by fastforce
  obtain c' tb' where step: "claim_step d (cs ! i) tb = (c', tb')" by fastforce
  have one: "length (fst (system_step turn s)) = length cs \<and>
    (\<forall>j < length cs. cm_node (fst (system_step turn s) ! j) = cm_node (cs ! j)
      \<and> cm_name (fst (system_step turn s) ! j) = cm_name (cs ! j)
      \<and> cm_pid (fst (system_step turn s) ! j) = cm_pid (cs ! j)
      \<and> cm_members (fst (system_step turn s) ! j) = cm_members (cs ! j))"
    using claim_step_fixed[OF step] step t s by (auto simp: system_step_def nth_update_any)
  from Cons.IH[of "system_step turn s"] Cons.prems one s show ?case by simp
qed simp

definition fresh_claims :: "'n claim list \<Rightarrow> bool" where
  "fresh_claims cs \<longleftrightarrow>
     (\<forall>c \<in> set cs. cm_phase c = Locking (cm_members c) [] \<and> cm_node c \<in> set (cm_members c))
     \<and> distinct (map (\<lambda>c. (cm_name c, cm_node c)) cs)"

lemma fresh_claims_inv: "fresh_claims cs \<Longrightarrow> system_inv (cs, tb)"
  by (auto simp: fresh_claims_def system_inv_def claim_inv_def phase_simps distinct_conv_nth)


definition two_claims :: "nat claim list" where
  "two_claims = [new_claim 0 ''a'' (Pid 0 7) [0, 1], new_claim 1 ''a'' (Pid 1 3) [0, 1]]"

definition race_turns :: "(nat \<times> fate) list" where
  "race_turns = map (\<lambda>i. (i, Arrives)) [0, 1, 0, 0, 0, 1, 0, 0, 0, 0, 0, 0]"


section \<open>A claim on its own\<close>

definition steps :: "fate list \<Rightarrow> 'n claim \<times> 'n tables \<Rightarrow> 'n claim \<times> 'n tables" where
  "steps ds s = fold (\<lambda>d (c, tb). claim_step d c tb) ds s"

lemma steps_simps [simp]:
  "steps [] s = s"
  "steps (d # ds) (c, tb) = steps ds (claim_step d c tb)"
  by (simp_all add: steps_def)

lemma steps_append: "steps (ds @ es) s = steps es (steps ds s)"
  by (simp add: steps_def)

lemma steps_system: "run_system (map (Pair 0) ds) ([c], tb) = (case steps ds (c, tb) of (c', tb') \<Rightarrow> ([c'], tb'))"
proof (induction ds arbitrary: c tb)
  case (Cons d ds)
  obtain c' tb' where step: "claim_step d c tb = (c', tb')" by fastforce
  from Cons.IH[of c' tb'] step show ?case by (simp add: run_system_def system_step_def)
qed (simp add: run_system_def)

lemma ask_tables:
  "tables (snd (ask m n req gr)) = snd (ask_one (next_fate (fates gr)) m n req (tables gr))"
  "fst (ask m n req gr) = fst (ask_one (next_fate (fates gr)) m n req (tables gr))"
  by (auto simp: ask_def Let_def split: prod.splits)

lemma steps_release:
  "\<exists>ds. steps ds (c\<lparr>cm_phase := Releasing ns out\<rparr>, tables gr)
     = (c\<lparr>cm_phase := Finished out\<rparr>, tables (release_locks (cm_node c) ns (cm_name c) gr))"
proof (induction ns arbitrary: gr)
  case Nil
  show ?case by (rule exI[of _ "[Arrives]"]) (simp add: claim_step_def)
next
  case (Cons n ns)
  let ?gr1 = "snd (ask (cm_node c) n (GUnlock (cm_name c) (cm_node c)) gr)"
  from Cons[of ?gr1] obtain ds where d: "steps ds (c\<lparr>cm_phase := Releasing ns out\<rparr>, tables ?gr1)
     = (c\<lparr>cm_phase := Finished out\<rparr>, tables (release_locks (cm_node c) ns (cm_name c) ?gr1))"
    by (elim exE)
  show ?case by (rule exI[of _ "next_fate (fates gr) # ds"])
    (use d in \<open>simp add: claim_step_def ask_tables Let_def\<close>)
qed

lemma steps_commit:
  "\<exists>ds. steps ds (c\<lparr>cm_phase := Committing ns held\<rparr>, tables gr)
     = (c\<lparr>cm_phase := Releasing held (Inr ())\<rparr>, tables (commit_all (cm_node c) ns (cm_name c) (cm_pid c) gr))"
proof (induction ns arbitrary: gr)
  case Nil
  show ?case by (rule exI[of _ "[Arrives]"]) (simp add: claim_step_def)
next
  case (Cons n ns)
  let ?gr1 = "snd (ask (cm_node c) n (GCommit (cm_name c) (cm_pid c) (cm_node c)) gr)"
  from Cons[of ?gr1] obtain ds where d: "steps ds (c\<lparr>cm_phase := Committing ns held\<rparr>, tables ?gr1)
     = (c\<lparr>cm_phase := Releasing held (Inr ())\<rparr>, tables (commit_all (cm_node c) ns (cm_name c) (cm_pid c) ?gr1))"
    by (elim exE)
  show ?case by (rule exI[of _ "next_fate (fates gr) # ds"])
    (use d in \<open>simp add: claim_step_def ask_tables Let_def\<close>)
qed

lemma steps_chain:
  "\<exists>ds. steps ds s = s' \<Longrightarrow> \<exists>ds. steps ds s' = s'' \<Longrightarrow> \<exists>ds. steps ds s = s''"
  using steps_append by metis

lemma steps_lock:
  "claim_loop (cm_node c) (cm_name c) (cm_pid c) held ns gr = (out, gr') \<Longrightarrow>
   \<exists>ds. steps ds (c\<lparr>cm_phase := Locking ns held\<rparr>, tables gr) = (c\<lparr>cm_phase := Finished out\<rparr>, tables gr')"
proof (induction ns arbitrary: held gr)
  case Nil
  let ?gr1 = "commit_all (cm_node c) held (cm_name c) (cm_pid c) gr"
  have 1: "\<exists>ds. steps ds (c\<lparr>cm_phase := Locking [] held\<rparr>, tables gr) = (c\<lparr>cm_phase := Committing held held\<rparr>, tables gr)"
    by (rule exI[of _ "[Arrives]"]) (simp add: claim_step_def)
  from steps_chain[OF steps_chain[OF 1 steps_commit] steps_release[where c = c and ns = held and gr = ?gr1]] Nil
  show ?case by auto
next
  case (Cons n ns)
  obtain reply gr1 where a: "ask (cm_node c) n (GLock (cm_name c) (cm_node c)) gr = (reply, gr1)"
    by fastforce
  have o: "ask_one (next_fate (fates gr)) (cm_node c) n (GLock (cm_name c) (cm_node c)) (tables gr) = (reply, tables gr1)"
    using ask_tables[of "cm_node c" n "GLock (cm_name c) (cm_node c)" gr] a by (simp add: prod_eq_iff)
  have step: "\<exists>ds. steps ds (c\<lparr>cm_phase := Locking (n # ns) held\<rparr>, tables gr)
      = (c\<lparr>cm_phase := after_lock n ns held reply\<rparr>, tables gr1)"
    by (rule exI[of _ "[next_fate (fates gr)]"]) (simp add: claim_step_def o)
  show ?case
  proof (cases "reply = Some GLocked")
    case True
    then have "claim_loop (cm_node c) (cm_name c) (cm_pid c) (held @ [n]) ns gr1 = (out, gr')"
      using Cons.prems a by (simp add: ask_lock_def)
    from steps_chain[OF step] Cons.IH[OF this] True show ?thesis by (simp add: after_lock_def)
  next
    case False
    then have "gr' = release_locks (cm_node c) held (cm_name c) gr1"
      "after_lock n ns held reply = Releasing held out"
      using Cons.prems a
      by (cases reply; cases "the reply"; auto simp: ask_lock_def after_lock_def)+
    with steps_chain[OF step] steps_release[where c = c and ns = held and out = out and gr = gr1] show ?thesis by simp
  qed
qed

text \<open>How many turns a claim still needs.\<close>

definition turns_left :: "'n claim \<Rightarrow> nat" where
  "turns_left c =
     (case cm_phase c of
        Locking ns held \<Rightarrow> 3 * length ns + 2 * length held + 3
      | Committing ns held \<Rightarrow> length ns + length held + 2
      | Releasing ns out \<Rightarrow> length ns + 1
      | Finished out \<Rightarrow> 0)"

lemma turns_left_step: "turns_left (fst (claim_step d c tb)) \<le> turns_left c - 1"
  by (auto simp: claim_step_def turns_left_def Let_def after_lock_def
      split: phase.splits list.splits prod.splits option.splits global_response.splits)

lemma turns_left_run:
  "i < length (fst s) \<Longrightarrow>
   turns_left (fst (run_system turns s) ! i) \<le> turns_left (fst s ! i) - length (filter (\<lambda>t. fst t = i) turns)"
  unfolding run_system_def
proof (induction turns arbitrary: s)
  case (Cons turn turns)
  obtain j d where t: "turn = (j, d)" by fastforce
  obtain cs tb where s: "s = (cs, tb)" by fastforce
  have "turns_left (fst (system_step turn s) ! i) \<le> turns_left (cs ! i) - (if j = i then 1 else 0)"
    using turns_left_step[of d "cs ! i" tb] Cons.prems
    by (auto simp: system_step_def t s nth_update_any split: prod.splits)
  moreover have "i < length (fst (system_step turn s))"
    using Cons.prems by (auto simp: system_step_def t s split: prod.splits)
  ultimately show ?case using Cons.IH[of "system_step turn s"] t s by fastforce
qed simp



section \<open>Two claims from one node\<close>

lemma global_lock_free:
  "peek k g = None \<Longrightarrow> hm_get (g_locks g) k \<in> {None, Some m} \<Longrightarrow>
   global_lock k m g = (GLocked, g\<lparr>g_locks := hm_insert k m (g_locks g)\<rparr>)"
  by (auto simp: global_lock_def lock_raced_def peek_def Let_def split: option.splits)

definition both_turns :: "(nat \<times> fate) list" where
  "both_turns = map (\<lambda>i. (i, Arrives)) [0, 0, 1, 1, 0, 0, 0, 0, 1, 1, 1, 1]"

text \<open>
  A lock is held by a node, not by a claim, and so does not keep two claims of one node
  apart. Two particles of a node that claim the same free name at the same time can both be
  told that they own it, although no message is lost: the second finds the lock taken by its own
  node and enters. The table then names the one that committed last.
\<close>

lemma same_node_claims_both_win:
  assumes "peek name (tb m) = None" and "hm_get (g_locks (tb m)) name = None"
  shows "\<exists>turns tb'. (\<forall>t \<in> set turns. snd t = Arrives)
    \<and> run_system turns ([new_claim m name p [m], new_claim m name q [m]], tb)
      = ([(new_claim m name p [m])\<lparr>cm_phase := Finished (Inr ())\<rparr>,
          (new_claim m name q [m])\<lparr>cm_phase := Finished (Inr ())\<rparr>], tb')
    \<and> peek name (tb' m) = Some q"
proof -
  let ?l = "hm_insert name m"
  let ?tb1 = "tb(m := (tb m)\<lparr>g_locks := ?l (g_locks (tb m))\<rparr>)"
  have 1: "run_system [(0, Arrives), (0, Arrives), (1, Arrives), (1, Arrives)]
      ([new_claim m name p [m], new_claim m name q [m]], tb)
    = ([(new_claim m name p [m])\<lparr>cm_phase := Committing [m] [m]\<rparr>,
        (new_claim m name q [m])\<lparr>cm_phase := Committing [m] [m]\<rparr>],
       ?tb1(m := (?tb1 m)\<lparr>g_locks := ?l (g_locks (?tb1 m))\<rparr>))"
    using assms
    by (simp add: run_system_def system_step_def claim_step_def new_claim_def ask_one_def
        global_apply_def global_lock_free peek_def after_lock_def Let_def)
  have 2: "both_turns = [(0, Arrives), (0, Arrives), (1, Arrives), (1, Arrives)]
      @ map (Pair 0) [Arrives, Arrives, Arrives, Arrives] @ map (Pair 1) [Arrives, Arrives, Arrives, Arrives]"
    by (simp add: both_turns_def)
  have "\<exists>tb'. run_system both_turns ([new_claim m name p [m], new_claim m name q [m]], tb)
      = ([(new_claim m name p [m])\<lparr>cm_phase := Finished (Inr ())\<rparr>,
          (new_claim m name q [m])\<lparr>cm_phase := Finished (Inr ())\<rparr>], tb') \<and> peek name (tb' m) = Some q"
    unfolding 2 run_system_def fold_append comp_apply 1[unfolded run_system_def]
    by (simp add: system_step_def claim_step_def ask_one_def new_claim_def
        global_apply_def global_commit_def global_unlock_def peek_def)
  moreover have "\<forall>t \<in> set both_turns. snd t = Arrives" by (simp add: both_turns_def)
  ultimately show ?thesis by blast
qed

lemma same_node_claims_both_win_witness:
  "\<exists>turns tb'. run_system turns ([new_claim 0 ''a'' (Pid 0 1) [0], new_claim 0 ''a'' (Pid 0 2) [0]], global_new)
      = ([(new_claim 0 ''a'' (Pid 0 1) [0])\<lparr>cm_phase := Finished (Inr ())\<rparr>,
          (new_claim (0 :: nat) ''a'' (Pid 0 2) [0])\<lparr>cm_phase := Finished (Inr ())\<rparr>], tb')
    \<and> peek ''a'' (tb' 0) = Some (Pid 0 2)"
  using same_node_claims_both_win[of "''a''" global_new "0 :: nat" "Pid 0 1" "Pid 0 2"]
  by (auto simp: global_new_def peek_def)

end
