(* ===== verification/Supervise.thy ===== *)
theory Supervise
  imports Supervisors Messages
begin

text \<open>
  The particle side of supervision (\<^verbatim>\<open>crates/plasmoid-sdk/src/supervise.rs\<close>): the loops of
  \<^verbatim>\<open>run_supervisor!\<close> and \<^verbatim>\<open>run_dynamic_supervisor!\<close>, which turn the actions of the policy
  into host calls and the messages they receive into events of the policy.

  The host is a script: the readings of the clock, the outcomes of \<^verbatim>\<open>spawn-link\<close> (the new
  child's pid string, or an error) and the messages \<^verbatim>\<open>recv\<close> returns are arguments, and the
  calls the driver makes are a trace. A loop that need not end takes fuel.
\<close>

section \<open>The host, as the driver sees it\<close>

datatype host_call =
    HTrapExit bool
  | HSpawnLink string string
  | HSignal string wit_reason
  | HLog string
  | HExit wit_reason
  | HRecv "u64 option"
  | HReply string u64 bytes

record host =
  clock :: "nat \<Rightarrow> u64"
  clock_reads :: nat
  spawn_results :: "nat \<Rightarrow> string option"
  spawn_calls :: nat
  trace :: "host_call list"

definition call :: "host_call \<Rightarrow> host \<Rightarrow> host" where
  "call c h = h\<lparr>trace := trace h @ [c]\<rparr>"

definition now_ms :: "host \<Rightarrow> u64 \<times> host" where
  "now_ms h = (clock h (clock_reads h), h\<lparr>clock_reads := Suc (clock_reads h)\<rparr>)"

definition spawn_link :: "start_spec \<Rightarrow> host \<Rightarrow> string option \<times> host" where
  "spawn_link st h =
     (spawn_results h (spawn_calls h),
      call (HSpawnLink (component st) (init_args st)) (h\<lparr>spawn_calls := Suc (spawn_calls h)\<rparr>))"

definition reason_from_host :: "wit_reason \<Rightarrow> sdk_reason" where
  "reason_from_host r =
     (case r of WNormal \<Rightarrow> SNormal | WKill \<Rightarrow> SKill | WKilled \<Rightarrow> SKilled | WShutdown s \<Rightarrow> SShutdown s
      | WException s \<Rightarrow> SException s | WNoproc \<Rightarrow> SNoProc | WNoconnection \<Rightarrow> SNoConnection)"

section \<open>The driver's own state\<close>

text \<open>\<open>live\<close> relates ids to pid strings, \<open>pending\<close> ids to the moment patience runs out.\<close>

record 's driver =
  policy :: 's
  live :: "(string \<times> string) list"
  pending :: "(string \<times> u64) list"
  the_host :: host

definition driver_new :: "'s \<Rightarrow> host \<Rightarrow> 's driver" where
  "driver_new s h = \<lparr>policy = s, live = [], pending = [], the_host = call (HTrapExit True) h\<rparr>"

definition without :: "string \<Rightarrow> (string \<times> 'v) list \<Rightarrow> (string \<times> 'v) list" where
  "without i xs = filter (\<lambda>(j, _). j \<noteq> i) xs"

definition key_of :: "string \<Rightarrow> (string \<times> string) list \<Rightarrow> string option" where
  "key_of i xs = map_option snd (find (\<lambda>(j, _). j = i) xs)"

definition id_of :: "string \<Rightarrow> (string \<times> string) list \<Rightarrow> string option" where
  "id_of k xs = map_option fst (find (\<lambda>(_, k'). k' = k) xs)"

definition note_start :: "child_spec \<Rightarrow> string \<Rightarrow> 's driver \<Rightarrow> 's driver" where
  "note_start spec k d = d\<lparr>live := without (child_id spec) (live d) @ [(child_id spec, k)]\<rparr>"

definition shutdown_reason :: wit_reason where
  "shutdown_reason = WShutdown ''shutdown''"

definition do_stop :: "string \<Rightarrow> shutdown_kind \<Rightarrow> 's driver \<Rightarrow> 's driver" where
  "do_stop i how d =
     (case key_of i (live d) of
        None \<Rightarrow> d
      | Some k \<Rightarrow>
          (case how of
             BrutalKill \<Rightarrow>
               d\<lparr>the_host := call (HSignal k WKill) (the_host d), live := without i (live d)\<rparr>
           | Timeout ms \<Rightarrow>
               (let (now, h) = now_ms (call (HSignal k shutdown_reason) (the_host d))
                in d\<lparr>the_host := h, pending := pending d @ [(i, now + ms)]\<rparr>)
           | Infinity \<Rightarrow> d\<lparr>the_host := call (HSignal k shutdown_reason) (the_host d)\<rparr>))"

definition do_give_up :: "string \<Rightarrow> 's driver \<Rightarrow> 's driver" where
  "do_give_up msg d = d\<lparr>the_host := call (HExit shutdown_reason) (call (HLog msg) (the_host d))\<rparr>"

section \<open>Waiting\<close>

text \<open>\<^verbatim>\<open>recv\<close> waits for the nearest deadline; every pending child costs a reading of the clock.\<close>

fun waits :: "(string \<times> u64) list \<Rightarrow> host \<Rightarrow> u64 list \<times> host" where
  "waits [] h = ([], h)"
| "waits ((_, deadline) # ps) h =
     (let (now, h1) = now_ms h; (ws, h2) = waits ps h1 in (sat_sub deadline now # ws, h2))"

definition wait_limit :: "'s driver \<Rightarrow> 's driver" where
  "wait_limit d =
     (let (ws, h) = waits (pending d) (the_host d)
      in d\<lparr>the_host := call (HRecv (if ws = [] then None else Some (Min (set ws)))) h\<rparr>)"

definition kill_overdue :: "(string \<Rightarrow> host \<Rightarrow> host) \<Rightarrow> string \<Rightarrow> 's driver \<Rightarrow> 's driver" where
  "kill_overdue complain i d =
     (let d1 = (case key_of i (live d) of
                  None \<Rightarrow> d
                | Some k \<Rightarrow> d\<lparr>the_host := call (HSignal k WKill) (complain i (the_host d)),
                               live := without i (live d)\<rparr>)
      in d1\<lparr>pending := without i (pending d1)\<rparr>)"

definition patience_over :: "(string \<Rightarrow> host \<Rightarrow> host) \<Rightarrow> 's driver \<Rightarrow> 's driver" where
  "patience_over complain d =
     (let (now, h) = now_ms (the_host d)
      in fold (kill_overdue complain)
           (map fst (filter (\<lambda>(_, deadline). deadline \<le> now) (pending d))) (d\<lparr>the_host := h\<rparr>))"

section \<open>The static supervisor\<close>

datatype event =
    EvExit string wit_reason
  | EvTagged u64 bytes
  | EvOther
  | EvTimeout

fun run_batch :: "action list \<Rightarrow> supervisor driver \<Rightarrow> bool \<times> action list \<times> supervisor driver" where
  "run_batch [] d = (False, [], d)"
| "run_batch (GiveUp # acts) d =
     (True, [], do_give_up ''restart intensity exceeded; supervisor giving up'' d)"
| "run_batch (Stop i how # acts) d = run_batch acts (do_stop i how d)"
| "run_batch (Start spec # acts) d =
     (case spawn_link (start spec) (the_host d) of
        (Some k, h) \<Rightarrow> run_batch acts (note_start spec k (d\<lparr>the_host := h\<rparr>))
      | (None, h) \<Rightarrow>
          (let (now, h1) = now_ms (call (HLog ''could not start child'') h);
               (again, s) = on_child_exit (policy d) (child_id spec) (SException ''start failed'') now;
               (stop, rest, d') = run_batch acts (d\<lparr>policy := s, the_host := h1\<rparr>)
           in (stop, again @ rest, d')))"

fun drain :: "nat \<Rightarrow> action list \<Rightarrow> supervisor driver \<Rightarrow> (bool \<times> supervisor driver) option" where
  "drain fuel [] d = Some (False, d)"
| "drain 0 (a # acts) d = None"
| "drain (Suc fuel) (a # acts) d =
     (case run_batch (a # acts) d of
        (True, _, d') \<Rightarrow> Some (True, d')
      | (False, again, d') \<Rightarrow> drain fuel again d')"

definition complain_loudly :: "string \<Rightarrow> host \<Rightarrow> host" where
  "complain_loudly i h = call (HLog (''child '' @ i @ '' ignored shutdown; killing it'')) h"

definition on_event :: "event \<Rightarrow> supervisor driver \<Rightarrow> action list \<times> supervisor driver" where
  "on_event e d =
     (case e of
        EvExit k r \<Rightarrow>
          (case id_of k (live d) of
             None \<Rightarrow> ([], d)
           | Some i \<Rightarrow>
               (let (now, h) = now_ms (the_host d);
                    (acts, s) = on_child_exit (policy d) i (reason_from_host r) now
                in (acts, d\<lparr>policy := s, live := without i (live d), pending := without i (pending d),
                            the_host := h\<rparr>)))
      | EvTimeout \<Rightarrow> ([], patience_over complain_loudly d)
      | _ \<Rightarrow> ([], d))"

fun supervise :: "nat \<Rightarrow> action list \<Rightarrow> event list \<Rightarrow> supervisor driver \<Rightarrow> (bool \<times> supervisor driver) option" where
  "supervise fuel acts [] d = drain fuel acts d"
| "supervise fuel acts (e # es) d =
     (case drain fuel acts d of
        None \<Rightarrow> None
      | Some (True, d1) \<Rightarrow> Some (True, d1)
      | Some (False, d1) \<Rightarrow>
          (let (acts', d2) = on_event e (wait_limit d1) in supervise fuel acts' es d2))"

definition run_supervisor ::
  "nat \<Rightarrow> sup_flags \<Rightarrow> child_spec list \<Rightarrow> event list \<Rightarrow> host \<Rightarrow> (bool \<times> supervisor driver) option" where
  "run_supervisor fuel fl cs es h =
     (let d = driver_new (supervisor_new fl cs) h; (acts, s) = sup_init (policy d)
      in supervise fuel acts es (d\<lparr>policy := s\<rparr>))"

section \<open>The dynamic supervisor\<close>

datatype supervisor_op = StartChild child_spec | TerminateChild string

record supervisor_command =
  reply_to :: string
  op :: supervisor_op

datatype supervisor_reply = Started string | Terminated | Refused string

text \<open>
  \<open>run_dynamic_batch\<close> has no failure path: a child that cannot be started is logged.
  \<open>codec\<close> is the SDK's message encoding (postcard) and the text of a refusal.
\<close>

fun run_dynamic_batch :: "action list \<Rightarrow> dyn_supervisor driver \<Rightarrow> bool \<times> dyn_supervisor driver" where
  "run_dynamic_batch [] d = (False, d)"
| "run_dynamic_batch (GiveUp # acts) d =
     (True, do_give_up ''restart intensity exceeded; dynamic supervisor giving up'' d)"
| "run_dynamic_batch (Stop i how # acts) d = run_dynamic_batch acts (do_stop i how d)"
| "run_dynamic_batch (Start spec # acts) d =
     (case spawn_link (start spec) (the_host d) of
        (Some k, h) \<Rightarrow> run_dynamic_batch acts (note_start spec k (d\<lparr>the_host := h\<rparr>))
      | (None, h) \<Rightarrow> run_dynamic_batch acts (d\<lparr>the_host := call (HLog ''could not start'') h\<rparr>))"

record codec =
  decode_command :: "bytes \<Rightarrow> string + supervisor_command"
  encode_reply :: "supervisor_reply \<Rightarrow> bytes"
  show_error :: "start_child_error \<Rightarrow> string"

definition handle_command ::
  "codec \<Rightarrow> supervisor_op \<Rightarrow> dyn_supervisor \<Rightarrow> action list \<times> supervisor_reply \<times> dyn_supervisor" where
  "handle_command c oper s =
     (case oper of
        StartChild spec \<Rightarrow>
          (case start_child s spec of
             (Inr a, s') \<Rightarrow> ([a], Started (child_id spec), s')
           | (Inl e, s') \<Rightarrow> ([], Refused (show_error c e), s'))
      | TerminateChild i \<Rightarrow>
          (case terminate_child s i of
             (Some a, s') \<Rightarrow> ([a], Terminated, s')
           | (None, s') \<Rightarrow> ([], Refused (''no child '' @ i), s')))"

definition on_dynamic_event ::
  "codec \<Rightarrow> event \<Rightarrow> dyn_supervisor driver \<Rightarrow> action list \<times> dyn_supervisor driver" where
  "on_dynamic_event c e d =
     (case e of
        EvExit k r \<Rightarrow>
          (case id_of k (live d) of
             None \<Rightarrow> ([], d)
           | Some i \<Rightarrow>
               (let (now, h) = now_ms (the_host d);
                    (acts, s) = dyn_on_child_exit (policy d) i (reason_from_host r) now
                in (acts, d\<lparr>policy := s, live := without i (live d), pending := without i (pending d),
                            the_host := h\<rparr>)))
      | EvTagged ref_id payload \<Rightarrow>
          (case decode_command c payload of
             Inl _ \<Rightarrow> ([], d)
           | Inr cmd \<Rightarrow>
               (let (acts, reply, s) = handle_command c (op cmd) (policy d)
                in (acts, d\<lparr>policy := s,
                     the_host := call (HReply (reply_to cmd) ref_id (encode_reply c reply)) (the_host d)\<rparr>)))
      | EvOther \<Rightarrow> ([], d)
      | EvTimeout \<Rightarrow> ([], patience_over (\<lambda>_ h. h) d))"

fun supervise_pool ::
  "codec \<Rightarrow> action list \<Rightarrow> event list \<Rightarrow> dyn_supervisor driver \<Rightarrow> bool \<times> dyn_supervisor driver" where
  "supervise_pool c acts [] d = run_dynamic_batch acts d"
| "supervise_pool c acts (e # es) d =
     (case run_dynamic_batch acts d of
        (True, d1) \<Rightarrow> (True, d1)
      | (False, d1) \<Rightarrow>
          (let (acts', d2) = on_dynamic_event c e (wait_limit d1) in supervise_pool c acts' es d2))"

definition run_dynamic_supervisor ::
  "codec \<Rightarrow> sup_flags \<Rightarrow> event list \<Rightarrow> host \<Rightarrow> bool \<times> dyn_supervisor driver" where
  "run_dynamic_supervisor c fl es h = supervise_pool c [] es (driver_new (dyn_new fl) h)"

section \<open>Patience\<close>

lemma call_fields [simp]:
  "clock (call c h) = clock h" "clock_reads (call c h) = clock_reads h"
  "spawn_results (call c h) = spawn_results h" "spawn_calls (call c h) = spawn_calls h"
  "trace (call c h) = trace h @ [c]"
  by (simp_all add: call_def)

lemma without_Nil [simp]: "without i [] = []"
  by (simp add: without_def)

lemma set_without: "set (without i xs) = {(j, v) \<in> set xs. j \<noteq> i}"
  by (auto simp: without_def)

lemma key_of_None: "key_of i xs = None \<longleftrightarrow> i \<notin> fst ` set xs"
  by (force simp: key_of_def find_None_iff)

lemma key_of_in: "key_of i xs = Some k \<Longrightarrow> (i, k) \<in> set xs"
  by (auto simp: key_of_def dest: find_SomeD)

lemma key_of_unique: "distinct (map fst xs) \<Longrightarrow> (i, k) \<in> set xs \<Longrightarrow> key_of i xs = Some k"
  by (induction xs) (auto simp: key_of_def rev_image_eqI)

lemma id_of_None: "id_of k xs = None \<longleftrightarrow> k \<notin> snd ` set xs"
  by (force simp: id_of_def find_None_iff)

lemma id_of_in: "id_of k xs = Some i \<Longrightarrow> (i, k) \<in> set xs"
  by (auto simp: id_of_def dest: find_SomeD)

lemma distinct_without: "distinct (map f xs) \<Longrightarrow> distinct (map f (without i xs))"
  by (auto simp: without_def distinct_map_filter)

lemma waits_host:
  "clock (snd (waits ps h)) = clock h \<and> trace (snd (waits ps h)) = trace h
   \<and> spawn_results (snd (waits ps h)) = spawn_results h \<and> spawn_calls (snd (waits ps h)) = spawn_calls h"
  by (induction ps h rule: waits.induct) (auto simp: now_ms_def Let_def split: prod.splits)

lemma wait_limit_fields [simp]:
  "policy (wait_limit d) = policy d" "live (wait_limit d) = live d" "pending (wait_limit d) = pending d"
  "clock (the_host (wait_limit d)) = clock (the_host d)"
  "set (trace (the_host d)) \<subseteq> set (trace (the_host (wait_limit d)))"
  using waits_host[of "pending d" "the_host d"]
  by (auto simp: wait_limit_def Let_def split: prod.splits)

lemma kill_overdue_fields:
  "policy (kill_overdue f i d) = policy d"
  "set (live (kill_overdue f i d)) \<subseteq> set (live d)" "i \<notin> fst ` set (live (kill_overdue f i d))"
  "j \<noteq> i \<Longrightarrow> (j, k) \<in> set (live d) \<Longrightarrow> (j, k) \<in> set (live (kill_overdue f i d))"
  "distinct (map fst (live d)) \<Longrightarrow> distinct (map fst (live (kill_overdue f i d)))"
  "key_of i (live d) = Some k \<Longrightarrow> HSignal k WKill \<in> set (trace (the_host (kill_overdue f i d)))"
  by (auto simp: kill_overdue_def set_without Let_def distinct_without key_of_None image_iff
      split: option.splits)

definition keeps_trace :: "(string \<Rightarrow> host \<Rightarrow> host) \<Rightarrow> bool" where
  "keeps_trace f \<longleftrightarrow> (\<forall>i h. set (trace h) \<subseteq> set (trace (f i h)))"

lemma complain_loudly_keeps: "keeps_trace complain_loudly"
  by (auto simp: keeps_trace_def complain_loudly_def)

lemma kill_overdue_trace:
  "keeps_trace f \<Longrightarrow> set (trace (the_host d)) \<subseteq> set (trace (the_host (kill_overdue f i d)))"
  by (auto simp: kill_overdue_def keeps_trace_def Let_def split: option.splits)

lemma fold_kill_overdue:
  assumes "keeps_trace f"
  shows "policy (fold (kill_overdue f) is d) = policy d
    \<and> set (live (fold (kill_overdue f) is d)) \<subseteq> set (live d)
    \<and> set (trace (the_host d)) \<subseteq> set (trace (the_host (fold (kill_overdue f) is d)))
    \<and> (i \<in> set is \<longrightarrow> i \<notin> fst ` set (live (fold (kill_overdue f) is d)))
    \<and> (i \<in> set is \<longrightarrow> distinct (map fst (live d)) \<longrightarrow> (i, k) \<in> set (live d) \<longrightarrow>
         HSignal k WKill \<in> set (trace (the_host (fold (kill_overdue f) is d))))"
proof (induction "is" arbitrary: d)
  case (Cons j js)
  let ?d = "kill_overdue f j d"
  note K = kill_overdue_fields[where f = f and i = j and d = d]
  note IH = Cons[of ?d]
  have gone: "i \<notin> fst ` set (live (fold (kill_overdue f) js ?d))" if "i \<in> set (j # js)"
    using that IH K(3) by (cases "i = j") auto
  have "HSignal k WKill \<in> set (trace (the_host (fold (kill_overdue f) js ?d)))"
    if "i \<in> set (j # js)" "distinct (map fst (live d))" "(i, k) \<in> set (live d)"
  proof (cases "i = j")
    case True
    then have "HSignal k WKill \<in> set (trace (the_host ?d))"
      using kill_overdue_fields(6)[OF key_of_unique[OF that(2,3)], where f = f] by simp
    with IH show ?thesis by auto
  next
    case False
    with that K(5) kill_overdue_fields(4)[OF False that(3), where f = f] IH show ?thesis by auto
  qed
  with gone IH K(1,2) kill_overdue_trace[OF assms, of d j] show ?case by auto
qed simp

text \<open>A batch of starts that all succeed.\<close>

definition spawns_give :: "string list \<Rightarrow> host \<Rightarrow> bool" where
  "spawns_give ks h \<longleftrightarrow> (\<forall>n < length ks. spawn_results h (spawn_calls h + n) = Some (ks ! n))"

lemma without_without: "without i (filter (\<lambda>(j, _). j \<notin> S) xs) = filter (\<lambda>(j, _). j \<notin> insert i S) xs"
  by (auto simp: without_def intro: filter_cong)

lemma starts_succeed:
  assumes "length ks = length specs" and "distinct (map child_id specs)" and "spawns_give ks (the_host d)"
  shows "\<exists>h. run_batch (map Start specs) d = (False, [], d\<lparr>the_host := h,
      live := filter (\<lambda>(j, _). j \<notin> child_id ` set specs) (live d) @ zip (map child_id specs) ks\<rparr>)
    \<and> clock h = clock (the_host d) \<and> clock_reads h = clock_reads (the_host d)"
  using assms
proof (induction specs arbitrary: d ks)
  case Nil
  then show ?case by (intro exI[of _ "the_host d"]) simp
next
  case (Cons spec specs)
  then obtain k ks' where ks: "ks = k # ks'" by (cases ks) auto
  define h where "h = snd (spawn_link (start spec) (the_host d))"
  have sp: "spawn_link (start spec) (the_host d) = (Some k, h)"
    using Cons.prems(3)[unfolded spawns_give_def, rule_format, of 0] ks
    by (simp add: h_def spawn_link_def)
  have "spawns_give ks' h"
    unfolding spawns_give_def
  proof (intro allI impI)
    fix n assume "n < length ks'"
    then show "spawn_results h (spawn_calls h + n) = Some (ks' ! n)"
      using Cons.prems(3)[unfolded spawns_give_def, rule_format, of "Suc n"] ks
      by (simp add: h_def spawn_link_def)
  qed
  then obtain h' where h': "run_batch (map Start specs) (note_start spec k (d\<lparr>the_host := h\<rparr>))
      = (False, [], (note_start spec k (d\<lparr>the_host := h\<rparr>))\<lparr>the_host := h',
         live := filter (\<lambda>(j, _). j \<notin> child_id ` set specs) (live (note_start spec k (d\<lparr>the_host := h\<rparr>)))
           @ zip (map child_id specs) ks'\<rparr>)"
    "clock h' = clock h" "clock_reads h' = clock_reads h"
    using Cons.IH[of ks' "note_start spec k (d\<lparr>the_host := h\<rparr>)"] Cons.prems(1,2) ks
    by (auto simp: note_start_def)
  have "filter (\<lambda>(j, _). j \<notin> child_id ` set specs) (without (child_id spec) (live d) @ [(child_id spec, k)])
      = filter (\<lambda>(j, _). j \<notin> child_id ` set (spec # specs)) (live d) @ [(child_id spec, k)]"
    using Cons.prems(2) by (auto simp: without_def intro: filter_cong)
  then show ?case using h' sp ks
    by (intro exI[of _ h']) (simp add: note_start_def h_def spawn_link_def)
qed

text \<open>
  C40: a replacement is killed at its predecessor's deadline. When a batch stops a child with a
  patience and starts it anew, as \<open>OneForAll\<close> and \<open>RestForOne\<close> do with the siblings of a child
  that died, the deadline stays pending under the id, which now names the replacement. The old
  instance may exit at once and in good order: its pid string is no longer known, so its exit
  clears nothing. When the deadline passes, the replacement is killed and forgotten, the policy
  is not told, and its exit, when it comes, is ignored; the child is gone for good and the
  policy goes on counting it as running.
\<close>

theorem stale_deadline_kills_replacement:
  assumes live: "(i, old) \<in> set (live d)" "distinct (map fst (live d))" "distinct (map snd (live d))"
    and specs: "distinct (map child_id specs)" "n < length specs" "child_id (specs ! n) = i"
    and fresh: "spawns_give ks (the_host d)" "length ks = length specs" "distinct ks"
      "set ks \<inter> snd ` set (live d) = {}"
    and batch: "drain (Suc f) (Stop i (Timeout ms) # map Start specs) d = Some (False, d1)"
    and obeyed: "on_event (EvExit old r) (wait_limit d1) = (acts, d2)"
    and late: "clock (the_host d) (clock_reads (the_host d)) + ms
        \<le> clock (the_host d) (clock_reads (the_host (wait_limit d2)))"
    and timeout: "on_event EvTimeout (wait_limit d2) = (acts', d3)"
  shows "acts = [] \<and> (i, ks ! n) \<in> set (live d2) \<and> acts' = []
    \<and> HSignal (ks ! n) WKill \<in> set (trace (the_host d3)) \<and> i \<notin> fst ` set (live d3)
    \<and> policy d3 = policy d \<and> on_event (EvExit (ks ! n) r') d3 = ([], d3)"
proof -
  let ?dl = "clock (the_host d) (clock_reads (the_host d)) + ms"
  let ?ids = "child_id ` set specs" and ?new = "zip (map child_id specs) ks"
  have key: "key_of i (live d) = Some old" by (rule key_of_unique[OF live(2,1)])
  define h1 where "h1 = snd (now_ms (call (HSignal old shutdown_reason) (the_host d)))"
  have stop: "do_stop i (Timeout ms) d = d\<lparr>the_host := h1, pending := pending d @ [(i, ?dl)]\<rparr>"
    by (simp add: do_stop_def key now_ms_def h1_def Let_def)
  have "spawns_give ks (the_host (do_stop i (Timeout ms) d))"
    using fresh(1) by (simp add: stop h1_def now_ms_def spawns_give_def)
  from starts_succeed[OF fresh(2) specs(1) this] obtain h where
    "run_batch (map Start specs) (do_stop i (Timeout ms) d)
      = (False, [], (do_stop i (Timeout ms) d)\<lparr>the_host := h,
           live := filter (\<lambda>(j, _). j \<notin> ?ids) (live (do_stop i (Timeout ms) d)) @ ?new\<rparr>)"
    "clock h = clock (the_host (do_stop i (Timeout ms) d))"
    by blast
  then have d1: "live d1 = filter (\<lambda>(j, _). j \<notin> ?ids) (live d) @ ?new"
    "pending d1 = pending d @ [(i, ?dl)]" "policy d1 = policy d" "clock (the_host d1) = clock (the_host d)"
    using batch by (auto simp: stop h1_def now_ms_def)
  have mine: "(i, ks ! n) \<in> set ?new" using specs(2,3) fresh(2) by (force simp: set_zip)
  have i_in: "i \<in> ?ids" using specs(2,3) by force
  have keys: "(j, k) \<in> set ?new \<Longrightarrow> k \<in> set ks" for j k by (auto dest: set_zip_rightD)
  have "inj_on snd (set (live d))" using live(3) by (simp add: distinct_map)
  have own: "j = i" if "(j, old) \<in> set (live d)" for j
    using inj_onD[OF \<open>inj_on snd (set (live d))\<close> _ that live(1)] by simp
  have old: "old \<in> snd ` set (live d)" using live(1) by force
  have "old \<notin> snd ` set (live d1)"
  proof
    assume "old \<in> snd ` set (live d1)"
    then obtain j where j: "(j, old) \<in> set (live d1)" by auto
    show False
    proof (cases "(j, old) \<in> set ?new")
      case True
      from keys[OF this] old fresh(4) show False by blast
    next
      case False
      with j have "(j, old) \<in> set (live d)" "j \<notin> ?ids" by (auto simp: d1(1))
      with own[of j] i_in show False by simp
    qed
  qed
  then have "id_of old (live d1) = None" by (simp add: id_of_None)
  then have d2: "acts = []" "d2 = wait_limit d1" using obeyed by (simp_all add: on_event_def)
  define now where "now = clock (the_host d) (clock_reads (the_host (wait_limit d2)))"
  define ids where "ids = map fst (filter (\<lambda>(_, deadline). deadline \<le> now) (pending d1))"
  define h3 where "h3 = snd (now_ms (the_host (wait_limit d2)))"
  have clk: "fst (now_ms (the_host (wait_limit d2))) = now"
    using d1(4) d2(2) by (simp add: now_ms_def now_def)
  have d3: "acts' = []" "d3 = fold (kill_overdue complain_loudly) ids (wait_limit d2\<lparr>the_host := h3\<rparr>)"
    using timeout clk d2(2) by (auto simp: on_event_def patience_over_def ids_def h3_def split: prod.splits)
  have i: "i \<in> set ids" using late d1(2) by (force simp: ids_def now_def)
  have dist: "distinct (map fst (live d1))"
    using live(2) specs(1) fresh(2) by (auto simp: d1(1) distinct_map_filter image_iff)
  have lv: "live (wait_limit d2\<lparr>the_host := h3\<rparr>) = live d1" using d2(2) by simp
  note K = fold_kill_overdue[OF complain_loudly_keeps, of ids "wait_limit d2\<lparr>the_host := h3\<rparr>" i "ks ! n",
      unfolded d3(2)[symmetric] lv]
  have gone: "i \<notin> fst ` set (live d3)" "set (live d3) \<subseteq> set (live d1)" using K i by auto
  have "j = i" if "(j, ks ! n) \<in> set (live d1)" for j
  proof -
    have "ks ! n \<in> set ks" using specs(2) fresh(2) by simp
    then have "ks ! n \<notin> snd ` set (live d)" using fresh(4) by blast
    then have "(j, ks ! n) \<notin> set (live d)" by force
    then have "(j, ks ! n) \<in> set ?new" using that by (auto simp: d1(1))
    then show ?thesis using fresh(2,3) specs(2,3) by (auto simp: set_zip nth_eq_iff_index_eq)
  qed
  moreover have "(i, k) \<notin> set (live d3)" for k using gone(1) by force
  ultimately have "ks ! n \<notin> snd ` set (live d3)" using gone(2) by auto
  then have "id_of (ks ! n) (live d3) = None" by (simp add: id_of_None)
  then have "on_event (EvExit (ks ! n) r') d3 = ([], d3)" by (simp add: on_event_def)
  moreover have "(i, ks ! n) \<in> set (live d2)" using d2(2) d1(1) mine by simp
  moreover have "policy d3 = policy d" using K d2(2) d1(3) by simp
  ultimately show ?thesis using d2(1) d3(1) K i dist d1(1) gone(1) mine by simp
qed

text \<open>
  A supervisor of two workers whose host starts every child (as \<open>k0\<close>, \<open>k1\<close> and so on) and whose
  clock shows six seconds more at each reading; the worker \<open>a\<close> has just crashed.
\<close>

definition ticking_host :: host where
  "ticking_host = \<lparr>clock = (\<lambda>n. 6000 * of_nat n), clock_reads = 0,
     spawn_results = (\<lambda>n. Some [CHR ''k'', char_of (48 + n)]), spawn_calls = 0, trace = []\<rparr>"

definition all_flags :: sup_flags where
  "all_flags = \<lparr>sup_strategy = OneForAll, intensity = 3, period_ms = 5000\<rparr>"

definition two_workers :: "supervisor driver" where
  "two_workers = snd (the (run_supervisor 3 all_flags [worker ''a'' Permanent, worker ''b'' Permanent] [] ticking_host))"

definition crashed :: "action list \<times> supervisor driver" where
  "crashed = on_event (EvExit ''k0'' (WException ''boom'')) (wait_limit two_workers)"

definition restarted :: "supervisor driver" where
  "restarted = snd (the (drain 2 (fst crashed) (snd crashed)))"

definition obeyed :: "supervisor driver" where
  "obeyed = snd (on_event (EvExit ''k1'' WNormal) (wait_limit restarted))"

theorem stale_deadline_kills_replacement_witness:
  "on_event (EvExit ''k1'' WNormal) (wait_limit restarted) = ([], obeyed)
   \<and> (''b'', ''k3'') \<in> set (live obeyed)
   \<and> (case on_event EvTimeout (wait_limit obeyed) of (acts, d) \<Rightarrow>
        acts = [] \<and> HSignal ''k3'' WKill \<in> set (trace (the_host d)) \<and> ''b'' \<notin> fst ` set (live d))"
proof -
  let ?specs = "[worker ''a'' Permanent, worker ''b'' Permanent]" and ?ks = "[''k2'', ''k3'']"
  have b: "fst crashed = Stop ''b'' (Timeout 5000) # map Start ?specs" by code_simp
  have "map_option fst (drain 2 (fst crashed) (snd crashed)) = Some False" by code_simp
  then have dr: "drain (Suc 1) (Stop ''b'' (Timeout 5000) # map Start ?specs) (snd crashed) = Some (False, restarted)"
    unfolding b by (auto simp: restarted_def b numeral_2_eq_2)
  have l: "live (snd crashed) = [(''b'', ''k1'')]" by code_simp
  have sg: "spawns_give ?ks (the_host (snd crashed))"
    by code_simp
  have late: "clock (the_host (snd crashed)) (clock_reads (the_host (snd crashed))) + 5000
      \<le> clock (the_host (snd crashed)) (clock_reads (the_host (wait_limit obeyed)))"
    by code_simp
  obtain acts d2 where o: "on_event (EvExit ''k1'' WNormal) (wait_limit restarted) = (acts, d2)" by fastforce
  obtain acts' d3 where t: "on_event EvTimeout (wait_limit obeyed) = (acts', d3)" by fastforce
  have d2: "d2 = obeyed" using o by (simp add: obeyed_def)
  have ids: "distinct (map child_id ?specs)" "child_id (?specs ! 1) = ''b''"
    by (simp_all add: worker_def child_spec_new_def)
  from stale_deadline_kills_replacement[of "''b''" "''k1''" "snd crashed" ?specs 1 ?ks 1 5000 restarted WNormal acts obeyed acts' d3 WKilled]
    ids sg late o t d2 dr l
  show ?thesis by simp
qed

section \<open>One for one\<close>

lemma distinct_filter_one: "distinct xs \<Longrightarrow> x \<in> set xs \<Longrightarrow> filter (\<lambda>y. y = x) xs = [x]"
  by (induction xs) (auto simp: filter_empty_conv)

lemma is_running_update:
  assumes "index_of s i = Some idx" and "sup_inv s"
  shows "is_running (s\<lparr>running := (running s)[idx := b]\<rparr>) j = (if j = i then b else is_running s j)"
proof (cases "index_of s j")
  case (Some k)
  have "k = idx \<longleftrightarrow> j = i"
  proof
    assume "k = idx"
    with index_of_SomeD[OF Some] index_of_SomeD[OF assms(1)] show "j = i" by simp
  next
    assume "j = i"
    with Some assms(1) show "k = idx" by simp
  qed
  moreover have "idx < length (running s)" using assms index_of_SomeD[OF assms(1)] by (simp add: sup_inv_def)
  ultimately show ?thesis using Some
    by (cases "j = i") (auto simp: is_running_def index_of_def nth_list_update)
next
  case None
  then have "j \<noteq> i" using assms(1) by auto
  with None show ?thesis by (simp add: is_running_def index_of_def)
qed

lemma one_for_one_exit:
  assumes inv: "sup_inv s" "sup_strategy (flags s) = OneForOne"
    and r: "on_child_exit s i reason now = (acts, s')" and go: "GiveUp \<notin> set acts"
  shows "sup_inv s' \<and> flags s' = flags s \<and> children s' = children s \<and>
    ((acts = [] \<and> (\<forall>j. is_running s' j \<longleftrightarrow> is_running s j \<and> j \<noteq> i))
     \<or> (\<exists>c \<in> set (children s). acts = [Start c] \<and> child_id c = i
          \<and> (\<forall>j. is_running s' j \<longleftrightarrow> is_running s j \<or> j = i)))"
proof -
  have const: "sup_inv s'" "flags s' = flags s" "children s' = children s"
    using on_child_exit_inv[OF inv(1), of i reason now] on_child_exit_constants[of s i reason now] r by simp_all
  show ?thesis
  proof (cases "index_of s i")
    case None
    then have "\<not> is_running s i" by (simp add: is_running_def)
    with None const r show ?thesis by (auto simp: on_child_exit_other)
  next
    case (Some idx)
    note idx = index_of_SomeD[OF Some]
    show ?thesis
    proof (cases "restarts_with (restart_type (children s ! idx)) reason")
      case False
      then show ?thesis using Some r const is_running_update[OF Some inv(1), of False]
        by (auto simp: on_child_exit_other)
    next
      case True
      then have nt: "restart_type (children s ! idx) \<noteq> Temporary" by (auto simp: restarts_with_def)
      have d: "disturbs OneForOne idx k \<longleftrightarrow> k = idx" for k by (simp add: disturbs_def)
      have few: "\<not> too_many (intensity (flags s)) (new_stamps s idx now)"
        using go r give_up_iff[of s i reason now] Some True by auto
      have "filter (\<lambda>k. k = idx \<and> restart_type (children s ! k) \<noteq> Temporary) [0..<length (children s)] = [idx]"
      proof -
        have "filter (\<lambda>k. k = idx \<and> restart_type (children s ! k) \<noteq> Temporary) [0..<length (children s)]
            = filter (\<lambda>k. k = idx) [0..<length (children s)]"
          using nt by (intro filter_cong) auto
        also have "\<dots> = [idx]"
          using idx by (intro distinct_filter_one) auto
        finally show ?thesis .
      qed
      then have acts: "acts = [Start (children s ! idx)]"
        and s': "s' = s\<lparr>running := running_after s idx, restarts := new_stamps s idx now\<rparr>"
        using r few by (auto simp: on_child_exit_restart[OF Some True] inv(2) d Let_def)
      have "running_after s idx = (running s)[idx := True]"
        using running_after_iff[OF inv(1) _ _ nt] idx inv nt
        by (intro nth_equalityI) (auto simp: d sup_inv_def nth_update_any)
      then have "is_running s' j = is_running (s\<lparr>running := (running s)[idx := True]\<rparr>) j" for j
        by (simp add: s' is_running_def index_of_def split: option.split)
      then show ?thesis using acts const idx is_running_update[OF Some inv(1), of True]
        by (intro conjI disjI2 bexI[of _ "children s ! idx"]) auto
    qed
  qed
qed

text \<open>
  What holds while a batch of a \<open>OneForOne\<close> supervisor is carried out: a child counts as running
  if it is live, is about to be started by this batch, or by the next one (\<open>Q\<close>).
\<close>

definition quiet_driver :: "supervisor driver \<Rightarrow> bool" where
  "quiet_driver d \<longleftrightarrow>
     sup_inv (policy d) \<and> sup_strategy (flags (policy d)) = OneForOne \<and> pending d = []
     \<and> distinct (map fst (live d)) \<and> (\<forall>k r. HSignal k r \<notin> set (trace (the_host d)))"

definition accounted :: "child_spec list \<Rightarrow> string set \<Rightarrow> supervisor driver \<Rightarrow> bool" where
  "accounted cs Q d \<longleftrightarrow>
     quiet_driver d \<and> distinct (map child_id cs) \<and> child_id ` set cs \<inter> Q = {}
     \<and> fst ` set (live d) \<inter> (child_id ` set cs \<union> Q) = {}
     \<and> (\<forall>i. is_running (policy d) i \<longleftrightarrow> i \<in> fst ` set (live d) \<or> i \<in> child_id ` set cs \<or> i \<in> Q)"

lemma accounted_started:
  assumes "accounted (spec # cs) Q d" and "spawn_link (start spec) (the_host d) = (Some k, h)"
  shows "accounted cs Q (note_start spec k (d\<lparr>the_host := h\<rparr>))"
proof -
  have "child_id spec \<notin> fst ` set (live d)" using assms(1) by (auto simp: accounted_def)
  then have "without (child_id spec) (live d) = live d"
    unfolding without_def by (intro filter_True) force
  then show ?thesis using assms
    by (auto simp: accounted_def quiet_driver_def note_start_def spawn_link_def)
qed

lemma accounted_failed:
  assumes acc: "accounted (spec # cs) Q d"
    and sp: "spawn_link (start spec) (the_host d) = (None, h)"
    and now: "now_ms (call (HLog ''could not start child'') h) = (now, h1)"
    and r: "on_child_exit (policy d) (child_id spec) reason now = (again, s)"
    and go: "GiveUp \<notin> set again"
  shows "\<exists>cs1. again = map Start cs1 \<and> distinct (map child_id cs1) \<and> child_id ` set cs1 \<inter> Q = {}
    \<and> child_id ` set cs1 \<inter> child_id ` set cs = {}
    \<and> accounted cs (Q \<union> child_id ` set cs1) (d\<lparr>policy := s, the_host := h1\<rparr>)"
proof -
  have q: "sup_inv (policy d)" "sup_strategy (flags (policy d)) = OneForOne"
    using acc by (auto simp: accounted_def quiet_driver_def)
  note E = one_for_one_exit[OF q r go]
  have host: "set (trace h1) \<subseteq> set (trace (the_host d)) \<union> {HSpawnLink (component (start spec)) (init_args (start spec)),
      HLog ''could not start child''}"
    using sp now by (auto simp: spawn_link_def now_ms_def)
  have quiet: "quiet_driver (d\<lparr>policy := s, the_host := h1\<rparr>)"
    using acc E host by (fastforce simp: accounted_def quiet_driver_def)
  let ?L = "fst ` set (live d)" and ?C = "child_id ` set cs"
  have A: "child_id spec \<notin> ?L" "child_id spec \<notin> ?C" "child_id spec \<notin> Q"
    and runs: "\<forall>i. is_running (policy d) i \<longleftrightarrow> i \<in> ?L \<or> i = child_id spec \<or> i \<in> ?C \<or> i \<in> Q"
    using acc by (auto simp: accounted_def)
  from E consider (gone) "again = []" "\<forall>j. is_running s j \<longleftrightarrow> is_running (policy d) j \<and> j \<noteq> child_id spec"
    | (again) c where "again = [Start c]" "child_id c = child_id spec"
        "\<forall>j. is_running s j \<longleftrightarrow> is_running (policy d) j \<or> j = child_id spec"
    by blast
  then show ?thesis
  proof cases
    case gone
    have "is_running s i \<longleftrightarrow> i \<in> ?L \<or> i \<in> ?C \<or> i \<in> Q" for i 
      using spec[OF gone(2), of i] spec[OF runs, of i] A by (cases "i = child_id spec") simp_all
    then have "accounted cs Q (d\<lparr>policy := s, the_host := h1\<rparr>)"
      using acc quiet A by (simp add: accounted_def)
    with gone show ?thesis by (intro exI[of _ "[]"]) simp
  next
    case again
    have "is_running s i \<longleftrightarrow> i \<in> ?L \<or> i \<in> ?C \<or> i \<in> Q \<union> {child_id spec}" for i
      using spec[OF again(3), of i] spec[OF runs, of i] by (cases "i = child_id spec") simp_all
    then have "accounted cs (Q \<union> {child_id spec}) (d\<lparr>policy := s, the_host := h1\<rparr>)"
      using acc quiet A by (simp add: accounted_def)
    with again acc show ?thesis by (intro exI[of _ "[c]"]) (auto simp: accounted_def)
  qed
qed

lemma starts_go_on: "\<not> fst (run_batch (map Start xs) d)"
  by (induction xs arbitrary: d) (simp_all add: Let_def split_def split: option.splits)

lemma batch_accounted:
  assumes "accounted cs Q d" and "run_batch (map Start cs) d = (b, again, d')"
  shows "\<not> b \<and> (GiveUp \<in> set again \<or>
    (\<exists>cs'. again = map Start cs' \<and> distinct (map child_id cs') \<and> child_id ` set cs' \<inter> Q = {}
       \<and> accounted [] (Q \<union> child_id ` set cs') d'))"
  using assms
proof (induction cs arbitrary: Q d b again d')
  case Nil
  then show ?case by (auto intro: exI[of _ "[]"])
next
  case (Cons spec cs)
  obtain res h where sp: "spawn_link (start spec) (the_host d) = (res, h)" by fastforce
  show ?case
  proof (cases res)
    case (Some k)
    have "run_batch (map Start cs) (note_start spec k (d\<lparr>the_host := h\<rparr>)) = (b, again, d')"
      using Cons.prems(2) sp Some by simp
    from Cons.IH[OF accounted_started[OF Cons.prems(1) sp[unfolded Some]] this] show ?thesis .
  next
    case None
    obtain now h1 where now: "now_ms (call (HLog ''could not start child'') h) = (now, h1)" by fastforce
    obtain again1 s where r: "on_child_exit (policy d) (child_id spec) (SException ''start failed'') now = (again1, s)"
      by fastforce
    obtain b2 rest d2 where run: "run_batch (map Start cs) (d\<lparr>policy := s, the_host := h1\<rparr>) = (b2, rest, d2)"
      by (metis prod.collapse)
    have out: "b = b2" "again = again1 @ rest" "d' = d2" using Cons.prems(2) sp None now r run by simp_all
    show ?thesis
    proof (cases "GiveUp \<in> set again1")
      case True
      with run out starts_go_on[of cs "d\<lparr>policy := s, the_host := h1\<rparr>"] show ?thesis by simp
    next
      case False
      from accounted_failed[OF Cons.prems(1) sp[unfolded None] now r False] obtain cs1 where
        c1: "again1 = map Start cs1" "distinct (map child_id cs1)" "child_id ` set cs1 \<inter> Q = {}"
        and acc: "accounted cs (Q \<union> child_id ` set cs1) (d\<lparr>policy := s, the_host := h1\<rparr>)"
        by blast
      from Cons.IH[OF acc run] show ?thesis
      proof (elim conjE disjE exE)
        fix cs2 assume c2: "\<not> b2" "rest = map Start cs2" "distinct (map child_id cs2)"
          "child_id ` set cs2 \<inter> (Q \<union> child_id ` set cs1) = {}"
          "accounted [] (Q \<union> child_id ` set cs1 \<union> child_id ` set cs2) d2"
        have "distinct (map child_id (cs1 @ cs2))" using c1(2) c2(3,4) by auto
        moreover have "child_id ` set (cs1 @ cs2) \<inter> Q = {}" using c1(3) c2(4) by auto
        moreover have "accounted [] (Q \<union> child_id ` set (cs1 @ cs2)) d'"
          using c2(5) out by (simp add: Un_assoc image_Un)
        ultimately show ?thesis using out c1(1) c2(1,2) by (intro conjI disjI2 exI[of _ "cs1 @ cs2"]) auto
      qed (use out in auto)
    qed
  qed
qed

lemma give_up_ends_batch: "GiveUp \<in> set acts \<Longrightarrow> fst (run_batch acts d)"
proof (induction acts arbitrary: d)
  case (Cons a acts)
  then show ?case by (cases a) (simp_all add: Let_def split_def split: option.splits)
qed simp

lemma give_up_ends_drain: "GiveUp \<in> set acts \<Longrightarrow> drain fuel acts d = Some (b, d') \<Longrightarrow> b"
proof (induction fuel acts d rule: drain.induct)
  case (3 fuel a acts d)
  have "fst (run_batch (a # acts) d)" using give_up_ends_batch 3(2) by blast
  with 3(3) show ?case by (auto split: prod.splits bool.splits)
qed simp_all

lemma drain_accounted:
  "accounted cs {} d \<Longrightarrow> drain fuel (map Start cs) d = Some (False, d') \<Longrightarrow> accounted [] {} d'"
proof (induction fuel arbitrary: cs d)
  case 0
  then show ?case by (cases cs) auto
next
  case (Suc fuel)
  show ?case
  proof (cases cs)
    case Nil
    with Suc.prems show ?thesis by simp
  next
    case (Cons c cs')
    obtain b again d1 where r: "run_batch (map Start cs) d = (b, again, d1)" by (metis prod.collapse)
    note B = batch_accounted[OF Suc.prems(1) r]
    have go: "drain fuel again d1 = Some (False, d')"
      using Suc.prems(2) B r Cons by simp
    have "GiveUp \<notin> set again" using give_up_ends_drain[OF _ go] by blast
    with B obtain cs2 where "again = map Start cs2" "distinct (map child_id cs2)"
      "accounted [] (child_id ` set cs2) d1"
      by auto
    then have "again = map Start cs2" "accounted cs2 {} d1" by (auto simp: accounted_def)
    with Suc.IH go show ?thesis by blast
  qed
qed

lemma event_accounted:
  assumes acc: "accounted [] {} d" and e: "on_event e (wait_limit d) = (acts, d')"
    and go: "GiveUp \<notin> set acts"
  shows "\<exists>cs. acts = map Start cs \<and> accounted cs {} d'"
proof -
  have quiet: "quiet_driver (wait_limit d)"
    using acc waits_host[of "[]" "the_host d"]
    by (auto simp: accounted_def quiet_driver_def wait_limit_def)
  have keep: "accounted [] {} (wait_limit d)" using acc quiet by (simp add: accounted_def)
  show ?thesis
  proof (cases e)
    case (EvExit k r)
    show ?thesis
    proof (cases "id_of k (live d)")
      case None
      then show ?thesis using e EvExit keep by (auto simp: on_event_def)
    next
      case (Some i)
      obtain now h where n: "now_ms (the_host (wait_limit d)) = (now, h)" by fastforce
      obtain s where r': "on_child_exit (policy d) i (reason_from_host r) now = (acts, s)"
        and d': "d' = (wait_limit d)\<lparr>policy := s, live := without i (live d), pending := without i (pending d),
                  the_host := h\<rparr>"
        using e EvExit Some n by (auto simp: on_event_def split: prod.splits)
      have q: "sup_inv (policy d)" "sup_strategy (flags (policy d)) = OneForOne"
        using acc by (auto simp: accounted_def quiet_driver_def)
      note E = one_for_one_exit[OF q r' go]
      have quiet': "quiet_driver d'"
        using quiet E n by (auto simp: d' quiet_driver_def now_ms_def distinct_without)
      have runs: "is_running (policy d) j \<longleftrightarrow> j \<in> fst ` set (live d)" for j
        using acc by (simp add: accounted_def)
      have lv: "j \<in> fst ` set (live d') \<longleftrightarrow> j \<in> fst ` set (live d) \<and> j \<noteq> i" for j
        by (auto simp: d' set_without)
      have pol: "policy d' = s" by (simp add: d')
      from E show ?thesis
      proof (elim conjE disjE bexE)
        assume "acts = []" "\<forall>j. is_running s j \<longleftrightarrow> is_running (policy d) j \<and> j \<noteq> i"
        then show ?thesis using quiet' runs lv pol by (intro exI[of _ "[]"]) (simp add: accounted_def)
      next
        fix c assume c: "acts = [Start c]" "child_id c = i"
          and "\<forall>j. is_running s j \<longleftrightarrow> is_running (policy d) j \<or> j = i"
        then have "is_running s j \<longleftrightarrow> j \<in> fst ` set (live d') \<or> j = i" for j
          using runs[of j] lv[of j] by (cases "j = i") simp_all
        with c quiet' lv pol show ?thesis by (intro exI[of _ "[c]"]) (simp add: accounted_def)
      qed
    qed
  next
    case EvTimeout
    then show ?thesis using e keep
      by (intro exI[of _ "[]"])
        (simp add: on_event_def patience_over_def now_ms_def accounted_def quiet_driver_def prod_eq_iff,
          clarsimp)
  qed (use e keep in \<open>auto simp: on_event_def\<close>)
qed

lemma supervise_accounted:
  "accounted cs {} d \<Longrightarrow> supervise fuel (map Start cs) es d = Some (False, d') \<Longrightarrow> accounted [] {} d'"
proof (induction es arbitrary: cs d)
  case Nil
  then show ?case using drain_accounted by simp
next
  case (Cons e es)
  obtain d1 where dr: "drain fuel (map Start cs) d = Some (False, d1)"
    using Cons.prems(2) by (auto split: option.splits bool.splits)
  obtain acts d2 where ev: "on_event e (wait_limit d1) = (acts, d2)" by fastforce
  have go: "supervise fuel acts es d2 = Some (False, d')" using Cons.prems(2) dr ev by simp
  have "GiveUp \<notin> set acts"
  proof
    assume g: "GiveUp \<in> set acts"
    show False
    proof (cases "drain fuel acts d2")
      case None
      then show False using go by (cases es) auto
    next
      case (Some x)
      then obtain d3 where "drain fuel acts d2 = Some (True, d3)"
        using give_up_ends_drain[OF g, of fuel d2 "fst x" "snd x"] by (cases x) auto
      then show False using go by (cases es) auto
    qed
  qed
  from event_accounted[OF drain_accounted[OF Cons.prems(1) dr] ev this] obtain cs' where
    "acts = map Start cs'" "accounted cs' {} d2"
    by blast
  with Cons.IH go show ?case by blast
qed

lemma run_supervisor_start:
  assumes "distinct (map child_id cs)" and "sup_strategy fl = OneForOne"
    and "\<forall>k r. HSignal k r \<notin> set (trace h)"
  shows "sup_init (supervisor_new fl cs) = (map Start cs, snd (sup_init (supervisor_new fl cs)))
    \<and> accounted cs {} ((driver_new (supervisor_new fl cs) h)\<lparr>policy := snd (sup_init (supervisor_new fl cs))\<rparr>)"
proof -
  have len: "length (foldl (\<lambda>r i. r[i := True]) run is) = length run" for run :: "bool list" and "is" :: "nat list"
    by (induction "is" arbitrary: run) simp_all
  have on: "k \<in> set is \<or> run ! k \<Longrightarrow> k < length run \<Longrightarrow> foldl (\<lambda>r i. r[i := True]) run is ! k"
    for k run and "is" :: "nat list"
  proof (induction "is" arbitrary: run)
    case (Cons a js)
    then show ?case by (cases "a = k") auto
  qed simp
  let ?s = "snd (sup_init (supervisor_new fl cs))"
  have s: "children ?s = cs" "flags ?s = fl" "length (running ?s) = length cs"
    by (simp_all add: sup_init_def supervisor_new_def init_loop_eq Let_def len)
  have run: "k < length cs \<Longrightarrow> running ?s ! k" for k
    using on[of k "[0..<length cs]" "replicate (length cs) False"]
    by (simp add: sup_init_def supervisor_new_def init_loop_eq Let_def)
  have "is_running ?s i \<longleftrightarrow> i \<in> child_id ` set cs" for i
  proof (cases "index_of ?s i")
    case None
    then have "i \<notin> child_id ` set cs" using s(1) by (auto simp: index_of_def position_None_iff)
    with None show ?thesis by (simp add: is_running_def)
  next
    case (Some k)
    have k: "k < length cs" "child_id (cs ! k) = i" using index_of_SomeD[OF Some] s(1) by simp_all
    then have "i \<in> child_id ` set cs" by force
    with run[OF k(1)] Some show ?thesis by (simp add: is_running_def)
  qed
  moreover have "map (\<lambda>i. Start (cs ! i)) [0..<length cs] = map Start cs" by (rule nth_equalityI) simp_all
  then have "fst (sup_init (supervisor_new fl cs)) = map Start cs"
    by (simp add: sup_init_def supervisor_new_def init_loop_eq Let_def)
  ultimately show ?thesis using assms s
    by (auto simp: accounted_def quiet_driver_def driver_new_def sup_inv_def prod_eq_iff)
qed

text \<open>
  C11: a one-for-one supervisor loses nobody. Whatever its host answers and whichever of its
  children die or cannot be started, as long as it has not given up, every child its policy
  counts as running is a live particle and no other particle is; no id is live twice, and it
  never signals a child, so nothing is pending.
\<close>

theorem one_for_one_live:
  assumes "distinct (map child_id cs)" and "sup_strategy fl = OneForOne"
    and "\<forall>k r. HSignal k r \<notin> set (trace h)"
    and "run_supervisor fuel fl cs es h = Some (False, d)"
  shows "(\<forall>i. is_running (policy d) i \<longleftrightarrow> i \<in> fst ` set (live d)) \<and> distinct (map fst (live d))
    \<and> pending d = [] \<and> (\<forall>k r. HSignal k r \<notin> set (trace (the_host d)))"
proof -
  note S = run_supervisor_start[OF assms(1-3)]
  obtain s where i: "sup_init (supervisor_new fl cs) = (map Start cs, s)" using S by blast
  have "supervise fuel (map Start cs) es ((driver_new (supervisor_new fl cs) h)\<lparr>policy := s\<rparr>) = Some (False, d)"
    using assms(4) i by (simp add: run_supervisor_def driver_new_def)
  moreover have "accounted cs {} ((driver_new (supervisor_new fl cs) h)\<lparr>policy := s\<rparr>)" using S i by simp
  ultimately have "accounted [] {} d" using supervise_accounted by blast
  then show ?thesis by (simp add: accounted_def quiet_driver_def)
qed

theorem one_for_one_live_witness:
  "\<exists>d. run_supervisor 3 \<lparr>sup_strategy = OneForOne, intensity = 3, period_ms = 5000\<rparr>
        [worker ''a'' Permanent, worker ''b'' Temporary]
        [EvExit ''k0'' WKilled, EvExit ''k1'' WKilled] ticking_host = Some (False, d)
     \<and> is_running (policy d) ''a'' \<and> fst ` set (live d) = {i. is_running (policy d) i}"
proof -
  let ?fl = "\<lparr>sup_strategy = OneForOne, intensity = 3, period_ms = 5000\<rparr>"
  let ?cs = "[worker ''a'' Permanent, worker ''b'' Temporary]"
  let ?r = "run_supervisor 3 ?fl ?cs [EvExit ''k0'' WKilled, EvExit ''k1'' WKilled] ticking_host"
  have "map_option fst ?r = Some False" "map_option (\<lambda>x. is_running (policy (snd x)) ''a'') ?r = Some True"
    by code_simp+
  then obtain d where r: "?r = Some (False, d)" and a: "is_running (policy d) ''a''"
    by (cases ?r) auto
  have "distinct (map child_id ?cs)" by (simp add: worker_def child_spec_new_def)
  from one_for_one_live[OF this _ _ r] a r show ?thesis by (auto simp: ticking_host_def)
qed

section \<open>Draining ends\<close>

text \<open>
  Every reading of the clock lies in one period after \<open>T\<close>, and so does every restart that is
  remembered: none of them is forgotten.
\<close>

definition in_window :: "u64 \<Rightarrow> supervisor driver \<Rightarrow> bool" where
  "in_window T d \<longleftrightarrow>
     (\<forall>n. T \<le> clock (the_host d) n \<and> sat_sub (clock (the_host d) n) (period_ms (flags (policy d))) \<le> T)
     \<and> (\<forall>t \<in> set (restarts (policy d)). T \<le> t)
     \<and> unat (intensity (flags (policy d))) + length (children (policy d)) < 2 ^ 32"

lemma forget_none: "\<forall>t \<in> set xs. c \<le> t \<Longrightarrow> forget_restarts_before c xs = xs"
  by (cases xs) (auto simp: forget_restarts_before_def)

lemma exit_progress:
  assumes r: "on_child_exit s i reason now = (acts, s')"
    and T: "T \<le> now" "sat_sub now (period_ms (flags s)) \<le> T" "\<forall>t \<in> set (restarts s). T \<le> t"
    and small: "unat (intensity (flags s)) + length (children s) < 2 ^ 32"
    and le: "length (restarts s) \<le> unat (intensity (flags s))"
  shows "GiveUp \<in> set acts \<or> (acts = [] \<and> restarts s' = restarts s)
    \<or> (length (restarts s) < length (restarts s') \<and> length (restarts s') \<le> unat (intensity (flags s))
       \<and> (\<forall>t \<in> set (restarts s'). T \<le> t))"
proof (cases "index_of s i")
  case None
  then show ?thesis using r by (auto simp: on_child_exit_other)
next
  case (Some idx)
  show ?thesis
  proof (cases "restarts_with (restart_type (children s ! idx)) reason")
    case False
    then show ?thesis using r Some by (auto simp: on_child_exit_other)
  next
    case True
    show ?thesis
    proof (cases "too_many (intensity (flags s)) (new_stamps s idx now)")
      case True': True
      then show ?thesis using r give_up_iff[of s i reason now] Some True by auto
    next
      case False
      have idx: "idx < length (children s)" using index_of_SomeD[OF Some] by simp
      have nt: "restart_type (children s ! idx) \<noteq> Temporary" using True by (auto simp: restarts_with_def)
      have c: "0 < restart_count s idx" "restart_count s idx \<le> length (children s)"
        using restart_count_pos[OF idx nt] restart_count_le by auto
      have n: "unat (of_nat (restart_count s idx) :: u32) = restart_count s idx"
        using c(2) small by (intro unat_of_nat_u32) simp
      let ?new = "restarts s @ replicate (restart_count s idx) now"
      have st: "new_stamps s idx now = ?new"
        unfolding new_stamps_def n using T by (intro forget_none) (auto intro: order_trans)
      have "length ?new \<le> unat (intensity (flags s)) + length (children s)" using le c(2) by simp
      then have "length ?new < 2 ^ 32" using small by linarith
      with False have few: "length ?new \<le> unat (intensity (flags s))"
        using not_too_many[of ?new "intensity (flags s)"] by (simp add: st)
      have "restarts s' = ?new" using r False st by (auto simp: on_child_exit_restart[OF Some True] Let_def)
      then show ?thesis using few c(1) T by auto
    qed
  qed
qed

lemma in_window_stop [simp]:
  "in_window T (do_stop i how d) = in_window T d" "policy (do_stop i how d) = policy d"
  by (auto simp: in_window_def do_stop_def now_ms_def Let_def split: option.splits shutdown_kind.splits)

abbreviation "restarted_so_far d \<equiv> length (restarts (policy d))"
abbreviation "limit_of d \<equiv> unat (intensity (flags (policy d)))"

lemma batch_progress:
  assumes "run_batch acts d = (b, again, d')" and "in_window T d" and "restarted_so_far d \<le> limit_of d"
  shows "b \<or> GiveUp \<in> set again \<or>
    (in_window T d' \<and> limit_of d' = limit_of d \<and> restarted_so_far d' \<le> limit_of d
     \<and> restarted_so_far d \<le> restarted_so_far d' \<and> (again \<noteq> [] \<longrightarrow> restarted_so_far d < restarted_so_far d'))"
  using assms
proof (induction acts arbitrary: d b again d')
  case (Cons a acts)
  show ?case
  proof (cases a)
    case (Stop i how)
    with Cons.prems have "run_batch acts (do_stop i how d) = (b, again, d')" by simp
    from Cons.IH[OF this] Cons.prems(2,3) show ?thesis by simp
  next
    case GiveUp
    with Cons.prems show ?thesis by simp
  next
    case (Start spec)
    obtain res h where sp: "spawn_link (start spec) (the_host d) = (res, h)" by fastforce
    show ?thesis
    proof (cases res)
      case (Some k)
      let ?d = "note_start spec k (d\<lparr>the_host := h\<rparr>)"
      have run: "run_batch acts ?d = (b, again, d')" using Cons.prems(1) Start sp Some by simp
      have "in_window T ?d" "policy ?d = policy d"
        using Cons.prems(2) sp by (auto simp: in_window_def note_start_def spawn_link_def)
      with Cons.IH[OF run] Cons.prems(3) show ?thesis by simp
    next
      case None
      obtain now h1 where now: "now_ms (call (HLog ''could not start child'') h) = (now, h1)" by fastforce
      obtain again1 s where r: "on_child_exit (policy d) (child_id spec) (SException ''start failed'') now = (again1, s)"
        by fastforce
      let ?d = "d\<lparr>policy := s, the_host := h1\<rparr>"
      obtain b2 rest d2 where run: "run_batch acts ?d = (b2, rest, d2)" by (metis prod.collapse)
      have out: "b = b2" "again = again1 @ rest" "d' = d2"
        using Cons.prems(1) Start sp None now r run by simp_all
      have clk: "clock h1 = clock (the_host d)" "\<exists>n. now = clock (the_host d) n"
        using sp now by (auto simp: spawn_link_def now_ms_def)
      have c: "flags s = flags (policy d)" "children s = children (policy d)"
        using on_child_exit_constants[of "policy d" "child_id spec" "SException ''start failed''" now] r by simp_all
      have P: "GiveUp \<in> set again1 \<or> (again1 = [] \<and> restarts s = restarts (policy d))
          \<or> (restarted_so_far d < length (restarts s) \<and> length (restarts s) \<le> limit_of d
             \<and> (\<forall>t \<in> set (restarts s). T \<le> t))"
        using exit_progress[OF r, of T] Cons.prems(2,3) clk(2) by (auto simp: in_window_def)
      show ?thesis
      proof (cases "GiveUp \<in> set again1")
        case True
        then show ?thesis using out by simp
      next
        case False
        with P c clk(1) Cons.prems(2,3) have w: "in_window T ?d" "restarted_so_far ?d \<le> limit_of ?d"
          "restarted_so_far d \<le> restarted_so_far ?d" "again1 \<noteq> [] \<longrightarrow> restarted_so_far d < restarted_so_far ?d"
          "limit_of ?d = limit_of d"
          by (auto simp: in_window_def)
        from Cons.IH[OF run w(1,2)] w(3-5) out show ?thesis by auto
      qed
    qed
  qed
qed auto

lemma drain_ends:
  "in_window T d \<Longrightarrow> restarted_so_far d \<le> limit_of d \<Longrightarrow> limit_of d - restarted_so_far d + 2 \<le> fuel \<Longrightarrow>
   \<exists>r. drain fuel acts d = Some r"
proof (induction fuel arbitrary: acts d)
  case (Suc fuel)
  show ?case
  proof (cases acts)
    case (Cons a as)
    obtain b again d1 where r: "run_batch acts d = (b, again, d1)" by (metis prod.collapse)
    have step: "drain (Suc fuel) acts d = (if b then Some (True, d1) else drain fuel again d1)"
      using r Cons by (cases b) simp_all
    from batch_progress[OF r Suc.prems(1,2)] consider "b" | "\<not> b" "GiveUp \<in> set again" | "\<not> b" "again = []"
      | "\<not> b" "again \<noteq> []" "in_window T d1" "restarted_so_far d1 \<le> limit_of d1"
          "restarted_so_far d < restarted_so_far d1" "limit_of d1 = limit_of d"
      by auto
    then show ?thesis
    proof cases
      case 2
      obtain f where f: "fuel = Suc f" using Suc.prems(3) by (cases fuel) auto
      obtain c cs where "again = c # cs" using 2(2) by (cases again) auto
      moreover have "fst (run_batch again d1)" by (rule give_up_ends_batch[OF 2(2)])
      ultimately show ?thesis using step 2(1) f by (auto split: prod.splits bool.splits)
    next
      case 4
      then have "limit_of d1 - restarted_so_far d1 + 2 \<le> fuel" using Suc.prems(3) by linarith
      from Suc.IH[OF 4(3,4) this] step 4(1) show ?thesis by simp
    qed (use step in auto)
  qed auto
qed simp

text \<open>
  C26: a supervisor does not spin. Whatever its children's start functions do and whatever the
  strategy, if a batch of actions and all that follows from children that cannot be started
  happens within one period, it is carried out in at most as many rounds as the intensity and
  two more, after which the supervisor waits for a message or has given up.
\<close>

theorem drain_returns:
  assumes "in_window T d" and "length (restarts (policy d)) \<le> unat (intensity (flags (policy d)))"
  shows "\<exists>b d'. drain (unat (intensity (flags (policy d))) + 2) acts d = Some (b, d')"
  using drain_ends[OF assms, of "unat (intensity (flags (policy d))) + 2" acts] by auto

definition failing_host :: host where
  "failing_host = \<lparr>clock = (\<lambda>_. 9000), clock_reads = 0, spawn_results = (\<lambda>_. None), spawn_calls = 0, trace = []\<rparr>"

definition doomed :: "supervisor driver" where
  "doomed = (driver_new (supervisor_new all_flags []) failing_host)
     \<lparr>policy := snd (sup_init (supervisor_new all_flags [worker ''a'' Permanent, worker ''b'' Permanent]))\<rparr>"

theorem drain_returns_witness:
  "\<exists>d'. drain 5 [Start (worker ''a'' Permanent), Start (worker ''b'' Permanent)] doomed = Some (True, d')"
proof -
  let ?acts = "[Start (worker ''a'' Permanent), Start (worker ''b'' Permanent)]"
  have s: "intensity (flags (policy doomed)) = 3" "restarts (policy doomed) = []"
    "period_ms (flags (policy doomed)) = 5000" "length (children (policy doomed)) = 2"
    by code_simp+
  have "in_window 4000 doomed"
    by (simp add: in_window_def s) (simp add: doomed_def failing_host_def driver_new_def sat_sub_def)
  from drain_returns[OF this, of ?acts] s obtain b d' where d: "drain 5 ?acts doomed = Some (b, d')" by auto
  have "map_option fst (drain 5 ?acts doomed) = Some True" by code_simp
  with d show ?thesis by simp
qed

section \<open>A pool whose child cannot be started\<close>

text \<open>
  A failed start stays on the books. When the dynamic supervisor is asked to start a child
  that its host refuses to spawn, the caller is answered that it was started, before anything
  is tried. The child stays a member of the pool although no particle runs for it: no exit will
  remove it, and the next request to start a child under that id is refused as a duplicate.
\<close>

lemma failed_pool_start_sticks:
  assumes asked: "decode_command c payload = Inr cmd" "op cmd = StartChild spec"
    and new: "\<not> dyn_contains (policy d) (child_id spec)" "child_id spec \<notin> fst ` set (live d)"
    and refused: "spawn_results (the_host d) (spawn_calls (the_host d)) = None"
    and handled: "on_dynamic_event c (EvTagged r payload) d = (acts, d1)" "run_dynamic_batch acts d1 = (b, d2)"
    and again: "decode_command c payload' = Inr cmd'" "op cmd' = StartChild spec'" "child_id spec' = child_id spec"
  shows "\<not> b \<and> HReply (reply_to cmd) r (encode_reply c (Started (child_id spec))) \<in> set (trace (the_host d2))
    \<and> dyn_contains (policy d2) (child_id spec) \<and> child_id spec \<notin> fst ` set (live d2)
    \<and> (\<forall>k w j. id_of k (live d2) = Some j \<longrightarrow> j \<noteq> child_id spec)
    \<and> on_dynamic_event c (EvTagged r' payload') d2 =
        ([], d2\<lparr>the_host := call (HReply (reply_to cmd') r'
                  (encode_reply c (Refused (show_error c (DuplicateId (child_id spec)))))) (the_host d2)\<rparr>)"
proof -
  let ?reply = "HReply (reply_to cmd) r (encode_reply c (Started (child_id spec)))"
  let ?s = "(policy d)\<lparr>dyn_children := dyn_children (policy d) @ [spec]\<rparr>"
  have 1: "acts = [Start spec]" "d1 = d\<lparr>policy := ?s, the_host := call ?reply (the_host d)\<rparr>"
    using handled(1) asked new(1)
    by (auto simp: on_dynamic_event_def handle_command_def start_child_def Let_def)
  have d2: "\<not> b" "policy d2 = ?s" "live d2 = live d" "?reply \<in> set (trace (the_host d2))"
    using handled(2) refused 1 by (auto simp: spawn_link_def split: option.splits)
  have mem: "dyn_contains (policy d2) (child_id spec)" by (simp add: d2(2) dyn_contains_iff)
  have "j \<noteq> child_id spec" if "id_of k (live d2) = Some j" for k j
    using id_of_in[OF that] new(2) d2(3) by force
  moreover have "on_dynamic_event c (EvTagged r' payload') d2 =
        ([], d2\<lparr>the_host := call (HReply (reply_to cmd') r'
                  (encode_reply c (Refused (show_error c (DuplicateId (child_id spec)))))) (the_host d2)\<rparr>)"
    using mem again by (simp add: on_dynamic_event_def handle_command_def start_child_def)
  ultimately show ?thesis using d2 mem new(2) by auto
qed

text \<open>A codec for one command, whatever the payload.\<close>

definition one_command_codec :: codec where
  "one_command_codec = \<lparr>decode_command = (\<lambda>_. Inr \<lparr>reply_to = ''k9'', op = StartChild (worker ''a'' Permanent)\<rparr>),
     encode_reply = (\<lambda>rep. case rep of Started _ \<Rightarrow> [1] | Terminated \<Rightarrow> [2] | Refused _ \<Rightarrow> [3]),
     show_error = (\<lambda>_. ''duplicate'')\<rparr>"

lemma failed_pool_start_sticks_witness:
  "case run_dynamic_supervisor one_command_codec default_flags [EvTagged 7 []] failing_host of
     (b, d) \<Rightarrow> HReply ''k9'' 7 [1] \<in> set (trace (the_host d)) \<and> dyn_contains (policy d) ''a'' \<and> live d = []"
proof -
  let ?d = "wait_limit (driver_new (dyn_new default_flags) failing_host)"
  obtain acts d1 where e: "on_dynamic_event one_command_codec (EvTagged 7 []) ?d = (acts, d1)" by fastforce
  obtain b d2 where r: "run_dynamic_batch acts d1 = (b, d2)" by fastforce
  have h: "spawn_results (the_host ?d) (spawn_calls (the_host ?d)) = None"
    by (simp add: wait_limit_def driver_new_def failing_host_def Let_def)
  have run: "run_dynamic_supervisor one_command_codec default_flags [EvTagged 7 []] failing_host = (b, d2)"
    using e r by (simp add: run_dynamic_supervisor_def)
  have "live (snd (run_dynamic_supervisor one_command_codec default_flags [EvTagged 7 []] failing_host)) = []"
    by code_simp
  then have "live d2 = []" by (simp add: run)
  let ?cmd = "\<lparr>reply_to = ''k9'', op = StartChild (worker ''a'' Permanent)\<rparr>"
  have dec: "decode_command one_command_codec [] = Inr ?cmd" "op ?cmd = StartChild (worker ''a'' Permanent)"
    by (simp_all add: one_command_codec_def)
  have new: "\<not> dyn_contains (policy ?d) (child_id (worker ''a'' Permanent))"
    "child_id (worker ''a'' Permanent) \<notin> fst ` set (live ?d)"
    by (simp_all add: driver_new_def dyn_new_def dyn_contains_def)
  have reply: "encode_reply one_command_codec (Started i) = [1]" for i by (simp add: one_command_codec_def)
  from failed_pool_start_sticks[OF dec new h e r dec refl, of 8] \<open>live d2 = []\<close>
  show ?thesis unfolding run by (simp add: reply) (simp add: worker_def child_spec_new_def)
qed

end
