(* ===== verification/Particles.thy ===== *)
theory Particles
  imports Registry_Laws Wire
begin

text \<open>
  Starting particles (\<^verbatim>\<open>src/runtime/invoke.rs\<close>, \<^verbatim>\<open>src/runtime/engine.rs\<close> and the spawn handler
  of \<^verbatim>\<open>src/protocol.rs\<close>): finding a component's \<^verbatim>\<open>start\<close> export, parsing its arguments, what the
  end of the start function means, and the spawn paths built on it.

  wasmtime and wasm-wave are not part of the repository. What they say of a component is the
  record \<open>wasm\<close>, an argument of every operation; how a started function ends is an event of its
  own, \<open>particle_ended\<close>.
\<close>

section \<open>The engine, as a parameter\<close>

datatype export_item = EInstance "string list" | ECoreFunc | EOther

datatype val = VString string | VOk "val option" | VErr "val option" | VPlain string

record ('c, 't) wasm =
  instantiates :: "'c \<Rightarrow> bool"
  has_func :: "'c \<Rightarrow> string \<Rightarrow> bool"
  exports :: "'c \<Rightarrow> (string \<times> export_item) list"
  param_types :: "'c \<Rightarrow> string \<Rightarrow> 't list"
  is_string_type :: "'t \<Rightarrow> bool"
  wave_parse :: "'t \<Rightarrow> string \<Rightarrow> val option"
  debug_val :: "val \<Rightarrow> string"

section \<open>The start function\<close>

fun find_nested_start :: "('c, 't) wasm \<Rightarrow> 'c \<Rightarrow> (string \<times> export_item) list \<Rightarrow> string option" where
  "find_nested_start w c [] = None"
| "find_nested_start w c ((name, EInstance fs) # rest) =
     (if ''start'' \<in> set fs \<and> has_func w c (name @ ''/start'') then Some (name @ ''/start'')
      else find_nested_start w c rest)"
| "find_nested_start w c ((name, ECoreFunc) # rest) =
     (if name = ''start'' \<and> has_func w c ''start'' then Some ''start'' else find_nested_start w c rest)"
| "find_nested_start w c ((name, EOther) # rest) = find_nested_start w c rest"

definition find_start_export :: "('c, 't) wasm \<Rightarrow> 'c \<Rightarrow> string option" where
  "find_start_export w c =
     (if has_func w c ''start'' then Some ''start'' else find_nested_start w c (exports w c))"

section \<open>Arguments\<close>

text \<open>\<^verbatim>\<open>str::splitn\<close> and \<^verbatim>\<open>str::trim\<close>, the latter for ASCII white space.\<close>

fun splitn :: "nat \<Rightarrow> char \<Rightarrow> string \<Rightarrow> string list" where
  "splitn 0 c s = []"
| "splitn (Suc 0) c s = [s]"
| "splitn (Suc (Suc n)) c s =
     (let part = takeWhile (\<lambda>x. x \<noteq> c) s; rest = dropWhile (\<lambda>x. x \<noteq> c) s
      in if rest = [] then [s] else part # splitn (Suc n) c (tl rest))"

definition is_space :: "char \<Rightarrow> bool" where
  "is_space c \<longleftrightarrow> (let n = of_char c :: nat in n = 32 \<or> (9 \<le> n \<and> n \<le> 13))"

definition trim :: "string \<Rightarrow> string" where
  "trim s = rev (dropWhile is_space (rev (dropWhile is_space s)))"

datatype start_error =
    CannotInstantiate
  | NoStartExport
  | MissingArgument
  | WrongArity nat nat
  | BadArgument string

fun parse_parts :: "('c, 't) wasm \<Rightarrow> string list \<Rightarrow> 't list \<Rightarrow> start_error + val list" where
  "parse_parts w (part # parts) (ty # tys) =
     (case wave_parse w ty (trim part) of
        None \<Rightarrow> Inl (BadArgument (trim part))
      | Some v \<Rightarrow> (case parse_parts w parts tys of Inl e \<Rightarrow> Inl e | Inr vs \<Rightarrow> Inr (v # vs)))"
| "parse_parts w _ _ = Inr []"

definition parse_wave_args :: "('c, 't) wasm \<Rightarrow> string \<Rightarrow> 't list \<Rightarrow> start_error + val list" where
  "parse_wave_args w args tys =
     (if tys = [] then Inr []
      else if length tys = 1
      then
        (if args = [] then Inl MissingArgument
         else if is_string_type w (hd tys) then Inr [VString args]
         else (case wave_parse w (hd tys) args of None \<Rightarrow> Inl (BadArgument args) | Some v \<Rightarrow> Inr [v]))
      else
        (let parts = splitn (length tys) CHR '','' args
         in if length parts \<noteq> length tys then Inl (WrongArity (length tys) (length parts))
            else parse_parts w parts tys))"

text \<open>What \<^verbatim>\<open>start_particle\<close> settles before the start function runs: the arguments it is called with.\<close>

definition start_particle :: "('c, 't) wasm \<Rightarrow> 'c \<Rightarrow> string \<Rightarrow> start_error + val list" where
  "start_particle w c args =
     (if \<not> instantiates w c then Inl CannotInstantiate
      else
        (case find_start_export w c of
           None \<Rightarrow> Inl NoStartExport
         | Some f \<Rightarrow>
             if param_types w c f = [] \<and> args = [] then Inr []
             else parse_wave_args w args (param_types w c f)))"

section \<open>The end of the start function\<close>

definition interpret_start_result :: "('c, 't) wasm \<Rightarrow> val list \<Rightarrow> exit_reason" where
  "interpret_start_result w results =
     (case results of
        [] \<Rightarrow> Normal
      | VErr (Some (VString s)) # _ \<Rightarrow> Exception (''start failed: '' @ s)
      | VErr (Some v) # _ \<Rightarrow> Exception (''start failed: '' @ debug_val w v)
      | VErr None # _ \<Rightarrow> Exception ''start failed (no error details)''
      | _ \<Rightarrow> Normal)"

datatype run_end = Returned "val list" | Trapped string

definition end_reason :: "('c, 't) wasm \<Rightarrow> run_end \<Rightarrow> exit_reason" where
  "end_reason w e =
     (case e of Returned vs \<Rightarrow> interpret_start_result w vs | Trapped msg \<Rightarrow> Exception (''start trap: '' @ msg))"

definition particle_ended ::
  "('c, 't) wasm \<Rightarrow> 'n pid \<Rightarrow> run_end \<Rightarrow> ('n, 'c) registry \<Rightarrow> ('n, 'c) registry" where
  "particle_ended w p e reg = exit_particle p (end_reason w e) reg"

section \<open>Spawning\<close>

text \<open>A particle asks its own node (\<^verbatim>\<open>HostState::spawn\<close>, \<^verbatim>\<open>HostState::spawn_link\<close>).\<close>

definition host_spawn ::
  "('c, 't) wasm \<Rightarrow> string \<Rightarrow> string option \<Rightarrow> string \<Rightarrow> ('n, 'c) registry
     \<Rightarrow> (spawn_failure + 'n pid) \<times> ('n, 'c) registry" where
  "host_spawn w cname name args reg =
     (case get_component reg cname of
        None \<Rightarrow> (Inl ComponentNotFound, reg)
      | Some (code, caps) \<Rightarrow>
          (case spawn cname name (Some caps) reg of
             (Inl _, reg1) \<Rightarrow> (Inl InitFailed, reg1)
           | (Inr (p, _), reg1) \<Rightarrow>
               (case start_particle w code args of
                  Inl _ \<Rightarrow> (Inl InitFailed, reg1) | Inr _ \<Rightarrow> (Inr p, reg1))))"

definition host_spawn_link ::
  "('c, 't) wasm \<Rightarrow> 'n pid \<Rightarrow> string \<Rightarrow> string option \<Rightarrow> string \<Rightarrow> ('n, 'c) registry
     \<Rightarrow> (spawn_failure + 'n pid) \<times> ('n, 'c) registry" where
  "host_spawn_link w parent cname name args reg =
     (case get_component reg cname of
        None \<Rightarrow> (Inl ComponentNotFound, reg)
      | Some (code, caps) \<Rightarrow>
          (case spawn cname name (Some caps) reg of
             (Inl _, reg1) \<Rightarrow> (Inl InitFailed, reg1)
           | (Inr (p, _), reg1) \<Rightarrow>
               (let reg2 = snd (link parent p reg1)
                in case start_particle w code args of
                     Inl _ \<Rightarrow> (Inl InitFailed, reg2) | Inr _ \<Rightarrow> (Inr p, reg2))))"

text \<open>\<^verbatim>\<open>local_spawn\<close>: \<^verbatim>\<open>spawn-on\<close> naming the particle's own node.\<close>

definition local_spawn ::
  "('c, 't) wasm \<Rightarrow> string \<Rightarrow> string option \<Rightarrow> string \<Rightarrow> ('n, 'c) registry
     \<Rightarrow> (spawn_failure + 'n pid) \<times> ('n, 'c) registry" where
  "local_spawn w cname name args reg =
     (case get_component reg cname of
        None \<Rightarrow> (Inl ComponentNotFound, reg)
      | Some (code, caps) \<Rightarrow>
          (case spawn cname name (Some caps) reg of
             (Inl _, reg1) \<Rightarrow> (Inl ResourceLimit, reg1)
           | (Inr (p, _), reg1) \<Rightarrow>
               (case start_particle w code args of
                  Inl _ \<Rightarrow> (Inl InitFailed, reg1) | Inr _ \<Rightarrow> (Inr p, reg1))))"

text \<open>Another node asks (\<^verbatim>\<open>handle_spawn\<close>).\<close>

definition handle_spawn ::
  "('c, 't) wasm \<Rightarrow> spawn_request \<Rightarrow> ('n, 'c) registry \<Rightarrow> 'n spawn_response \<times> ('n, 'c) registry" where
  "handle_spawn w req reg =
     (case get_component reg (request_component req) of
        None \<Rightarrow> (Inl WComponentNotFound, reg)
      | Some (code, caps) \<Rightarrow>
          (case spawn (request_component req) (request_name req) (Some caps) reg of
             (Inl _, reg1) \<Rightarrow> (Inl WResourceLimit, reg1)
           | (Inr (p, _), reg1) \<Rightarrow>
               (case start_particle w code (request_init_args req) of
                  Inl _ \<Rightarrow> (Inl WInitFailed, reg1)
                | Inr _ \<Rightarrow> (Inr \<lparr>spawned_pid = p, spawned_component = request_component req,
                                  spawned_name = request_name req\<rparr>, reg1))))"

text \<open>The node's operator asks (\<^verbatim>\<open>Runtime::load\<close>, \<^verbatim>\<open>Runtime::spawn\<close>, \<^verbatim>\<open>Runtime::deploy\<close>).\<close>

datatype 'n runtime_error =
    NotRegisteredComponent string
  | RegistryRefused "'n reg_error"
  | StartFailed start_error

definition runtime_spawn ::
  "('c, 't) wasm \<Rightarrow> string \<Rightarrow> string option \<Rightarrow> policy_set option \<Rightarrow> string \<Rightarrow> ('n, 'c) registry
     \<Rightarrow> ('n runtime_error + 'n pid) \<times> ('n, 'c) registry" where
  "runtime_spawn w cname name caps args reg =
     (case get_component reg cname of
        None \<Rightarrow> (Inl (NotRegisteredComponent cname), reg)
      | Some (code, default_caps) \<Rightarrow>
          (let granted = (case caps of Some c \<Rightarrow> c | None \<Rightarrow> default_caps)
           in case spawn cname name (Some granted) reg of
                (Inl e, reg1) \<Rightarrow> (Inl (RegistryRefused e), reg1)
              | (Inr (p, _), reg1) \<Rightarrow>
                  (case start_particle w code args of
                     Inl e \<Rightarrow> (Inl (StartFailed e), reg1) | Inr _ \<Rightarrow> (Inr p, reg1))))"

definition deploy ::
  "('c, 't) wasm \<Rightarrow> (bytes \<Rightarrow> string + 'c) \<Rightarrow> string \<Rightarrow> bytes \<Rightarrow> string option \<Rightarrow> policy_set \<Rightarrow> string
     \<Rightarrow> ('n, 'c) registry \<Rightarrow> ('n runtime_error + 'n pid) \<times> ('n, 'c) registry" where
  "deploy w compile cname binary name caps args reg =
     (case register_component compile cname binary caps reg of
        (Inl e, reg1) \<Rightarrow> (Inl (RegistryRefused e), reg1)
      | (Inr (), reg1) \<Rightarrow> runtime_spawn w cname name (Some caps) args reg1)"

section \<open>Zombies\<close>

lemma spawn_Inr:
  assumes "spawn cname name caps reg = (Inr (p, a), reg1)"
  shows "particle_exists reg1 p" and "name = Some n \<Longrightarrow> get_by_name reg1 n = Some p"
    and "state_of reg1 p = Some (fresh_state a)"
  using assms
  by (auto simp: spawn_def spawn_raced_def particle_exists_def get_by_name_def Let_def
      split: option.splits prod.splits if_splits)

lemma spawn_name_taken:
  "get_by_name reg n \<noteq> None \<Longrightarrow> spawn cname (Some n) caps reg = (Inl (NameTaken n), reg)"
  by (simp add: spawn_def spawn_raced_def get_by_name_def hm_has_iff)

text \<open>
  A failed start leaves a zombie. On every spawn path the particle is entered in the registry
  before its component is instantiated and its arguments are parsed, and nothing takes it out
  again when that fails. The caller is told that the start failed; the particle exists all the
  same, with an open mailbox and its name, and the name cannot be used again: every further
  spawn under it is refused. The task that would have ended the particle was never begun.
\<close>

lemma failed_start_leaves_zombie:
  assumes code: "get_component reg (request_component req) = Some (code, caps)"
    and entered: "spawn (request_component req) (request_name req) (Some caps) reg = (Inr (p, a), reg1)"
    and failed: "start_particle w code (request_init_args req) = Inl e"
    and named: "request_name req = Some n"
  shows "handle_spawn w req reg = (Inl WInitFailed, reg1)
    \<and> host_spawn w (request_component req) (Some n) (request_init_args req) reg = (Inl InitFailed, reg1)
    \<and> local_spawn w (request_component req) (Some n) (request_init_args req) reg = (Inl InitFailed, reg1)
    \<and> runtime_spawn w (request_component req) (Some n) None (request_init_args req) reg = (Inl (StartFailed e), reg1)
    \<and> particle_exists reg1 p \<and> get_by_name reg1 n = Some p \<and> state_of reg1 p = Some (fresh_state a)
    \<and> spawn cname' (Some n) caps' reg1 = (Inl (NameTaken n), reg1)"
  using assms spawn_Inr[OF entered] spawn_name_taken[of reg1 n cname' caps']
  by (simp add: handle_spawn_def host_spawn_def local_spawn_def runtime_spawn_def)

text \<open>
  A component of one argument, which no text denotes, in a registry that has the component.
\<close>

definition stubborn_wasm :: "(unit, unit) wasm" where
  "stubborn_wasm = \<lparr>instantiates = (\<lambda>_. True), has_func = (\<lambda>_ f. f = ''start''), exports = (\<lambda>_. []),
     param_types = (\<lambda>_ _. [()]), is_string_type = (\<lambda>_. False), wave_parse = (\<lambda>_ _. None),
     debug_val = (\<lambda>_. [])\<rparr>"

definition shop :: "(nat, unit) registry" where
  "shop = snd (register_component (\<lambda>_. Inr ()) ''worker'' [] policy_empty (registry_new (pid_gen_new 0)))"

lemma failed_start_leaves_zombie_witness:
  "fst (handle_spawn stubborn_wasm
      \<lparr>request_component = ''worker'', request_name = Some ''w'', request_init_args = ''7''\<rparr> shop) = Inl WInitFailed
   \<and> (\<exists>p. get_by_name (snd (handle_spawn stubborn_wasm
        \<lparr>request_component = ''worker'', request_name = Some ''w'', request_init_args = ''7''\<rparr> shop)) ''w'' = Some p)"
proof -
  let ?req = "\<lparr>request_component = ''worker'', request_name = Some ''w'', request_init_args = ''7''\<rparr>"
  have c: "get_component shop (request_component ?req) = Some ((), policy_empty)" by code_simp
  have s: "start_particle stubborn_wasm () (request_init_args ?req) = Inl (BadArgument ''7'')" by code_simp
  obtain r reg1 where sp: "spawn (request_component ?req) (request_name ?req) (Some policy_empty) shop = (r, reg1)"
    by fastforce
  have "case fst (spawn ''worker'' (Some ''w'') (Some policy_empty) shop) of Inl _ \<Rightarrow> False | Inr _ \<Rightarrow> True"
    by code_simp
  then obtain p a where "r = Inr (p, a)" using sp by (auto split: sum.splits)
  with failed_start_leaves_zombie[OF c _ s, of p a reg1 "''w''"] sp show ?thesis by auto
qed

end
