(* ===== verification/Partitions.thy ===== *)
theory Partitions
  imports Clusters
begin

text \<open>
  Keeping partitions fully connected (\<^verbatim>\<open>src/partitions.rs\<close>): which reports a node acts on,
  the flood of a report through the cluster, and the deliberate disconnect that answers it.

  What a handler does to the peer links is the list of link operations it performs, in order;
  \<open>link_apply\<close> of \<open>Transport\<close> says what each does.
\<close>

definition seen_retention_ms :: nat where
  "seen_retention_ms = 3600000"

record 'n partitions =
  pt_me :: 'n
  next_op :: u64
  seen :: "('n \<times> 'n, u64 \<times> nat) hmap"

definition partitions_new :: "'n \<Rightarrow> 'n partitions" where
  "partitions_new n = \<lparr>pt_me = n, next_op = 1, seen = []\<rparr>"

definition next_op_id :: "'n partitions \<Rightarrow> u64 \<times> 'n partitions" where
  "next_op_id pt = (next_op pt, pt\<lparr>next_op := next_op pt + 1\<rparr>)"

definition accept :: "nat \<Rightarrow> 'n \<Rightarrow> 'n \<Rightarrow> u64 \<Rightarrow> 'n partitions \<Rightarrow> bool \<times> 'n partitions" where
  "accept now reporter lost op_id pt =
     (let recent = hm_retain (\<lambda>_ (_, at). now - at < seen_retention_ms) (seen pt);
          entered = (True, pt\<lparr>seen := hm_insert (reporter, lost) (op_id, now) recent\<rparr>)
      in case hm_get recent (reporter, lost) of
           Some (highest, _) \<Rightarrow> if op_id \<le> highest then (False, pt\<lparr>seen := recent\<rparr>) else entered
         | None \<Rightarrow> entered)"

record 'n partition_node =
  roster :: "'n cluster"
  reports :: "'n partitions"

definition disconnect_deliberately ::
  "nat \<Rightarrow> 'n \<Rightarrow> 'n cluster \<Rightarrow> 'n cluster \<times> ('n, 'a) link_op list" where
  "disconnect_deliberately now target cl =
     (snd (quarantine now target cl), [LSend target (PRemoveConnection (cl_me cl)), LDisconnect target])"

definition on_lost_connection ::
  "nat \<Rightarrow> 'n \<Rightarrow> 'n \<Rightarrow> u64 \<Rightarrow> 'n partition_node \<Rightarrow> 'n partition_node \<times> ('n, 'a) link_op list" where
  "on_lost_connection now reporter lost op_id nd =
     (let (fresh, pt) = accept now reporter lost op_id (reports nd); nd1 = nd\<lparr>reports := pt\<rparr>
      in if \<not> fresh then (nd1, [])
         else
           (let flood = map (\<lambda>n. LSend n (PLostConnection reporter lost op_id))
                          (filter (\<lambda>n. n \<noteq> reporter \<and> n \<noteq> lost) (cl_nodes (roster nd1)));
                target = (if lost = pt_me pt then reporter else lost)
            in if target = pt_me pt then (nd1, flood)
               else (let (cl, ops) = disconnect_deliberately now target (roster nd1)
                     in (nd1\<lparr>roster := cl\<rparr>, flood @ ops))))"

definition on_remove_connection ::
  "nat \<Rightarrow> 'n \<Rightarrow> 'n partition_node \<Rightarrow> 'n partition_node \<times> ('n, 'a) link_op list" where
  "on_remove_connection now from nd =
     (let (cl, ops) = disconnect_deliberately now from (roster nd) in (nd\<lparr>roster := cl\<rparr>, ops))"

text \<open>The loss reporter, one broadcast item after the other, each with the time it is handled.\<close>

fun loss_reporter ::
  "(nat \<times> 'n bc) list \<Rightarrow> 'n partition_node \<Rightarrow> 'n partition_node \<times> ('n, 'a) link_op list" where
  "loss_reporter [] nd = (nd, [])"
| "loss_reporter ((now, BcLagged) # es) nd = loss_reporter es nd"
| "loss_reporter ((now, BcClosed) # es) nd = (nd, [])"
| "loss_reporter ((now, BcOk lost) # es) nd =
     (case is_quarantined now lost (roster nd) of
        (True, cl) \<Rightarrow> loss_reporter es (nd\<lparr>roster := cl\<rparr>)
      | (False, cl) \<Rightarrow>
          (let (op_id, pt) = next_op_id (reports nd);
               msgs = map (\<lambda>n. LSend n (PLostConnection (pt_me pt) lost op_id))
                        (filter (\<lambda>n. n \<noteq> lost) (cl_nodes cl));
               (nd', ops) = loss_reporter es (nd\<lparr>roster := cl, reports := pt\<rparr>)
           in (nd', msgs @ ops)))"

section \<open>A report is acted on once\<close>

lemma accept_me: "pt_me (snd (accept now r l op pt)) = pt_me pt"
  by (simp add: accept_def Let_def split: option.splits)

definition handled :: "nat \<Rightarrow> 'n partitions \<Rightarrow> 'n \<Rightarrow> 'n \<Rightarrow> u64 \<Rightarrow> bool" where
  "handled until pt r l op \<longleftrightarrow>
     (\<exists>highest at. hm_get (seen pt) (r, l) = Some (highest, at) \<and> op \<le> highest \<and> until \<le> at + seen_retention_ms)
     \<and> hm_wf (seen pt)"

lemma accept_wf: "hm_wf (seen pt) \<Longrightarrow> hm_wf (seen (snd (accept now r l op pt)))"
  by (auto simp: accept_def Let_def split: option.splits)

lemma accept_handled:
  assumes "hm_wf (seen pt)" and "until \<le> now + seen_retention_ms" and "fst (accept now r l op pt)"
  shows "handled until (snd (accept now r l op pt)) r l op"
proof -
  have "snd (accept now r l op pt) = pt\<lparr>seen := hm_insert (r, l) (op, now)
      (hm_retain (\<lambda>_ (_, at). now - at < seen_retention_ms) (seen pt))\<rparr>"
    using assms(3) by (auto simp: accept_def Let_def split: option.splits if_splits)
  with assms show ?thesis by (simp add: handled_def)
qed

lemma handled_keeps:
  assumes h: "handled until pt r l op" and now: "now < until" and up: "until \<le> now + seen_retention_ms"
  shows "handled until (snd (accept now r' l' op' pt)) r l op
    \<and> ((r', l') = (r, l) \<longrightarrow> op' \<le> op \<longrightarrow> \<not> fst (accept now r' l' op' pt))"
proof -
  let ?recent = "hm_retain (\<lambda>_ (_, at). now - at < seen_retention_ms) (seen pt)"
  from h obtain highest at where g: "hm_get (seen pt) (r, l) = Some (highest, at)" "op \<le> highest"
    "until \<le> at + seen_retention_ms" and wf: "hm_wf (seen pt)"
    by (auto simp: handled_def)
  have young: "now - at < seen_retention_ms" using g(3) now by (simp add: seen_retention_ms_def)
  then have rec: "hm_get ?recent (r, l) = Some (highest, at)"
    using g(1) hm_get_retain[OF wf, of "\<lambda>_ (_, at). now - at < seen_retention_ms" "(r, l)"] by simp
  have out: "accept now r' l' op' pt =
      (case hm_get ?recent (r', l') of
         Some (highest, _) \<Rightarrow> if op' \<le> highest then (False, pt\<lparr>seen := ?recent\<rparr>)
            else (True, pt\<lparr>seen := hm_insert (r', l') (op', now) ?recent\<rparr>)
       | None \<Rightarrow> (True, pt\<lparr>seen := hm_insert (r', l') (op', now) ?recent\<rparr>))"
    by (simp add: accept_def Let_def split: option.splits)
  show ?thesis
  proof (cases "(r', l') = (r, l)")
    case True
    with rec out have "accept now r' l' op' pt =
        (if op' \<le> highest then (False, pt\<lparr>seen := ?recent\<rparr>)
         else (True, pt\<lparr>seen := hm_insert (r, l) (op', now) ?recent\<rparr>))"
      by simp
    with g rec wf up True show ?thesis by (auto simp: handled_def)
  next
    case False
    then have "hm_get (seen (snd (accept now r' l' op' pt))) (r, l) = Some (highest, at)"
      using rec by (auto simp: out split: option.splits)
    with g accept_wf[OF wf] False show ?thesis by (auto simp: handled_def)
  qed
qed

section \<open>The flood\<close>

text \<open>
  One report spreads: the copies in flight, by destination, and the nodes that hold the
  state. A step delivers one copy, at a time within the hour a handled report is remembered.
\<close>

definition copies :: "'n \<Rightarrow> 'n \<Rightarrow> u64 \<Rightarrow> ('n, 'a) link_op list \<Rightarrow> 'n list" where
  "copies r l op ops =
     List.map_filter (\<lambda>x. case x of LSend n (PLostConnection r' l' op') \<Rightarrow>
         if r' = r \<and> l' = l \<and> op' = op then Some n else None | _ \<Rightarrow> None) ops"

definition flood_step ::
  "'n \<Rightarrow> 'n \<Rightarrow> u64 \<Rightarrow> nat \<times> nat \<Rightarrow> ('n \<Rightarrow> 'n partition_node) \<times> 'n list
     \<Rightarrow> ('n \<Rightarrow> 'n partition_node) \<times> 'n list" where
  "flood_step r l op choice s =
     (case choice of (now, i) \<Rightarrow>
        (case s of (nodes, flight) \<Rightarrow>
           (let d = flight ! i;
                (nd, ops) = on_lost_connection now r l op (nodes d) :: 'n partition_node \<times> ('n, unit) link_op list
            in (nodes(d := nd), remove_at i flight @ copies r l op ops))))"

fun flood_run ::
  "'n \<Rightarrow> 'n \<Rightarrow> u64 \<Rightarrow> (nat \<times> nat) list \<Rightarrow> ('n \<Rightarrow> 'n partition_node) \<times> 'n list
     \<Rightarrow> (('n \<Rightarrow> 'n partition_node) \<times> 'n list) option" where
  "flood_run r l op [] s = Some s"
| "flood_run r l op (c # cs) s =
     (if snd c < length (snd s) then flood_run r l op cs (flood_step r l op c s) else None)"

lemma copies_simps [simp]:
  "copies r l op [] = []"
  "copies r l op (x # xs) =
     (case x of LSend n (PLostConnection r' l' op') \<Rightarrow> if r' = r \<and> l' = l \<and> op' = op then [n] else []
      | _ \<Rightarrow> []) @ copies r l op xs"
  by (auto simp: copies_def List.map_filter_def split: link_op.splits peer_message.splits)

lemma copies_append [simp]: "copies r l op (xs @ ys) = copies r l op xs @ copies r l op ys"
  by (induction xs) simp_all

lemma copies_flood [simp]: "copies r l op (map (\<lambda>n. LSend n (PLostConnection r l op)) ns) = ns"
  by (induction ns) simp_all

lemma on_lost_connection_cases:
  assumes "on_lost_connection now r l op nd = (nd', ops)"
  shows "reports nd' = snd (accept now r l op (reports nd))
    \<and> set (members (roster nd')) \<subseteq> set (members (roster nd))
    \<and> (\<not> fst (accept now r l op (reports nd)) \<longrightarrow> nd' = nd\<lparr>reports := reports nd'\<rparr> \<and> ops = [])
    \<and> copies r l op ops = (if fst (accept now r l op (reports nd))
         then filter (\<lambda>n. n \<noteq> r \<and> n \<noteq> l) (members (roster nd)) else [])
    \<and> (distinct (members (roster nd)) \<longrightarrow> distinct (members (roster nd')))"
  using assms
  by (auto simp: on_lost_connection_def disconnect_deliberately_def Let_def split_def cl_nodes_def
      quarantine_def split: if_splits)

definition closed_under :: "'n set \<Rightarrow> ('n \<Rightarrow> 'n partition_node) \<Rightarrow> bool" where
  "closed_under N nodes \<longleftrightarrow>
     (\<forall>n \<in> N. set (members (roster (nodes n))) \<subseteq> N \<and> distinct (members (roster (nodes n)))
        \<and> hm_wf (seen (reports (nodes n))))"

definition unaware :: "nat \<Rightarrow> 'n \<Rightarrow> 'n \<Rightarrow> u64 \<Rightarrow> 'n set \<Rightarrow> ('n \<Rightarrow> 'n partition_node) \<Rightarrow> 'n set" where
  "unaware until r l op N nodes = {n \<in> N. \<not> handled until (reports (nodes n)) r l op}"

lemma potential_less:
  fixes a :: nat
  assumes "u' < u" and "f' < f + a"
  shows "f' + a * u' < f + a * u"
proof -
  have "a * Suc u' \<le> a * u" using assms(1) by (intro mult_le_mono2 Suc_leI)
  then have "a + a * u' \<le> a * u" by simp
  then show ?thesis using assms(2) by linarith
qed

lemma flood_step_measure:
  assumes fin: "finite N" and cu: "closed_under N nodes" and fl: "set flight \<subseteq> N" and i: "i < length flight"
    and now: "now < until" "until \<le> now + seen_retention_ms"
    and step: "flood_step r l op (now, i) (nodes, flight) = (nodes', flight')"
  shows "closed_under N nodes' \<and> set flight' \<subseteq> N \<and>
    length flight' + card N * card (unaware until r l op N nodes')
      < length flight + card N * card (unaware until r l op N nodes)"
proof -
  let ?d = "flight ! i"
  obtain nd and ops :: "('a, unit) link_op list" where
    h: "on_lost_connection now r l op (nodes ?d) = (nd, ops)" by fastforce
  have d: "?d \<in> N" using fl i by auto
  have out: "nodes' = nodes(?d := nd)" "flight' = remove_at i flight @ copies r l op ops"
    using step h by (auto simp: flood_step_def Let_def)
  note c = on_lost_connection_cases[OF h]
  have rep: "reports nd = snd (accept now r l op (reports (nodes ?d)))" using c by blast
  have wf: "hm_wf (seen (reports (nodes ?d)))" using cu d by (simp add: closed_under_def)
  have "set (members (roster nd)) \<subseteq> N \<and> distinct (members (roster nd)) \<and> hm_wf (seen (reports nd))"
    using cu c d accept_wf[OF wf] unfolding closed_under_def rep by blast
  then have cu': "closed_under N nodes'"
    using cu by (simp add: closed_under_def out(1))
  have cp: "set (copies r l op ops) \<subseteq> N" "length (copies r l op ops) \<le> card N"
  proof -
    have m: "set (members (roster (nodes ?d))) \<subseteq> N" "distinct (members (roster (nodes ?d)))"
      using cu d by (auto simp: closed_under_def)
    then have "length (members (roster (nodes ?d))) \<le> card N"
      by (metis card_mono distinct_card fin)
    then show "length (copies r l op ops) \<le> card N" "set (copies r l op ops) \<subseteq> N"
      using c m(1) by (auto intro: order_trans[OF length_filter_le])
  qed
  have len: "length (remove_at i flight) = length flight - 1" using i by (simp add: remove_at_def)
  have fl': "set flight' \<subseteq> N" using fl cp(1) by (auto simp: out dest: in_set_remove_at)
  have sub: "unaware until r l op N nodes' \<subseteq> unaware until r l op N nodes"
    using handled_keeps[of until "reports (nodes ?d)" r l op now r l op, OF _ now]
    by (auto simp: unaware_def out rep split: if_splits)
  have "length flight' + card N * card (unaware until r l op N nodes')
      < length flight + card N * card (unaware until r l op N nodes)"
  proof (cases "fst (accept now r l op (reports (nodes ?d)))")
    case False
    then have "length flight' < length flight" using c i len by (simp add: out)
    moreover have "card (unaware until r l op N nodes') \<le> card (unaware until r l op N nodes)"
      by (rule card_mono[OF _ sub]) (simp add: unaware_def fin)
    then have "card N * card (unaware until r l op N nodes') \<le> card N * card (unaware until r l op N nodes)"
      by (rule mult_le_mono2)
    ultimately show ?thesis by linarith
  next
    case True
    have "\<not> handled until (reports (nodes ?d)) r l op" using handled_keeps[of until "reports (nodes ?d)" r l op now r l op, OF _ now] True by auto
    then have "?d \<in> unaware until r l op N nodes" using d by (simp add: unaware_def)
    moreover have "?d \<notin> unaware until r l op N nodes'"
      using accept_handled[OF wf now(2) True] by (simp add: unaware_def out rep)
    ultimately have "card (unaware until r l op N nodes') < card (unaware until r l op N nodes)"
      using sub by (intro psubset_card_mono) (auto simp: unaware_def fin)
    moreover have "length flight' < length flight + card N"
      using cp(2) len i by (simp add: out)
    ultimately show ?thesis by (rule potential_less)
  qed
  with cu' fl' show ?thesis by blast
qed

lemma flood_run_bound:
  assumes "finite N" and "closed_under N nodes" and "set flight \<subseteq> N"
    and "\<forall>(now, i) \<in> set cs. now < until \<and> until \<le> now + seen_retention_ms"
    and "flood_run r l op cs (nodes, flight) \<noteq> None"
  shows "length cs \<le> length flight + card N * card (unaware until r l op N nodes)"
  using assms
proof (induction cs arbitrary: nodes flight)
  case (Cons c cs)
  obtain now i where c: "c = (now, i)" by fastforce
  obtain nodes' flight' where st: "flood_step r l op (now, i) (nodes, flight) = (nodes', flight')"
    by fastforce
  have i: "i < length flight" and run: "flood_run r l op cs (nodes', flight') \<noteq> None"
    using Cons.prems(5) c st by (auto split: if_splits)
  have tm: "now < until" "until \<le> now + seen_retention_ms" using Cons.prems(4) c by auto
  from flood_step_measure[OF Cons.prems(1,2,3) i tm st]
  have s: "closed_under N nodes'" "set flight' \<subseteq> N" "length flight' + card N * card (unaware until r l op N nodes')
      < length flight + card N * card (unaware until r l op N nodes)"
    by auto
  have "length cs \<le> length flight' + card N * card (unaware until r l op N nodes')"
    using Cons.IH[OF Cons.prems(1) s(1,2) _ run] Cons.prems(4) by auto
  with s(3) show ?case by simp
qed simp

section \<open>Properties\<close>

text \<open>
  C14: the flood of a report dies out. Among nodes that only know each other, however the
  copies of one lost-connection report are delivered within the hour that handled reports are
  remembered, at most as many deliveries happen as there were copies in flight at the start
  plus the square of the number of nodes.
\<close>

theorem flood_terminates:
  assumes "finite N" and "closed_under N nodes" and "set flight \<subseteq> N"
    and "\<forall>(now, i) \<in> set cs. start \<le> now \<and> now < start + seen_retention_ms"
    and "flood_run r l op cs (nodes, flight) \<noteq> None"
  shows "length cs \<le> length flight + card N * card N"
proof -
  have "length cs \<le> length flight + card N * card (unaware (start + seen_retention_ms) r l op N nodes)"
    using assms by (intro flood_run_bound) auto
  moreover have "card (unaware (start + seen_retention_ms) r l op N nodes) \<le> card N"
    using assms(1) by (intro card_mono) (auto simp: unaware_def)
  then have "card N * card (unaware (start + seen_retention_ms) r l op N nodes) \<le> card N * card N"
    by (rule mult_le_mono2)
  ultimately show ?thesis by linarith
qed

definition mesh_node :: "nat \<Rightarrow> nat partition_node" where
  "mesh_node n = \<lparr>roster = snd (learn 0 [0, 1, 2] (cluster_new n)), reports = partitions_new n\<rparr>"

theorem flood_terminates_witness:
  "length [(5 :: nat, 0 :: nat), (6, 0), (7, 0)] \<le> length [1 :: nat, 2] + 3 * 3"
proof -
  have "closed_under {0, 1, 2} mesh_node"
    by (auto simp: closed_under_def mesh_node_def learn_def is_quarantined_def cluster_new_def
        partitions_new_def hs_insert_def)
  moreover have "flood_run 0 3 1 [(5, 0), (6, 0), (7, 0)] (mesh_node, [1, 2]) \<noteq> None"
    by (simp add: flood_step_def on_lost_connection_def accept_def mesh_node_def learn_def
        is_quarantined_def cluster_new_def partitions_new_def hs_insert_def hm_retain_def Let_def
        cl_nodes_def remove_at_def disconnect_deliberately_def quarantine_def hs_remove_def)
  ultimately show ?thesis
    using flood_terminates[of "{0, 1, 2}" mesh_node "[1, 2]" "[(5, 0), (6, 0), (7, 0)]" 0 0 3 1]
    by (simp add: seen_retention_ms_def)
qed

text \<open>
  C28: a report is acted on once, a later one again. Once a node has acted on a report, then
  for the rest of the hour, whatever else it is told in between, it treats every copy of it
  and every earlier report of the same pair as handled: it sends nothing and drops nobody.
  The first report of a pair, and one with a higher operation id, is acted on.
\<close>

theorem report_acted_once:
  assumes "hm_wf (seen pt)" and "fst (accept now r l op pt)"
    and "pt' = foldl (\<lambda>pt (t, r', l', op'). snd (accept t r' l' op' pt)) (snd (accept now r l op pt)) others"
    and "\<forall>(t, _) \<in> set others. now \<le> t \<and> t < now + seen_retention_ms"
    and "now \<le> later" and "later < now + seen_retention_ms"
  shows "(op' \<le> op \<longrightarrow> on_lost_connection later r l op' \<lparr>roster = cl, reports = pt'\<rparr> =
        (\<lparr>roster = cl, reports = snd (accept later r l op' pt')\<rparr>, []))
    \<and> fst (accept t x y op'' (partitions_new n))
    \<and> (op < op'' \<longrightarrow> fst (accept later r l op'' (snd (accept now r l op pt))))"
proof -
  let ?until = "now + seen_retention_ms"
  have h0: "handled ?until (snd (accept now r l op pt)) r l op"
    by (rule accept_handled[OF assms(1) _ assms(2)]) simp
  have "handled ?until pt' r l op"
    unfolding assms(3) using h0 assms(4)
  proof (induction others arbitrary: pt rule: rev_induct)
    case (snoc x xs)
    obtain t r' l' op' where x: "x = (t, r', l', op')" by (metis prod_cases4)
    with snoc show ?case using handled_keeps[of ?until _ r l op t r' l' op'] by auto
  qed simp
  then have "\<not> fst (accept later r l op' pt')" if "op' \<le> op"
    using handled_keeps[of ?until pt' r l op later r l op'] assms(5,6) that by auto
  then have "op' \<le> op \<longrightarrow> on_lost_connection later r l op' \<lparr>roster = cl, reports = pt'\<rparr> =
        (\<lparr>roster = cl, reports = snd (accept later r l op' pt')\<rparr>, [])"
    by (simp add: on_lost_connection_def Let_def split_def)
  moreover have "fst (accept later r l op'' (snd (accept now r l op pt)))" if "op < op''"
  proof -
    have "hm_get (seen (snd (accept now r l op pt))) (r, l) = Some (op, now)"
      using assms(2) by (auto simp: accept_def Let_def split: option.splits if_splits)
    moreover have "hm_wf (seen (snd (accept now r l op pt)))" by (rule accept_wf[OF assms(1)])
    ultimately show ?thesis
      using that by (auto simp: accept_def Let_def hm_get_retain split: option.splits)
  qed
  moreover have "fst (accept t x y op'' (partitions_new n))"
    by (simp add: accept_def partitions_new_def hm_retain_def Let_def)
  ultimately show ?thesis by blast
qed

theorem report_acted_once_witness:
  "snd (on_lost_connection 9 1 2 5 \<lparr>roster = cluster_new 0,
      reports = snd (accept 7 1 2 5 (partitions_new (0 :: nat)))\<rparr>) = ([] :: (nat, nat) link_op list)"
proof -
  have "hm_wf (seen (partitions_new (0 :: nat))) \<and> fst (accept 7 1 2 5 (partitions_new (0 :: nat)))"
    by (simp add: accept_def partitions_new_def hm_retain_def Let_def)
  then have "on_lost_connection 9 1 2 5 \<lparr>roster = cluster_new 0, reports = snd (accept 7 1 2 5 (partitions_new 0))\<rparr>
      = (\<lparr>roster = cluster_new 0, reports = snd (accept 9 1 2 5 (snd (accept 7 1 2 5 (partitions_new (0 :: nat)))))\<rparr>,
         [] :: (nat, nat) link_op list)"
    by (intro report_acted_once[where others = "[]" and now = 7 and op = 5, THEN conjunct1, rule_format])
      (simp_all add: seen_retention_ms_def)
  then show ?thesis by simp
qed

text \<open>
  C35: a deliberate disconnect does not echo, and stays. A node that drops another on purpose
  no longer counts it as a member and, until a minute has passed, neither learns it again from
  anybody nor reports its loss, whatever it is told meanwhile; and it never drops or lists
  itself.
\<close>

theorem disconnect_no_echo:
  assumes "cluster_inv cl" and "disconnect_deliberately now target cl = (cl', ops)"
    and "\<forall>e \<in> set es. now \<le> fst e \<and> fst e < now + quarantine_ms"
    and "now \<le> later" and "later < now + quarantine_ms"
    and "cl2 = foldl cluster_apply cl' es"
  shows "target \<notin> set (members cl2)
    \<and> snd (loss_reporter [(later, BcOk target)] \<lparr>roster = cl2, reports = pt\<rparr>) = ([] :: ('n, 'a) link_op list)
    \<and> target \<notin> set (fst (learn later ns cl2)) \<and> cl_me cl2 \<notin> set (members cl2)"
proof -
  let ?t = "now + quarantine_ms"
  have cl': "cl' = snd (quarantine now target cl)"
    using assms(2) by (simp add: disconnect_deliberately_def)
  have "barred_until ?t cl' target" by (auto simp: cl' barred_until_def quarantine_def)
  moreover have "cluster_inv cl'"
    using quarantine_spec[OF prod.collapse[symmetric], of now target cl] assms(1) by (simp add: cl')
  ultimately have "barred_until ?t cl2 target \<and> cluster_inv cl2"
    unfolding assms(6) using assms(3)
  proof (induction es arbitrary: cl')
    case (Cons e es)
    then have "barred_until ?t (cluster_apply cl' e) target"
      by (intro barred_until_apply) auto
    moreover have "cluster_inv (cluster_apply cl' e)" using Cons.prems(2) by (rule cluster_inv_apply)
    moreover have "\<forall>e \<in> set es. now \<le> fst e \<and> fst e < now + quarantine_ms" using Cons.prems(3) by simp
    ultimately have "barred_until ?t (foldl cluster_apply (cluster_apply cl' e) es) target
        \<and> cluster_inv (foldl cluster_apply (cluster_apply cl' e) es)"
      by (rule Cons.IH)
    then show ?case by simp
  qed simp
  then have b: "barred later cl2 target" "target \<notin> set (members cl2)" and inv: "cluster_inv cl2"
    using assms(5) by (auto simp: barred_until_def barred_def)
  obtain q cl3 where q: "is_quarantined later target cl2 = (q, cl3)" by fastforce
  have "q" using is_quarantined_barred(1)[OF q] b(1) by simp
  then have "snd (loss_reporter [(later, BcOk target)] \<lparr>roster = cl2, reports = pt\<rparr>) = ([] :: ('n, 'a) link_op list)"
    using q by simp
  moreover have "target \<notin> set (fst (learn later ns cl2))"
    using learn_spec[OF prod.collapse[symmetric], of later ns cl2] b by simp
  ultimately show ?thesis using b(2) inv by (simp add: cluster_inv_def)
qed

theorem disconnect_no_echo_witness:
  "snd (loss_reporter [(50, BcOk 1)] \<lparr>roster = foldl cluster_apply
      (fst (disconnect_deliberately 10 1 (roster (mesh_node 0)) :: _ \<times> (nat, nat) link_op list)) [(20, CLearn [1, 2])],
      reports = partitions_new 0\<rparr>) = ([] :: (nat, nat) link_op list)"
proof -
  have "cluster_inv (roster (mesh_node 0))"
    by (auto simp: cluster_inv_def mesh_node_def learn_def is_quarantined_def cluster_new_def hs_insert_def)
  moreover have "\<forall>e \<in> set [(20, CLearn [1, 2])]. 10 \<le> fst e \<and> fst e < 10 + quarantine_ms"
    by (simp add: quarantine_ms_def)
  moreover have "(10 :: nat) \<le> 50" "50 < 10 + quarantine_ms" by (simp_all add: quarantine_ms_def)
  ultimately show ?thesis
    by (rule disconnect_no_echo[OF _ prod.collapse[symmetric] _ _ _ refl, THEN conjunct2, THEN conjunct1])
qed

end
