(* ===== verification/Nodes.thy ===== *)
theory Nodes
  imports Particles Partitions Global_Names
begin

text \<open>
  A node as a whole (\<^verbatim>\<open>src/protocol.rs\<close>, \<^verbatim>\<open>src/signals.rs\<close>, the joining operations of
  \<^verbatim>\<open>src/runtime/engine.rs\<close>): what it does with a request, with a message from a peer, with a
  particle's death and with the loss of a node.

  A node is its registry, its peer links, its roster and reports, and its name table. A table
  exchange that is begun in the background is an entry of \<open>nd_tasks\<close>; \<open>sync_with\<close> of
  \<open>Global_Names\<close> says what it does. \<open>ser\<close> is the message serialiser.
\<close>

record ('n, 'c, 'a) node_state =
  nd_registry :: "('n, 'c) registry"
  nd_peers :: "('n, 'a) peer_links"
  nd_part :: "'n partition_node"
  nd_global :: "'n global_names"
  nd_tasks :: "'n list"

abbreviation nd_cluster :: "('n, 'c, 'a) node_state \<Rightarrow> 'n cluster" where
  "nd_cluster nd \<equiv> roster (nd_part nd)"

definition set_cluster :: "'n cluster \<Rightarrow> ('n, 'c, 'a) node_state \<Rightarrow> ('n, 'c, 'a) node_state" where
  "set_cluster cl nd = nd\<lparr>nd_part := (nd_part nd)\<lparr>roster := cl\<rparr>\<rparr>"

definition do_links ::
  "('n, 'a) peer_message serializer \<Rightarrow> ('n, 'a) link_op list \<Rightarrow> ('n, 'c, 'a) node_state \<Rightarrow> ('n, 'c, 'a) node_state" where
  "do_links ser ops nd = nd\<lparr>nd_peers := foldl (link_apply ser) (nd_peers nd) ops\<rparr>"

definition on_registry ::
  "(('n, 'c) registry \<Rightarrow> ('n, 'c) registry) \<Rightarrow> ('n, 'c, 'a) node_state \<Rightarrow> ('n, 'c, 'a) node_state" where
  "on_registry f nd = nd\<lparr>nd_registry := f (nd_registry nd)\<rparr>"

section \<open>Announcing\<close>

fun announce_loop ::
  "('n, 'a) peer_message serializer \<Rightarrow> 'n list \<Rightarrow> 'n list \<Rightarrow> ('n, 'a) peer_links \<Rightarrow> ('n, 'a) peer_links" where
  "announce_loop ser known_nodes [] pl = pl"
| "announce_loop ser known_nodes (n # ns) pl =
     (let others = filter (\<lambda>m. m \<noteq> n) known_nodes;
          nodes = our_addr pl # addrs_for pl others
      in announce_loop ser known_nodes ns (snd (peer_send ser n (PAnnounce nodes) pl)))"

definition announce_to ::
  "('n, 'a) peer_message serializer \<Rightarrow> 'n list \<Rightarrow> ('n, 'c, 'a) node_state \<Rightarrow> ('n, 'c, 'a) node_state" where
  "announce_to ser ns nd =
     nd\<lparr>nd_peers := announce_loop ser (cl_nodes (nd_cluster nd)) ns (nd_peers nd)\<rparr>"

definition sync_with_all :: "'n list \<Rightarrow> ('n, 'c, 'a) node_state \<Rightarrow> ('n, 'c, 'a) node_state" where
  "sync_with_all ns nd = nd\<lparr>nd_tasks := nd_tasks nd @ ns\<rparr>"

text \<open>A connection comes in: connecting is joining.\<close>

definition accept_connection ::
  "('n, 'a) peer_message serializer \<Rightarrow> nat \<Rightarrow> 'n \<Rightarrow> ('n, 'c, 'a) node_state \<Rightarrow> ('n, 'c, 'a) node_state" where
  "accept_connection ser now remote nd =
     (let (fresh, cl) = learn now [remote] (nd_cluster nd); nd1 = set_cluster cl nd
      in if fresh = [] then nd1 else sync_with_all [remote] (announce_to ser [remote] nd1))"

definition join ::
  "('n, 'a) peer_message serializer \<Rightarrow> nat \<Rightarrow> 'n \<Rightarrow> ('n, 'c, 'a) node_state \<Rightarrow> ('n, 'c, 'a) node_state" where
  "join ser now peer nd =
     announce_to ser [peer] (set_cluster (snd (learn now [peer] (nd_cluster nd))) nd)"

definition join_at ::
  "('n, 'a) peer_message serializer \<Rightarrow> nat \<Rightarrow> ('n, 'a) endpoint_addr \<Rightarrow> ('n, 'c, 'a) node_state
     \<Rightarrow> ('n, 'c, 'a) node_state" where
  "join_at ser now peer nd =
     (let nd1 = do_links ser [LRemember peer] nd;
          nd2 = set_cluster (snd (learn now [addr_id peer] (nd_cluster nd1))) nd1
      in sync_with_all [addr_id peer] (announce_to ser [addr_id peer] nd2))"

definition has_particle :: "('n, 'c, 'a) node_state \<Rightarrow> string \<Rightarrow> bool" where
  "has_particle nd name \<longleftrightarrow> get_by_name (nd_registry nd) name \<noteq> None"

section \<open>Requests\<close>

text \<open>\<open>dbg\<close> renders a target for the error text.\<close>

definition send_error_text :: "send_error \<Rightarrow> string" where
  "send_error_text e = (case e of NoParticle \<Rightarrow> ''no particle'')"

definition handle_send ::
  "('n target \<Rightarrow> string) \<Rightarrow> 'n send_request \<Rightarrow> ('n, 'c) registry \<Rightarrow> send_response \<times> ('n, 'c) registry" where
  "handle_send dbg req reg =
     (case (case request_target req of TPid p \<Rightarrow> Some p | TName n \<Rightarrow> get_by_name reg n) of
        None \<Rightarrow> (Inl (''no particle found for target '' @ dbg (request_target req)), reg)
      | Some p \<Rightarrow>
          (case send_to_pid p (request_msg req) reg of
             (Inr (), reg1) \<Rightarrow> (Inr (), reg1)
           | (Inl e, reg1) \<Rightarrow> (Inl (send_error_text e), reg1)))"

definition dispatch_command ::
  "('c, 't) wasm \<Rightarrow> ('n target \<Rightarrow> string) \<Rightarrow> ('n :: linorder) command \<Rightarrow> ('n, 'c, 'a) node_state
     \<Rightarrow> 'n command_response \<times> ('n, 'c, 'a) node_state" where
  "dispatch_command w dbg cmd nd =
     (case cmd of
        CSend req \<Rightarrow>
          (let (r, reg) = handle_send dbg req (nd_registry nd) in (RSend r, nd\<lparr>nd_registry := reg\<rparr>))
      | CSpawn req \<Rightarrow>
          (let (r, reg) = handle_spawn w req (nd_registry nd) in (RSpawn r, nd\<lparr>nd_registry := reg\<rparr>))
      | CGlobal (GSync theirs) \<Rightarrow>
          (let (r, g, reg) = answer_sync theirs (nd_global nd, nd_registry nd)
           in (RGlobal r, nd\<lparr>nd_global := g, nd_registry := reg\<rparr>))
      | CGlobal req \<Rightarrow>
          (let (r, g) = global_apply req (nd_global nd) in (RGlobal r, nd\<lparr>nd_global := g\<rparr>)))"

text \<open>
  A request stream: the bytes of one command, at most a mebibyte of them, and the bytes of the
  answer. A command that cannot be decoded is answered with nothing.
\<close>

datatype stream_error = RequestTooLong | ResponseNotSerializable

definition handle_stream ::
  "('c, 't) wasm \<Rightarrow> ('n target \<Rightarrow> string) \<Rightarrow> 'n command deserializer \<Rightarrow> 'n command_response serializer \<Rightarrow> bytes
     \<Rightarrow> ('n :: linorder, 'c, 'a) node_state \<Rightarrow> (stream_error + bytes) \<times> ('n, 'c, 'a) node_state" where
  "handle_stream w dbg de ser request nd =
     (if 1048576 < length request then (Inl RequestTooLong, nd)
      else
        (case de request of
           None \<Rightarrow> (Inr [], nd)
         | Some cmd \<Rightarrow>
             (let (r, nd1) = dispatch_command w dbg cmd nd
              in case ser r of None \<Rightarrow> (Inl ResponseNotSerializable, nd1) | Some bs \<Rightarrow> (Inr bs, nd1))))"

section \<open>Messages of a peer\<close>

definition resolve_addressee :: "('n, 'c) registry \<Rightarrow> 'n addressee \<Rightarrow> 'n pid option" where
  "resolve_addressee reg a = (case a of APid p \<Rightarrow> Some p | AName n \<Rightarrow> get_by_name reg n)"

definition handle_announce ::
  "('n, 'a) peer_message serializer \<Rightarrow> nat \<Rightarrow> ('n, 'a) endpoint_addr list \<Rightarrow> ('n, 'c, 'a) node_state
     \<Rightarrow> ('n, 'c, 'a) node_state" where
  "handle_announce ser now nodes nd =
     (let nd1 = do_links ser (map LRemember nodes) nd;
          announced = map addr_id nodes;
          (learned, cl) = learn now announced (nd_cluster nd1);
          nd2 = set_cluster cl nd1;
          nd3 = (if learned = [] then nd2 else sync_with_all learned (announce_to ser learned nd2))
      in case announced of
           [] \<Rightarrow> nd3
         | sender # _ \<Rightarrow>
             if list_ex (\<lambda>n. n \<noteq> sender \<and> n \<notin> set announced) (cl_nodes (nd_cluster nd3))
             then announce_to ser [sender] nd3 else nd3)"

definition handle_peer_message ::
  "('n, 'a) peer_message serializer \<Rightarrow> nat \<Rightarrow> ('n, 'a) peer_message \<Rightarrow> ('n, 'c, 'a) node_state
     \<Rightarrow> ('n, 'c, 'a) node_state" where
  "handle_peer_message ser now msg nd =
     (case msg of
        PAnnounce nodes \<Rightarrow> handle_announce ser now nodes nd
      | PDeliver env \<Rightarrow>
          (case resolve_addressee (nd_registry nd) (env_target env) of
             None \<Rightarrow> nd
           | Some p \<Rightarrow>
               (case env_ref env of
                  Some r \<Rightarrow> on_registry (\<lambda>reg. snd (send_tagged_to_pid p r (env_payload env) reg)) nd
                | None \<Rightarrow> on_registry (\<lambda>reg. snd (send_to_pid p (env_payload env) reg)) nd))
      | PLink from to \<Rightarrow>
          (case resolve_addressee (nd_registry nd) to of
             Some t \<Rightarrow> on_registry (link_remote t from) nd
           | None \<Rightarrow> do_links ser [LSend (node from) (PExit from from NoProc)] nd)
      | PUnlink from to \<Rightarrow>
          (case resolve_addressee (nd_registry nd) to of
             Some t \<Rightarrow> on_registry (unlink_remote t from) nd | None \<Rightarrow> nd)
      | PMonitor watcher target r \<Rightarrow>
          (case resolve_addressee (nd_registry nd) target of
             Some t \<Rightarrow> on_registry (monitor_remote watcher t r) nd
           | None \<Rightarrow> do_links ser [LSend (node watcher) (PDown watcher watcher r NoProc)] nd)
      | PDemonitor watcher r \<Rightarrow> on_registry (demonitor watcher r) nd
      | PExit from to reason \<Rightarrow> on_registry (apply_inherited_exit to from reason) nd
      | PExitSignal from to reason \<Rightarrow>
          (case resolve_addressee (nd_registry nd) to of
             Some t \<Rightarrow> on_registry (apply_directed_exit t from reason) nd | None \<Rightarrow> nd)
      | PDown from to r reason \<Rightarrow> on_registry (deliver_down to from r reason) nd
      | PLostConnection reporter lost op_id \<Rightarrow>
          (let (part, ops) = on_lost_connection now reporter lost op_id (nd_part nd)
           in do_links ser ops (nd\<lparr>nd_part := part\<rparr>))
      | PRemoveConnection from \<Rightarrow>
          (let (part, ops) = on_remove_connection now from (nd_part nd)
           in do_links ser ops (nd\<lparr>nd_part := part\<rparr>)))"

text \<open>
  The messages of a link are handled one after the other, in the order of the stream; the
  \<open>i\<close>th of them when the clock reads \<open>clock i\<close>.
\<close>

fun handle_messages ::
  "('n, 'a) peer_message serializer \<Rightarrow> (nat \<Rightarrow> nat) \<Rightarrow> ('n, 'a) peer_message list
     \<Rightarrow> ('n, 'c, 'a) node_state \<Rightarrow> ('n, 'c, 'a) node_state" where
  "handle_messages ser clock [] nd = nd"
| "handle_messages ser clock (m # ms) nd =
     handle_messages ser (\<lambda>i. clock (Suc i)) ms (handle_peer_message ser (clock 0) m nd)"

definition handle_message_link ::
  "('n, 'a) peer_message serializer \<Rightarrow> ('n, 'a) peer_message deserializer \<Rightarrow> (nat \<Rightarrow> nat) \<Rightarrow> bytes
     \<Rightarrow> ('n, 'c, 'a) node_state \<Rightarrow> ('n, 'c, 'a) node_state \<times> frame_error option" where
  "handle_message_link ser de clock stream nd =
     (let (msgs, e) = read_link de stream in (handle_messages ser clock msgs nd, e))"

section \<open>Signals\<close>

definition signals_of_death :: "'n particle_death \<Rightarrow> ('n, 'a) link_op list" where
  "signals_of_death d =
     map (\<lambda>q. LSend (node q) (PExit (dead_pid d) q (dead_reason d))) (remote_links d)
     @ map (\<lambda>(watcher, r). LSend (node watcher) (PDown (dead_pid d) watcher r (dead_reason d))) (remote_monitors d)"

fun signal_forwarder ::
  "('n, 'a) peer_message serializer \<Rightarrow> 'n particle_death bc list \<Rightarrow> ('n, 'a) peer_links \<Rightarrow> ('n, 'a) peer_links" where
  "signal_forwarder ser [] pl = pl"
| "signal_forwarder ser (BcOk d # es) pl =
     signal_forwarder ser es (foldl (link_apply ser) pl (signals_of_death d))"
| "signal_forwarder ser (BcLagged # es) pl = signal_forwarder ser es pl"
| "signal_forwarder ser (BcClosed # es) pl = pl"

definition node_lost :: "'n \<Rightarrow> ('n, 'c) registry \<Rightarrow> ('n, 'c) registry" where
  "node_lost n reg =
     (let (ls, ms) = relationships_with_node n reg
      in if ls = [] \<and> ms = [] then reg
         else
           (let reg1 = foldl (\<lambda>r (local, remote). apply_inherited_exit local remote NoConnection r) reg ls;
                reg2 = foldl (\<lambda>r (watcher, target, ref_id). deliver_down watcher target ref_id NoConnection r) reg1 ms
            in forget_node n reg2))"

fun node_loss_reactor :: "'n bc list \<Rightarrow> ('n, 'c) registry \<Rightarrow> ('n, 'c) registry" where
  "node_loss_reactor [] reg = reg"
| "node_loss_reactor (BcOk n # es) reg = node_loss_reactor es (node_lost n reg)"
| "node_loss_reactor (BcLagged # es) reg = node_loss_reactor es reg"
| "node_loss_reactor (BcClosed # es) reg = reg"

section \<open>What the loss of a node does\<close>

text \<open>Exits only look at the particles' states, and only the live ones among the seeds count.\<close>

lemma reached_subset:
  assumes "particle_states reg' = particle_states reg"
    and "{p \<in> set ps. particle_exists reg p} \<subseteq> set ps'"
  shows "reached reg reason ps \<subseteq> reached reg' reason ps'"
proof
  fix x
  assume "x \<in> reached reg reason ps"
  then show "x \<in> reached reg' reason ps'"
  proof (induction rule: reached.induct)
    case (seed p)
    then show ?case
      using assms by (intro reached.seed) (auto simp: particle_exists_def)
  next
    case (linked p st q st')
    have "state_of reg' p = Some st" "state_of reg' q = Some st'"
      using linked.hyps(3,5) unfolding assms(1) .
    then show ?case using reached.linked[OF linked.IH linked.hyps(2)] linked.hyps(4,6) by blast
  qed
qed

lemma reached_cong:
  assumes "particle_states reg' = particle_states reg"
    and "{p \<in> set ps. particle_exists reg p} = {p \<in> set ps'. particle_exists reg p}"
  shows "reached reg reason ps = reached reg' reason ps'"
proof
  show "reached reg reason ps \<subseteq> reached reg' reason ps'"
    by (rule reached_subset[OF assms(1)]) (use assms(2) in blast)
  show "reached reg' reason ps' \<subseteq> reached reg reason ps"
    by (rule reached_subset) (use assms in \<open>auto simp: particle_exists_def\<close>)
qed

lemma reached_append:
  assumes "particle_exists reg q"
  shows "q \<in> reached reg reason (ps @ qs)
     \<longleftrightarrow> q \<in> reached reg reason ps \<or> q \<in> reached (exit_work ps reason reg) reason qs"
  using assms exit_work_alive[of "ps @ qs" reason reg q] exit_work_alive[of ps reason reg q]
    exit_work_alive[of qs reason "exit_work ps reason reg" q]
  by (auto simp: exit_work_append)

lemma deliver_states [simp]:
  "particle_states (deliver_exit to from reason reg) = particle_states reg"
  "particle_states (deliver_down to from r reason reg) = particle_states reg"
  by (simp_all add: deliver_exit_def deliver_down_def send_system_def update_box_def split: option.splits)

text \<open>The particles that the loss of their peers kills, out of a list of crossing links.\<close>

definition doomed :: "('n, 'c) registry \<Rightarrow> ('n pid \<times> 'n pid) list \<Rightarrow> 'n pid list" where
  "doomed reg ls =
     map fst (filter (\<lambda>(p, _). \<exists>st. state_of reg p = Some st \<and> \<not> trap_exit st) ls)"

abbreviation noconnection_exits ::
  "('n pid \<times> 'n pid) list \<Rightarrow> ('n, 'c) registry \<Rightarrow> ('n, 'c) registry" where
  "noconnection_exits ls reg \<equiv>
     foldl (\<lambda>r (local, remote). apply_inherited_exit local remote NoConnection r) reg ls"

lemma is_abnormal_noconnection [simp]: "is_abnormal NoConnection"
  by (simp add: is_abnormal_def)

lemma exit_keeps_trap:
  assumes "state_of reg w = Some u" and "reg_ok reg" and "w \<notin> reached reg reason [p]"
  obtains u' where "state_of (exit_particle p reason reg) w = Some u'" and "trap_exit u' = trap_exit u"
    and "mailbox_at u' = mailbox_at u"
proof -
  from exit_particle_cascade[OF assms(2)] obtain vs where vs: "set vs = reached reg reason [p]"
    "cascade reg reason vs (exit_particle p reason reg)"
    by metis
  with assms(1,3) that show ?thesis unfolding cascade_def by metis
qed

lemma noconnection_alive:
  "reg_inv reg \<Longrightarrow>
   particle_exists (noconnection_exits ls reg) q \<longleftrightarrow>
     particle_exists reg q \<and> q \<notin> reached reg NoConnection (doomed reg ls)"
proof (induction ls arbitrary: reg)
  case Nil
  then show ?case by (simp add: doomed_def reached_Nil)
next
  case (Cons l ls)
  obtain p r where l: "l = (p, r)" by fastforce
  let ?reg1 = "apply_inherited_exit p r NoConnection reg"
  have IH: "particle_exists (noconnection_exits ls ?reg1) q \<longleftrightarrow>
      particle_exists ?reg1 q \<and> q \<notin> reached ?reg1 NoConnection (doomed ?reg1 ls)"
    by (rule Cons.IH[OF reg_inv_inherited[OF Cons.prems]])
  show ?case
  proof (cases "\<exists>st. state_of reg p = Some st \<and> \<not> trap_exit st")
    case False
    then have st: "particle_states ?reg1 = particle_states reg"
      by (auto simp: apply_inherited_exit_def split: option.splits)
    then have "doomed ?reg1 ls = doomed reg ls" by (simp add: doomed_def)
    moreover have "doomed reg (l # ls) = doomed reg ls" using False l by (auto simp: doomed_def)
    moreover have "reached reg NoConnection (doomed reg ls) = reached ?reg1 NoConnection (doomed reg ls)"
      by (rule reached_cong[OF st refl])
    ultimately show ?thesis using IH st l by (simp add: particle_exists_def)
  next
    case True
    then have reg1: "?reg1 = exit_particle p NoConnection reg"
      by (auto simp: apply_inherited_exit_def)
    have d: "doomed reg (l # ls) = [p] @ doomed reg ls" using True l by (simp add: doomed_def)
    have "{x \<in> set (doomed ?reg1 ls). particle_exists ?reg1 x} = {x \<in> set (doomed reg ls). particle_exists ?reg1 x}"
    proof -
      have "(\<exists>u. state_of ?reg1 x = Some u \<and> \<not> trap_exit u) \<longleftrightarrow> (\<exists>u. state_of reg x = Some u \<and> \<not> trap_exit u)"
        if "particle_exists ?reg1 x" for x
      proof -
        have "particle_exists reg x" "x \<notin> reached reg NoConnection [p]"
          using that unfolding reg1 exit_particle_alive by auto
        then obtain u where u: "state_of reg x = Some u" by (auto simp: particle_exists_iff)
        obtain u' where "state_of ?reg1 x = Some u'" "trap_exit u' = trap_exit u"
          using exit_keeps_trap[OF u reg_inv_ok[OF Cons.prems] \<open>x \<notin> _\<close>] unfolding reg1 by metis
        with u show ?thesis by simp
      qed
      then show ?thesis unfolding doomed_def by (auto simp: image_iff split: prod.splits)
    qed
    then have "reached ?reg1 NoConnection (doomed ?reg1 ls) = reached ?reg1 NoConnection (doomed reg ls)"
      by (rule reached_cong[OF refl])
    then have "particle_exists (noconnection_exits ls ?reg1) q \<longleftrightarrow>
        particle_exists ?reg1 q \<and> q \<notin> reached ?reg1 NoConnection (doomed reg ls)"
      using IH by simp
    also have "\<dots> \<longleftrightarrow> particle_exists reg q \<and> q \<notin> reached reg NoConnection [p]
        \<and> q \<notin> reached (exit_work [p] NoConnection reg) NoConnection (doomed reg ls)"
      unfolding reg1 exit_particle_alive by (simp add: exit_particle_def)
    also have "\<dots> \<longleftrightarrow> particle_exists reg q \<and> q \<notin> reached reg NoConnection (doomed reg (l # ls))"
      using reached_append[of reg q NoConnection "[p]" "doomed reg ls"] unfolding d by blast
    finally show ?thesis unfolding l by simp
  qed
qed

text \<open>The signals that speak of a particle of a node.\<close>

definition about :: "'n \<Rightarrow> 'n mailbox_message \<Rightarrow> bool" where
  "about n m = (case m of MExit q _ \<Rightarrow> node q = n | MDown q _ _ \<Rightarrow> node q = n | _ \<Rightarrow> False)"

lemma about_simps [simp]:
  "about n (MExit q r) = (node q = n)" "about n (MDown q i r) = (node q = n)"
  by (simp_all add: about_def)

lemma exit_work_me: "pid_generator (exit_work ps reason reg) = pid_generator reg"
proof (induction ps reason reg rule: exit_work.induct)
  case (2 p ps reason reg)
  show ?case
  proof (cases "state_of reg p")
    case None
    with 2 show ?thesis by simp
  next
    case (Some st)
    obtain reg1 kills where d: "die p reason st reg = (reg1, kills)" by fastforce
    from "2.IH"(2)[OF Some d[symmetric]] Some d die_spec(6)[OF d] show ?thesis by simp
  qed
qed simp

lemma inherited_me: "pid_generator (apply_inherited_exit p r reason reg) = pid_generator reg"
proof -
  have "pid_generator (exit_particle p reason reg) = pid_generator reg"
    unfolding exit_particle_def by (rule exit_work_me)
  then show ?thesis
    by (simp add: apply_inherited_exit_def deliver_exit_def send_system_def update_box_def
        split: option.splits)
qed

text \<open>What one particle hears of a node, after one exit with \<^verbatim>\<open>noconnection\<close> and after all of them.\<close>

definition hears ::
  "'n \<Rightarrow> ('n, 'c) registry \<Rightarrow> ('n, 'c) registry \<Rightarrow> 'n pid \<Rightarrow> 'n particle_state
     \<Rightarrow> 'n mailbox_message list \<Rightarrow> bool" where
  "hears n reg reg' w u news \<longleftrightarrow>
     (\<exists>u'. state_of reg' w = Some u' \<and> trap_exit u' = trap_exit u \<and> mailbox_at u' = mailbox_at u) \<and>
     filter (about n) (queue (boxes reg' (mailbox_at u))) =
       rev news @ filter (about n) (queue (boxes reg (mailbox_at u)))"

lemma hears_exit:
  assumes ok: "reg_ok reg" and far: "n \<noteq> me reg" and w: "state_of reg w = Some u"
    and alive: "w \<notin> reached reg reason [p]"
  shows "hears n reg (exit_particle p reason reg) w u []"
proof -
  from exit_particle_cascade[OF ok] obtain vs where vs: "set vs = reached reg reason [p]"
    "cascade reg reason vs (exit_particle p reason reg)"
    by metis
  have "node v = me reg" if "v \<in> set vs" for v
    using that vs(1) reached_exists reg_ok_local[OF ok] by blast
  then have "filter (about n) (told reg reason vs w u) = []"
    using far by (auto simp: told_def signals_for_def filter_empty_conv)
  with vs(2) w alive vs(1) show ?thesis unfolding cascade_def hears_def by auto
qed

lemma hears_deliver:
  assumes ok: "reg_ok reg" and w: "state_of reg w = Some u" and q: "node q = n"
  shows "hears n reg (deliver_exit p q reason reg) w u (if p = w then [MExit q reason] else [])"
    and "hears n reg (deliver_down p q r reason reg) w u (if p = w then [MDown q r reason] else [])"
proof -
  have other: "mailbox_at u \<noteq> mailbox_at st" if "state_of reg p = Some st" "p \<noteq> w" for st
    using that w ok unfolding reg_ok_def by metis
  show "hears n reg (deliver_exit p q reason reg) w u (if p = w then [MExit q reason] else [])"
    using w q other by (cases "state_of reg p")
      (auto simp: hears_def deliver_exit_def send_system_def update_box_def push_system_def system_to_mailbox_def)
  show "hears n reg (deliver_down p q r reason reg) w u (if p = w then [MDown q r reason] else [])"
    using w q other by (cases "state_of reg p")
      (auto simp: hears_def deliver_down_def send_system_def update_box_def push_system_def system_to_mailbox_def)
qed

lemma hears_trans:
  assumes "hears n reg reg1 w u a" and "state_of reg1 w = Some u1" and "hears n reg1 reg2 w u1 b"
  shows "hears n reg reg2 w u (a @ b)"
  using assms unfolding hears_def by auto

lemma hears_inherited:
  assumes inv: "reg_inv reg" and far: "n \<noteq> me reg" and w: "state_of reg w = Some u" and q: "node q = n"
    and alive: "particle_exists (apply_inherited_exit p q reason reg) w"
  shows "hears n reg (apply_inherited_exit p q reason reg) w u
    (if p = w \<and> trap_exit u then [MExit q reason] else [])"
proof -
  note ok = reg_inv_ok[OF inv]
  have same: "hears n reg reg w u []" using w by (simp add: hears_def)
  show ?thesis
  proof (cases "state_of reg p")
    case None
    with same w show ?thesis by (auto simp: apply_inherited_exit_def)
  next
    case (Some st)
    consider "trap_exit st" | "\<not> trap_exit st" "is_abnormal reason" | "\<not> trap_exit st" "\<not> is_abnormal reason"
      by blast
    then show ?thesis
    proof cases
      case 1
      have "trap_exit u" if "p = w" using that 1 Some w by simp
      with 1 Some hears_deliver(1)[OF ok w q, of p reason] show ?thesis
        by (auto simp: apply_inherited_exit_def split: if_splits)
    next
      case 2
      then have e: "apply_inherited_exit p q reason reg = exit_particle p reason reg"
        using Some by (simp add: apply_inherited_exit_def)
      have "w \<notin> reached reg reason [p]" using alive unfolding e exit_particle_alive by blast
      from hears_exit[OF ok far w this] Some w 2 show ?thesis unfolding e by auto
    qed (use Some same w in \<open>auto simp: apply_inherited_exit_def\<close>)
  qed
qed

lemma noconnection_shrinks:
  assumes "reg_inv reg" and "particle_exists (noconnection_exits ls reg) w"
  shows "particle_exists reg w"
  using assms noconnection_alive by blast

lemma noconnection_hears:
  "reg_inv reg \<Longrightarrow> n \<noteq> me reg \<Longrightarrow> \<forall>(p, q) \<in> set ls. node q = n \<Longrightarrow> state_of reg w = Some u \<Longrightarrow>
   particle_exists (noconnection_exits ls reg) w \<Longrightarrow>
   hears n reg (noconnection_exits ls reg) w u
     (map (\<lambda>(_, q). MExit q NoConnection) (filter (\<lambda>(p, _). p = w \<and> trap_exit u) ls))"
proof (induction ls arbitrary: reg u)
  case Nil
  then show ?case by (simp add: hears_def)
next
  case (Cons l ls)
  obtain p q where l: "l = (p, q)" by fastforce
  let ?reg1 = "apply_inherited_exit p q NoConnection reg"
  have inv1: "reg_inv ?reg1" by (rule reg_inv_inherited[OF Cons.prems(1)])
  have q: "node q = n" using Cons.prems(3) l by simp
  have run: "noconnection_exits (l # ls) reg = noconnection_exits ls ?reg1" by (simp add: l)
  have alive: "particle_exists ?reg1 w"
    by (rule noconnection_shrinks[OF inv1]) (use Cons.prems(5) run in simp)
  have h: "hears n reg ?reg1 w u (if p = w \<and> trap_exit u then [MExit q NoConnection] else [])"
    by (rule hears_inherited[OF Cons.prems(1,2,4) q alive])
  then obtain u1 where u1: "state_of ?reg1 w = Some u1" "trap_exit u1 = trap_exit u"
    by (auto simp: hears_def)
  have "hears n ?reg1 (noconnection_exits ls ?reg1) w u1
      (map (\<lambda>(_, q). MExit q NoConnection) (filter (\<lambda>(p, _). p = w \<and> trap_exit u1) ls))"
  proof (rule Cons.IH[OF inv1 _ _ u1(1)])
    show "n \<noteq> me ?reg1" unfolding inherited_me by (rule Cons.prems(2))
    show "\<forall>(p, q) \<in> set ls. node q = n" using Cons.prems(3) by simp
    show "particle_exists (noconnection_exits ls ?reg1) w" using Cons.prems(5) unfolding run .
  qed
  from hears_trans[OF h u1(1) this] u1(2) show ?case unfolding run l by (auto split: if_splits)
qed

abbreviation noconnection_downs ::
  "('n pid \<times> 'n pid \<times> u64) list \<Rightarrow> ('n, 'c) registry \<Rightarrow> ('n, 'c) registry" where
  "noconnection_downs ms reg \<equiv>
     foldl (\<lambda>r (watcher, target, ref_id). deliver_down watcher target ref_id NoConnection r) reg ms"

lemma reg_inv_down: "reg_inv reg \<Longrightarrow> reg_inv (deliver_down p q r reason reg)"
  unfolding deliver_down_def by (rule reg_inv_send_system)

lemma noconnection_downs_hears:
  "reg_inv reg \<Longrightarrow> \<forall>(_, t, _) \<in> set ms. node t = n \<Longrightarrow> state_of reg w = Some u \<Longrightarrow>
   reg_inv (noconnection_downs ms reg)
   \<and> particle_states (noconnection_downs ms reg) = particle_states reg
   \<and> hears n reg (noconnection_downs ms reg) w u
       (map (\<lambda>(_, t, r). MDown t r NoConnection) (filter (\<lambda>(p, _). p = w) ms))"
proof (induction ms arbitrary: reg)
  case Nil
  then show ?case by (simp add: hears_def)
next
  case (Cons m ms)
  obtain p t r where m: "m = (p, t, r)" by (cases m)
  let ?reg1 = "deliver_down p t r NoConnection reg"
  have t: "node t = n" using Cons.prems(2) m by simp
  have u1: "state_of ?reg1 w = Some u" using Cons.prems(3) by simp
  have "\<forall>(_, t, _) \<in> set ms. node t = n" using Cons.prems(2) by simp
  note IH = Cons.IH[OF reg_inv_down[OF Cons.prems(1)] this u1]
  have "hears n reg ?reg1 w u (if p = w then [MDown t r NoConnection] else [])"
    by (rule hears_deliver(2)[OF reg_inv_ok[OF Cons.prems(1)] Cons.prems(3) t])
  from hears_trans[OF this u1] IH show ?case unfolding m by (auto split: if_splits)
qed

lemma crossing_of:
  assumes "hm_wf sts" and "hm_get sts w = Some u"
  shows "filter (\<lambda>(p, _). p = w) (concat (map (\<lambda>(p, st). map (\<lambda>x. (p, g x)) (f st)) sts))
    = map (\<lambda>x. (w, g x)) (f u)"
  using assms
proof (induction sts)
  case (Cons e sts)
  obtain p st where e: "e = (p, st)" by fastforce
  have wf: "hm_wf sts" "hm_get sts p = None"
    using Cons.prems(1) e by (auto simp: hm_wf_def hm_get_def map_of_eq_None_iff)
  have none: "filter (\<lambda>(p, _). p = v) (concat (map (\<lambda>(p, st). map (\<lambda>x. (p, g x)) (f st)) sts)) = []"
    if "hm_get sts v = None" for v
  proof -
    have "\<forall>e \<in> set sts. fst e \<noteq> v" using that by (auto simp: hm_get_def map_of_eq_None_iff)
    then show ?thesis by (fastforce simp: filter_empty_conv)
  qed
  show ?case
  proof (cases "p = w")
    case True
    with Cons.prems e none[of w] wf show ?thesis by (simp add: filter_True)
  next
    case False
    then have "filter (\<lambda>(p, _). p = w) (map (\<lambda>x. (p, g x)) (f st)) = []"
      by (auto simp: filter_empty_conv)
    with False Cons e wf show ?thesis by simp
  qed
qed simp

text \<open>Nothing of a particle's state refers to a node.\<close>

definition forgotten :: "'n \<Rightarrow> 'n particle_state \<Rightarrow> bool" where
  "forgotten n st \<longleftrightarrow> (\<forall>q \<in> set (links st). node q \<noteq> n) \<and> (\<forall>(_, t) \<in> set (monitors st). node t \<noteq> n)"

lemma no_relationships_iff:
  assumes "hm_wf (particle_states reg)"
  shows "relationships_with_node n reg = ([], []) \<longleftrightarrow> (\<forall>w u. state_of reg w = Some u \<longrightarrow> forgotten n u)"
  using hm_in_set_iff[OF assms]
  by (fastforce simp: relationships_with_node_def forgotten_def is_local_to_def filter_empty_conv)

lemma hears_forget:
  assumes "hears n reg reg' w u news"
  shows "hears n reg (forget_node n reg') w u news"
  using assms by (auto simp: hears_def forget_node_def forget_node_state_def)

lemma forgotten_forget: "state_of (forget_node n reg) w = Some u \<Longrightarrow> forgotten n u"
  by (auto simp: forget_node_def forget_node_state_def forgotten_def is_local_to_def hm_retain_def)

text \<open>What a particle hears when the node \<open>n\<close> is lost: its links first, then its monitors.\<close>

definition loss_news :: "'n \<Rightarrow> 'n particle_state \<Rightarrow> 'n mailbox_message list" where
  "loss_news n u =
     (if trap_exit u then map (\<lambda>q. MExit q NoConnection) (filter (\<lambda>q. node q = n) (links u)) else [])
     @ map (\<lambda>(r, t). MDown t r NoConnection) (filter (\<lambda>(_, t). node t = n) (monitors u))"

lemma relationships_of:
  assumes "hm_wf (particle_states reg)" and "state_of reg w = Some u"
    and "relationships_with_node n reg = (ls, ms)"
  shows "map (\<lambda>(_, q). MExit q NoConnection) (filter (\<lambda>(p, _). p = w \<and> trap_exit u) ls)
      @ map (\<lambda>(_, t, r). MDown t r NoConnection) (filter (\<lambda>(p, _). p = w) ms) = loss_news n u"
    and "\<forall>(_, q) \<in> set ls. node q = n" and "\<forall>(_, t, _) \<in> set ms. node t = n"
proof -
  note c = assms(3)[unfolded relationships_with_node_def, THEN sym, simplified prod.inject]
  have "filter (\<lambda>(p, _). p = w) ls = map (Pair w) (filter (\<lambda>q. is_local_to q n) (links u))"
    using crossing_of[OF assms(1,2), of "\<lambda>q. q" "\<lambda>st. filter (\<lambda>q. is_local_to q n) (links st)"] c by simp
  moreover have "filter (\<lambda>(p, _). p = w) ms
      = map (\<lambda>(r, t). (w, t, r)) (filter (\<lambda>(_, t). is_local_to t n) (monitors u))"
    using crossing_of[OF assms(1,2), of "\<lambda>(r, t). (t, r)" "\<lambda>st. filter (\<lambda>(_, t). is_local_to t n) (monitors st)"] c
    by (simp add: case_prod_unfold)
  ultimately show "map (\<lambda>(_, q). MExit q NoConnection) (filter (\<lambda>(p, _). p = w \<and> trap_exit u) ls)
      @ map (\<lambda>(_, t, r). MDown t r NoConnection) (filter (\<lambda>(p, _). p = w) ms) = loss_news n u"
    by (cases "trap_exit u") (simp_all add: loss_news_def is_local_to_def case_prod_unfold comp_def)
  show "\<forall>(_, q) \<in> set ls. node q = n" "\<forall>(_, t, _) \<in> set ms. node t = n"
    using c by (auto simp: is_local_to_def)
qed

lemma downs_alive: "particle_exists (noconnection_downs ms reg) q = particle_exists reg q"
proof -
  have "particle_states (noconnection_downs ms reg) = particle_states reg"
    by (induction ms arbitrary: reg) auto
  then show ?thesis by (simp add: particle_exists_def)
qed

lemma forget_alive: "particle_exists (forget_node n reg) q = particle_exists reg q"
  by (simp add: particle_exists_iff forget_node_def)

lemma reg_inv_exits: "reg_inv reg \<Longrightarrow> reg_inv (noconnection_exits ls reg)"
  by (induction ls arbitrary: reg) (auto intro: reg_inv_inherited)

lemma reg_inv_downs: "reg_inv reg \<Longrightarrow> reg_inv (noconnection_downs ms reg)"
  by (induction ms arbitrary: reg) (auto intro: reg_inv_down)

lemma loss_heard:
  assumes inv: "reg_inv reg" and "n \<noteq> me reg" and rel: "relationships_with_node n reg = (ls, ms)"
    and w: "state_of reg w = Some u" and alive: "particle_exists (noconnection_exits ls reg) w"
  shows "hears n reg (forget_node n (noconnection_downs ms (noconnection_exits ls reg))) w u (loss_news n u)"
proof -
  let ?reg1 = "noconnection_exits ls reg"
  have wf: "hm_wf (particle_states reg)" using inv by (simp add: reg_inv_def)
  note rels = relationships_of[OF wf w rel]
  have h1: "hears n reg ?reg1 w u (map (\<lambda>(_, q). MExit q NoConnection) (filter (\<lambda>(p, _). p = w \<and> trap_exit u) ls))"
    by (rule noconnection_hears[OF inv assms(2) rels(2) w alive])
  then obtain u1 where u1: "state_of ?reg1 w = Some u1" by (auto simp: hears_def)
  have "hears n ?reg1 (noconnection_downs ms ?reg1) w u1
      (map (\<lambda>(_, t, r). MDown t r NoConnection) (filter (\<lambda>(p, _). p = w) ms))"
    using noconnection_downs_hears[OF reg_inv_exits[OF inv] rels(3) u1] by blast
  from hears_trans[OF h1 u1 this] show ?thesis unfolding rels(1) by (rule hears_forget)
qed

lemma nothing_lost:
  assumes "hm_wf (particle_states reg)" and "relationships_with_node n reg = ([], [])"
    and "state_of reg w = Some u"
  shows "forgotten n u" and "hears n reg reg w u (loss_news n u)"
proof -
  show f: "forgotten n u" using no_relationships_iff[OF assms(1), of n] assms(2,3) by blast
  then have "loss_news n u = []" by (auto simp: loss_news_def forgotten_def filter_empty_conv)
  then show "hears n reg reg w u (loss_news n u)" using assms(3) by (simp add: hears_def)
qed


text \<open>The demonstration node with one more link to node 9, of the particle that traps exits.\<close>

definition demo9 :: "(nat, unit) registry" where
  "demo9 = link_remote (Pid 0 3) (Pid 9 8) demo"

lemma demo9_reachable: "reg_reachable demo9"
proof -
  have "me demo = 0" by code_simp
  then show ?thesis unfolding demo9_def by (intro rr_step[OF demo_reachable] st_link_remote) simp
qed


section \<open>A death that crosses\<close>

definition messages_for ::
  "('n, 'a) peer_message serializer \<Rightarrow> 'n \<Rightarrow> ('n, 'a) link_op list \<Rightarrow> ('n, 'a) peer_message list" where
  "messages_for ser n ops =
     List.map_filter (\<lambda>op. case op of
         LSend m msg \<Rightarrow> if m = n then (case encode_frame ser msg of Inr _ \<Rightarrow> Some msg | Inl _ \<Rightarrow> None) else None
       | _ \<Rightarrow> None) ops"

lemma messages_for_simps [simp]:
  "messages_for ser n [] = []"
  "messages_for ser n (op # ops) =
     (case op of
        LSend m msg \<Rightarrow> if m = n then (case encode_frame ser msg of Inr f \<Rightarrow> [msg] | Inl _ \<Rightarrow> []) else []
      | _ \<Rightarrow> []) @ messages_for ser n ops"
  by (auto simp: messages_for_def List.map_filter_def split: link_op.splits sum.splits)

lemma encode_messages_for: "encode_all ser (messages_for ser n ops) = Some (concat (frames_for ser n ops))"
  by (induction ops) (auto split: link_op.splits sum.splits)

lemma set_messages_for:
  assumes "LSend n msg \<in> set ops" and "encode_frame ser msg = Inr f"
  shows "msg \<in> set (messages_for ser n ops)"
  using assms(1)
proof (induction ops)
  case (Cons op ops)
  show ?case
  proof (cases "op = LSend n msg")
    case True
    show ?thesis unfolding True messages_for_simps(2) using assms(2) by simp
  next
    case False
    then have "msg \<in> set (messages_for ser n ops)" using Cons.IH set_ConsD[OF Cons.prems] by blast
    then show ?thesis unfolding messages_for_simps(2) set_append by blast
  qed
qed simp

lemma messages_for_sent: "msg \<in> set (messages_for ser n ops) \<Longrightarrow> \<exists>m. LSend m msg \<in> set ops"
proof (induction ops)
  case (Cons op ops)
  show ?case
  proof (cases "msg \<in> set (messages_for ser n ops)")
    case False
    then have in_op: "msg \<in> set (case op of
        LSend m x \<Rightarrow> if m = n then (case encode_frame ser x of Inr f \<Rightarrow> [x] | Inl _ \<Rightarrow> []) else [] | _ \<Rightarrow> [])"
      using Cons.prems unfolding messages_for_simps(2) set_append by blast
    then have "op = LSend n msg"
    proof (cases op)
      case (LSend m x)
      with in_op show ?thesis
        unfolding LSend link_op.case by (cases "encode_frame ser x"; cases "m = n") simp_all
    qed (use in_op in \<open>simp_all only: link_op.case list.set empty_iff\<close>)
    then show ?thesis by (metis list.set_intros(1))
  next
    case True
    from Cons.IH[OF True] show ?thesis by (meson list.set_intros(2))
  qed
qed simp

lemma signal_forwarder_ops:
  "signal_forwarder ser (map BcOk ds) pl = foldl (link_apply ser) pl (concat (map signals_of_death ds))"
  by (induction ds arbitrary: pl) simp_all

definition is_signal :: "('n, 'a) peer_message \<Rightarrow> bool" where
  "is_signal m = (case m of PExit _ _ _ \<Rightarrow> True | PDown _ _ _ _ \<Rightarrow> True | _ \<Rightarrow> False)"

lemma signals_of_death_only: "op \<in> set (signals_of_death d) \<Longrightarrow> \<exists>n m. op = LSend n m \<and> is_signal m"
  unfolding signals_of_death_def is_signal_def by fastforce

text \<open>What holds of a particle once a signal has been applied, and stays so under further signals.\<close>

definition struck :: "'n pid \<Rightarrow> exit_reason \<Rightarrow> 'n pid \<Rightarrow> bool \<Rightarrow> ('n, 'c) registry \<Rightarrow> bool" where
  "struck p reason q traps reg \<longleftrightarrow>
     (if traps then \<exists>u. state_of reg q = Some u \<and> trap_exit u \<and> MExit p reason \<in> set (queue (boxes reg (mailbox_at u)))
      else is_abnormal reason \<longrightarrow> \<not> particle_exists reg q)"

text \<open>A registry after one that only heard signals: who survives kept its place, and its queue grew in front.\<close>

definition grew :: "('n, 'c) registry \<Rightarrow> ('n, 'c) registry \<Rightarrow> bool" where
  "grew reg reg' \<longleftrightarrow> reg_inv reg' \<and>
     (\<forall>q. particle_exists reg' q \<longrightarrow> particle_exists reg q) \<and>
     (\<forall>q u. state_of reg q = Some u \<longrightarrow> particle_exists reg' q \<or> trap_exit u \<longrightarrow>
        (\<exists>u' news. state_of reg' q = Some u' \<and> trap_exit u' = trap_exit u \<and> mailbox_at u' = mailbox_at u
           \<and> queue (boxes reg' (mailbox_at u)) = news @ queue (boxes reg (mailbox_at u))))"

lemma grew_refl: "reg_inv reg \<Longrightarrow> grew reg reg"
  unfolding grew_def by auto

lemma grew_inv: "grew reg reg' \<Longrightarrow> reg_inv reg'"
  by (simp add: grew_def)

lemma grew_keeps:
  assumes "grew reg reg'" and "state_of reg q = Some u" and "particle_exists reg' q \<or> trap_exit u"
  obtains u' where "state_of reg' q = Some u'" and "trap_exit u' = trap_exit u"
proof -
  have "\<exists>u'. state_of reg' q = Some u' \<and> trap_exit u' = trap_exit u"
    using assms unfolding grew_def by blast
  with that show ?thesis by blast
qed

lemma reached_seed_or_plain:
  "q \<in> reached reg reason ps \<Longrightarrow> q \<in> set ps \<or> (\<exists>u. state_of reg q = Some u \<and> \<not> trap_exit u)"
  by (induction rule: reached.induct) auto

lemma grew_exit:
  assumes inv: "reg_inv reg" and p: "state_of reg p = Some st" "\<not> trap_exit st"
  shows "grew reg (exit_particle p reason reg)"
proof -
  from exit_particle_cascade[OF reg_inv_ok[OF inv]] obtain vs where vs: "set vs = reached reg reason [p]"
    "cascade reg reason vs (exit_particle p reason reg)"
    by metis
  have safe: "q \<notin> set vs" if "state_of reg q = Some u" "particle_exists (exit_particle p reason reg) q \<or> trap_exit u" for q u
    using that p reached_seed_or_plain[of q reg reason "[p]"] unfolding exit_particle_alive vs(1) by auto
  have "\<exists>u' news. state_of (exit_particle p reason reg) q = Some u' \<and> trap_exit u' = trap_exit u
      \<and> mailbox_at u' = mailbox_at u
      \<and> queue (boxes (exit_particle p reason reg) (mailbox_at u)) = news @ queue (boxes reg (mailbox_at u))"
    if q: "state_of reg q = Some u" "particle_exists (exit_particle p reason reg) q \<or> trap_exit u" for q u
    using vs(2)[unfolded cascade_def] q(1) safe[OF q] by blast
  then show ?thesis
    using reg_inv_exit[OF inv] unfolding grew_def exit_particle_alive by blast
qed

lemma grew_system:
  assumes inv: "reg_inv reg"
  shows "grew reg (snd (send_system to msg reg))"
proof -
  have "\<exists>u' news. state_of (snd (send_system to msg reg)) q = Some u' \<and> trap_exit u' = trap_exit u
      \<and> mailbox_at u' = mailbox_at u
      \<and> queue (boxes (snd (send_system to msg reg)) (mailbox_at u)) = news @ queue (boxes reg (mailbox_at u))"
    if "state_of reg q = Some u" for q u
    using that by (cases "state_of reg to") (auto simp: send_system_def update_box_def push_system_def system_to_mailbox_def)
  moreover have "particle_states (snd (send_system to msg reg)) = particle_states reg"
    by (simp add: send_system_def update_box_def split: option.splits)
  ultimately show ?thesis
    using reg_inv_send_system[OF inv] unfolding grew_def by (simp add: particle_exists_def)
qed

lemma grew_inherited: "reg_inv reg \<Longrightarrow> grew reg (apply_inherited_exit p q reason reg)"
  unfolding apply_inherited_exit_def deliver_exit_def
  by (auto simp: grew_refl grew_exit grew_system split: option.splits)

lemma grew_settled:
  assumes "grew reg reg'" and "struck p reason q traps reg"
  shows "struck p reason q traps reg'"
proof (cases traps)
  case False
  with assms show ?thesis unfolding struck_def grew_def by auto
next
  case True
  then obtain u where u: "state_of reg q = Some u" "trap_exit u"
    "MExit p reason \<in> set (queue (boxes reg (mailbox_at u)))"
    using assms(2) by (auto simp: struck_def)
  with assms(1) obtain u' news where "state_of reg' q = Some u'" "trap_exit u' = trap_exit u"
    "mailbox_at u' = mailbox_at u"
    "queue (boxes reg' (mailbox_at u)) = news @ queue (boxes reg (mailbox_at u))"
    unfolding grew_def by blast
  with u True show ?thesis by (simp add: struck_def)
qed

lemma inherited_settles:
  assumes inv: "reg_inv reg" and q: "state_of reg q = Some u"
  shows "struck p reason q (trap_exit u) (apply_inherited_exit q p reason reg)"
proof (cases "trap_exit u")
  case True
  with q show ?thesis
    by (auto simp: struck_def apply_inherited_exit_def deliver_exit_def send_system_def update_box_def
        push_system_def system_to_mailbox_def)
next
  case False
  have "q \<in> reached reg reason [q]"
    using q by (intro reached.seed) (auto simp: particle_exists_iff)
  with False q show ?thesis
    by (simp add: struck_def apply_inherited_exit_def exit_particle_alive del: is_abnormal_iff)
qed

lemma signal_grew:
  assumes "is_signal m" and "reg_inv (nd_registry nd)"
  shows "grew (nd_registry nd) (nd_registry (handle_peer_message ser now m nd))"
  using assms by (cases m)
    (auto simp: is_signal_def handle_peer_message_def on_registry_def deliver_down_def grew_inherited grew_system)

lemma signals_settled:
  "\<forall>m \<in> set ms. is_signal m \<Longrightarrow> reg_inv (nd_registry nd) \<Longrightarrow> struck p reason q traps (nd_registry nd) \<Longrightarrow>
   struck p reason q traps (nd_registry (handle_messages ser clock ms nd))"
proof (induction ms arbitrary: clock nd)
  case (Cons m ms)
  note g = signal_grew[OF _ Cons.prems(2), of m ser "clock 0"]
  have "grew (nd_registry nd) (nd_registry (handle_peer_message ser (clock 0) m nd))"
    using g Cons.prems(1) by simp
  from Cons.IH[OF _ grew_inv[OF this] grew_settled[OF this Cons.prems(3)]] Cons.prems(1)
  show ?case by simp
qed simp

lemma signals_settle:
  "\<forall>m \<in> set ms. is_signal m \<Longrightarrow> PExit p q reason \<in> set ms \<Longrightarrow> reg_inv (nd_registry nd) \<Longrightarrow>
   state_of (nd_registry nd) q = Some u \<Longrightarrow>
   struck p reason q (trap_exit u) (nd_registry (handle_messages ser clock ms nd))"
proof (induction ms arbitrary: clock nd u)
  case (Cons m ms)
  let ?nd1 = "handle_peer_message ser (clock 0) m nd"
  have g: "grew (nd_registry nd) (nd_registry ?nd1)"
    using signal_grew[OF _ Cons.prems(3)] Cons.prems(1) by simp
  then have inv1: "reg_inv (nd_registry ?nd1)" by (simp add: grew_def)
  have sigs: "\<forall>m \<in> set ms. is_signal m" using Cons.prems(1) by simp
  show ?case
  proof (cases "m = PExit p q reason \<or> \<not> particle_exists (nd_registry ?nd1) q")
    case True
    have "struck p reason q (trap_exit u) (nd_registry ?nd1)"
    proof (cases "m = PExit p q reason")
      case True
      with inherited_settles[OF Cons.prems(3,4)] show ?thesis
        by (simp add: handle_peer_message_def on_registry_def)
    next
      case False
      with True have dead: "\<not> particle_exists (nd_registry ?nd1) q" by simp
      have "\<not> trap_exit u"
      proof
        assume "trap_exit u"
        then obtain u' where "state_of (nd_registry ?nd1) q = Some u'"
          using grew_keeps[OF g Cons.prems(4)] by blast
        with dead show False by (simp add: particle_exists_iff)
      qed
      with dead show ?thesis by (simp add: struck_def)
    qed
    from signals_settled[OF sigs inv1 this] show ?thesis by simp
  next
    case False
    then obtain u1 where u1: "state_of (nd_registry ?nd1) q = Some u1" "trap_exit u1 = trap_exit u"
      using grew_keeps[OF g Cons.prems(4)] by blast
    have "PExit p q reason \<in> set ms" using Cons.prems(2) False by auto
    from Cons.IH[OF sigs this inv1 u1(1)] u1(2) show ?thesis by simp
  qed
qed simp

lemma death_names_link:
  assumes "reg_reachable reg" and p: "state_of reg p = Some st" and q: "q \<in> set (links st)" "node q \<noteq> me reg"
  shows "\<exists>ds d. deaths (exit_particle p reason reg) = deaths reg @ ds \<and> d \<in> set ds
    \<and> dead_pid d = p \<and> dead_reason d = reason \<and> q \<in> set (remote_links d)"
proof -
  have ok: "reg_ok reg" by (rule reg_inv_ok[OF reg_inv_reachable[OF assms(1)]])
  from exit_particle_cascade[OF ok] obtain vs where vs: "set vs = reached reg reason [p]"
    "cascade reg reason vs (exit_particle p reason reg)"
    by metis
  have "p \<in> set vs" unfolding vs(1) using p by (intro reached.seed) (auto simp: particle_exists_iff)
  moreover have "q \<in> set (remote_links (death_of reg p reason st))"
    using q by (simp add: death_of_def is_local_to_def)
  moreover have "dead_pid (death_of reg p reason st) = p" "dead_reason (death_of reg p reason st) = reason"
    by (simp_all add: death_of_def)
  moreover have "deaths (exit_particle p reason reg)
      = deaths reg @ map (\<lambda>q. death_of reg q reason (the (state_of reg q))) vs"
    using vs(2) by (simp add: cascade_def)
  ultimately show ?thesis using p by force
qed

text \<open>
  C7: a death crosses. Particle \<open>p\<close> of one node dies, holding a link to \<open>q\<close> of node \<open>n\<close>. The
  signal forwarder queues the deaths' signals on the link to \<open>n\<close>; whatever else the cascade
  sends there, once node \<open>n\<close> has read what was queued and handled it in order, \<open>q\<close> has been
  told: it found an exit message from \<open>p\<close> with \<open>p\<close>'s reason if it traps exits, and is dead, if
  the reason is not normal, if it does not.
\<close>

theorem death_crosses:
  assumes "reg_reachable reg" and "state_of reg p = Some st" and "q \<in> set (links st)"
    and "node q = n" and "n \<noteq> me reg"
    and died: "deaths (exit_particle p reason reg) = deaths reg @ ds"
    and codec: "codec_inverse ser de" "fits_memory ser" and f: "encode_frame ser (PExit p q reason) = Inr f"
    and open_link: "hm_get (link_map (foldl (link_apply ser) (peer_links_new addr) before)) n = Some ch"
    and pl: "pl = foldl (link_apply ser) (peer_links_new addr) before"
    and sent: "channels (signal_forwarder ser (map BcOk ds) pl) ch = channels pl ch @ frames"
    and "reg_reachable (nd_registry nd)" and u: "state_of (nd_registry nd) q = Some u"
    and handled: "handle_message_link ser' de clock (concat frames) nd = (nd', e)"
  shows "e = None \<and> struck p reason q (trap_exit u) (nd_registry nd')"
proof -
  let ?ops = "concat (map signals_of_death ds)"
  have far: "node q \<noteq> me reg" using assms(4,5) by simp
  from death_names_link[OF assms(1-3) far, of reason] died obtain d where d: "d \<in> set ds"
    "dead_pid d = p" "dead_reason d = reason" "q \<in> set (remote_links d)"
    by auto
  then have "LSend n (PExit p q reason) \<in> set (signals_of_death d)"
    using assms(4) by (auto simp: signals_of_death_def)
  then have "LSend n (PExit p q reason) \<in> set ?ops" using d(1) by auto
  then have m: "PExit p q reason \<in> set (messages_for ser n ?ops)" by (rule set_messages_for[OF _ f])
  have sigs: "\<forall>m \<in> set (messages_for ser n ?ops). is_signal m"
  proof
    fix m
    assume "m \<in> set (messages_for ser n ?ops)"
    from messages_for_sent[OF this] obtain k where "LSend k m \<in> set ?ops" by (rule exE)
    then obtain d where "LSend k m \<in> set (signals_of_death d)" by auto
    from signals_of_death_only[OF this] show "is_signal m" by auto
  qed
  have quiet: "LDisconnect n \<notin> set ?ops" using signals_of_death_only by fastforce
  have inv: "links_inv pl" unfolding pl by (rule links_inv_run[OF links_inv_new])
  have frames: "frames = frames_for ser n ?ops"
    using link_open_run[OF inv _ quiet, of ch ser] open_link sent unfolding pl signal_forwarder_ops by simp
  have "read_link de (concat frames) = (messages_for ser n ?ops, None)"
    using read_link_prefix[OF codec, of "messages_for ser n ?ops" "concat frames" "length (concat frames)"]
    by (auto simp: frames encode_messages_for)
  then have "nd' = handle_messages ser' clock (messages_for ser n ?ops) nd \<and> e = None"
    using handled by (simp add: handle_message_link_def)
  with signals_settle[OF sigs m reg_inv_reachable[OF assms(13)] u] show ?thesis by simp
qed

text \<open>Particle 1 of the demonstration node, linked to particle 1 of node 9, is killed.\<close>

definition near :: "(nat, unit) registry" where
  "near = link_remote (Pid 0 1) (Pid 9 1) demo"

definition far_at :: "nat \<Rightarrow> (nat, unit) registry" where
  "far_at k =
     (let r0 = registry_new (pid_gen_new 9);
          r1 = snd (register_component (\<lambda>_. Inr ()) ''c'' [] policy_empty r0)
      in if k = 0 then r1 else snd (spawn ''c'' None None r1))"

definition far_node :: "(nat, unit, nat) node_state" where
  "far_node = \<lparr>nd_registry = far_at 1, nd_peers = peer_links_new \<lparr>addr_id = 9, addrs = []\<rparr>,
     nd_part = \<lparr>roster = cluster_new 9, reports = partitions_new 9\<rparr>, nd_global = global_new 9, nd_tasks = []\<rparr>"

definition one_signal :: "(nat, nat) peer_message" where
  "one_signal = PExit (Pid 0 1) (Pid 9 1) Killed"

definition one_ser :: "(nat, nat) peer_message serializer" where
  "one_ser m = (if m = one_signal then Some [1] else None)"

definition one_de :: "(nat, nat) peer_message deserializer" where
  "one_de bs = (if bs = [1] then Some one_signal else None)"

definition near_links :: "(nat, nat) peer_links" where
  "near_links = foldl (link_apply one_ser) (peer_links_new \<lparr>addr_id = 0, addrs = []\<rparr>) [LSend 9 one_signal]"

definition crossing :: bytes where
  "crossing = concat (drop 1 (channels
     (signal_forwarder one_ser (map BcOk (deaths (exit_particle (Pid 0 1) Killed near))) near_links) 0))"

lemma near_reachable: "reg_reachable near"
proof -
  have "me demo = 0" by code_simp
  then show ?thesis unfolding near_def by (intro rr_step[OF demo_reachable] st_link_remote) simp
qed

lemma far_reachable: "reg_reachable (far_at 1)"
proof -
  have room: "next_seq (pid_generator (far_at 0)) \<noteq> - 1" by code_simp
  have "reg_reachable (far_at 0)"
    unfolding far_at_def Let_def if_P[OF refl] by (rule rr_step[OF rr_new ran(1)])
  then have "reg_reachable (snd (spawn ''c'' None None (far_at 0)))"
    by (rule rr_step[OF _ ran(2)[OF room]])
  then show ?thesis by (simp add: far_at_def)
qed

theorem death_crosses_witness:
  "\<not> particle_exists (nd_registry (fst (handle_message_link one_ser one_de (\<lambda>_. 0) crossing far_node))) (Pid 9 1)"
proof -
  have "state_of near (Pid 0 1) \<noteq> None \<and> Pid 9 1 \<in> set (links (the (state_of near (Pid 0 1))))
      \<and> me near = 0 \<and> deaths near = []"
    by code_simp
  then obtain st where st: "state_of near (Pid 0 1) = Some st" "Pid 9 1 \<in> set (links st)" "me near = 0" "deaths near = []"
    by auto
  have "state_of (far_at 1) (Pid 9 1) \<noteq> None \<and> \<not> trap_exit (the (state_of (far_at 1) (Pid 9 1)))" by code_simp
  then obtain u where u: "state_of (far_at 1) (Pid 9 1) = Some u" "\<not> trap_exit u" by auto
  have codec: "codec_inverse one_ser one_de" "fits_memory one_ser"
    by (simp_all add: codec_inverse_def fits_memory_def one_ser_def one_de_def)
  have f: "encode_frame one_ser (PExit (Pid 0 1) (Pid 9 1) Killed) = Inr [1, 0, 0, 0, 1]" by code_simp
  have ch: "hm_get (link_map near_links) 9 = Some 0" by code_simp
  let ?pl' = "signal_forwarder one_ser (map BcOk (deaths (exit_particle (Pid 0 1) Killed near))) near_links"
  have sent: "channels ?pl' 0 = channels near_links 0 @ drop 1 (channels ?pl' 0)" by code_simp
  have died: "deaths (exit_particle (Pid 0 1) Killed near) = deaths near @ deaths (exit_particle (Pid 0 1) Killed near)"
    using st(4) by simp
  have nd: "reg_reachable (nd_registry far_node)" "state_of (nd_registry far_node) (Pid 9 1) = Some u"
    using far_reachable u(1) by (simp_all add: far_node_def)
  have n: "node (Pid 9 1) = (9 :: nat)" "9 \<noteq> me near" using st(3) by simp_all
  have "struck (Pid 0 1) Killed (Pid 9 1) (trap_exit u)
      (nd_registry (fst (handle_message_link one_ser one_de (\<lambda>_. 0) crossing far_node)))"
    using death_crosses[OF near_reachable st(1,2) n died codec f ch[unfolded near_links_def] near_links_def
        sent nd prod.collapse[symmetric]]
    unfolding crossing_def by blast
  then show ?thesis using u(2) by (simp add: struck_def is_abnormal_def)
qed

end
