(* ===== verification/Hosts.thy ===== *)
theory Hosts
  imports Nodes
begin

text \<open>
  What a particle can ask of its node: the host functions of \<^verbatim>\<open>src/runtime/invoke.rs\<close>, the state
  behind them (\<^verbatim>\<open>src/host/state.rs\<close>), and the client they use for a spawn on another node
  (\<^verbatim>\<open>src/client.rs\<close>).

  A resource handle is what it resolves to: \<open>Some\<close> pid, or \<open>None\<close> when it is stale. The table of
  handles belongs to wasmtime. A host function takes the particle's own state and the state of
  its node and gives both back; the parts of the node a harness may leave out are the flags of
  \<open>host_state\<close>.
\<close>

section \<open>The state of a particle's host\<close>

record 'n host_state =
  h_pid :: "'n pid"
  h_name :: "string option"
  h_capabilities :: policy_set
  h_endpoint :: bool
  h_engine :: bool
  h_registry :: bool
  h_mailbox :: "nat option"
  h_peers :: bool
  h_cluster :: bool
  h_global :: bool
  h_next_ref :: u64

definition host_new :: "'n pid \<Rightarrow> string option \<Rightarrow> policy_set \<Rightarrow> 'n host_state" where
  "host_new p name caps =
     \<lparr>h_pid = p, h_name = name, h_capabilities = caps, h_endpoint = False, h_engine = False,
      h_registry = False, h_mailbox = None, h_peers = False, h_cluster = False, h_global = False,
      h_next_ref = 1\<rparr>"

text \<open>What \<^verbatim>\<open>start_particle\<close> wires up; a node hands every part to its particles.\<close>

definition host_started :: "'n pid \<Rightarrow> string option \<Rightarrow> policy_set \<Rightarrow> nat \<Rightarrow> 'n host_state" where
  "host_started p name caps a =
     (host_new p name caps)\<lparr>h_endpoint := True, h_engine := True, h_registry := True,
        h_peers := True, h_cluster := True, h_global := True, h_mailbox := Some a\<rparr>"

definition make_ref :: "'n host_state \<Rightarrow> u64 \<times> 'n host_state" where
  "make_ref h = (h_next_ref h, h\<lparr>h_next_ref := h_next_ref h + 1\<rparr>)"

definition self_node :: "'n node_codec \<Rightarrow> 'n \<Rightarrow> 'n host_state \<Rightarrow> string" where
  "self_node c m h = (if h_endpoint h then hex_encode c (as_bytes c m) else [])"

definition node_of :: "'n node_codec \<Rightarrow> 'n pid option \<Rightarrow> string" where
  "node_of c handle = (case handle of Some p \<Rightarrow> hex_encode c (as_bytes c (node p)) | None \<Rightarrow> [])"

section \<open>Destinations\<close>

datatype 'n destination = DPid "'n pid option" | DLocalNamed string | DNamed string string

datatype 'n addressed = AtPid "'n pid" | AtName string

datatype 'n local_target = Here "'n addressed" | Elsewhere 'n "'n addressee" | Unknown

definition parse_node :: "'n node_codec \<Rightarrow> string \<Rightarrow> 'n option" where
  "parse_node c s =
     (case hex_decode c s of
        None \<Rightarrow> None
      | Some bs \<Rightarrow> if length bs \<noteq> 32 then None else from_bytes c bs)"

definition resolve_local :: "'n node_codec \<Rightarrow> 'n \<Rightarrow> 'n host_state \<Rightarrow> 'n destination \<Rightarrow> 'n local_target" where
  "resolve_local c m h dest =
     (case dest of
        DPid (Some p) \<Rightarrow>
          if \<not> h_endpoint h \<or> is_local_to p m then Here (AtPid p) else Elsewhere (node p) (APid p)
      | DPid None \<Rightarrow> Unknown
      | DLocalNamed name \<Rightarrow> Here (AtName name)
      | DNamed s name \<Rightarrow>
          (case parse_node c s of
             Some n \<Rightarrow> if h_endpoint h \<and> n = m then Here (AtName name) else Elsewhere n (AName name)
           | None \<Rightarrow> Unknown))"

definition resolve_named :: "'n host_state \<Rightarrow> ('n, 'c) registry \<Rightarrow> 'n addressed \<Rightarrow> 'n pid option" where
  "resolve_named h reg t =
     (case t of AtPid p \<Rightarrow> Some p | AtName name \<Rightarrow> if h_registry h then get_by_name reg name else None)"

text \<open>The node as its particles see it: where it is, and what it can encode.\<close>

record ('n, 'a) host_env =
  env_me :: 'n
  env_codec :: "'n node_codec"
  env_ser :: "('n, 'a) peer_message serializer"

definition send_control ::
  "('n, 'a) host_env \<Rightarrow> 'n host_state \<Rightarrow> 'n \<Rightarrow> ('n, 'a) peer_message \<Rightarrow> ('n, 'c, 'a) node_state
     \<Rightarrow> ('n, 'c, 'a) node_state" where
  "send_control e h n msg nd = (if h_peers h then do_links (env_ser e) [LSend n msg] nd else nd)"

abbreviation where_to :: "('n, 'a) host_env \<Rightarrow> 'n host_state \<Rightarrow> 'n destination \<Rightarrow> 'n local_target" where
  "where_to e h dest \<equiv> resolve_local (env_codec e) (env_me e) h dest"

definition if_registry ::
  "'n host_state \<Rightarrow> (('n, 'c) registry \<Rightarrow> ('n, 'c) registry) \<Rightarrow> ('n, 'c, 'a) node_state \<Rightarrow> ('n, 'c, 'a) node_state" where
  "if_registry h f nd = (if h_registry h then on_registry f nd else nd)"

section \<open>Sending\<close>

definition deliver_to ::
  "('n, 'a) host_env \<Rightarrow> 'n host_state \<Rightarrow> 'n destination \<Rightarrow> u64 option \<Rightarrow> bytes \<Rightarrow> ('n, 'c, 'a) node_state
     \<Rightarrow> ('n, 'c, 'a) node_state" where
  "deliver_to e h dest ref_id msg nd =
     (case where_to e h dest of
        Unknown \<Rightarrow> nd
      | Here t \<Rightarrow>
          (case resolve_named h (nd_registry nd) t of
             None \<Rightarrow> nd
           | Some p \<Rightarrow>
               if_registry h (\<lambda>reg. case ref_id of
                   Some r \<Rightarrow> snd (send_tagged_to_pid p r msg reg)
                 | None \<Rightarrow> snd (send_to_pid p msg reg)) nd)
      | Elsewhere n a \<Rightarrow>
          send_control e h n (PDeliver \<lparr>env_target = a, env_ref = ref_id, env_payload = msg\<rparr>) nd)"

definition host_send ::
  "('n, 'a) host_env \<Rightarrow> 'n host_state \<Rightarrow> 'n destination \<Rightarrow> bytes \<Rightarrow> ('n, 'c, 'a) node_state
     \<Rightarrow> ('n, 'c, 'a) node_state" where
  "host_send e h dest msg nd = deliver_to e h dest None msg nd"

definition host_send_ref ::
  "('n, 'a) host_env \<Rightarrow> 'n host_state \<Rightarrow> 'n destination \<Rightarrow> u64 \<Rightarrow> bytes \<Rightarrow> ('n, 'c, 'a) node_state
     \<Rightarrow> ('n, 'c, 'a) node_state" where
  "host_send_ref e h dest ref_id msg nd = deliver_to e h dest (Some ref_id) msg nd"

section \<open>Spawning on the own node\<close>

definition host_spawn_call ::
  "'n host_state \<Rightarrow> ('c, 't) wasm \<Rightarrow> string \<Rightarrow> string option \<Rightarrow> string \<Rightarrow> ('n, 'c, 'a) node_state
     \<Rightarrow> (spawn_failure + 'n pid) \<times> ('n, 'c, 'a) node_state" where
  "host_spawn_call h w cname name args nd =
     (if \<not> h_registry h \<or> \<not> h_engine h then (Inl InitFailed, nd)
      else (let (r, reg) = host_spawn w cname name args (nd_registry nd) in (r, nd\<lparr>nd_registry := reg\<rparr>)))"

definition host_spawn_link_call ::
  "'n host_state \<Rightarrow> ('c, 't) wasm \<Rightarrow> string \<Rightarrow> string option \<Rightarrow> string \<Rightarrow> ('n, 'c, 'a) node_state
     \<Rightarrow> (spawn_failure + 'n pid) \<times> ('n, 'c, 'a) node_state" where
  "host_spawn_link_call h w cname name args nd =
     (if \<not> h_registry h \<or> \<not> h_engine h then (Inl InitFailed, nd)
      else (let (r, reg) = host_spawn_link w (h_pid h) cname name args (nd_registry nd)
            in (r, nd\<lparr>nd_registry := reg\<rparr>)))"

section \<open>Links and monitors\<close>

definition host_link ::
  "('n, 'a) host_env \<Rightarrow> 'n host_state \<Rightarrow> 'n destination \<Rightarrow> ('n, 'c, 'a) node_state \<Rightarrow> ('n, 'c, 'a) node_state" where
  "host_link e h dest nd =
     (case where_to e h dest of
        Here t \<Rightarrow>
          if_registry h (\<lambda>reg.
            case resolve_named h reg t of
              Some target \<Rightarrow>
                (case link (h_pid h) target reg of
                   (Inr (), reg1) \<Rightarrow> reg1
                 | (Inl _, reg1) \<Rightarrow> deliver_exit (h_pid h) (h_pid h) NoProc reg1)
            | None \<Rightarrow> deliver_exit (h_pid h) (h_pid h) NoProc reg) nd
      | Elsewhere n a \<Rightarrow>
          send_control e h n (PLink (h_pid h) a)
            (case a of APid target \<Rightarrow> if_registry h (link_remote (h_pid h) target) nd | AName _ \<Rightarrow> nd)
      | Unknown \<Rightarrow> nd)"

definition host_unlink ::
  "('n, 'a) host_env \<Rightarrow> 'n host_state \<Rightarrow> 'n destination \<Rightarrow> ('n, 'c, 'a) node_state \<Rightarrow> ('n, 'c, 'a) node_state" where
  "host_unlink e h dest nd =
     (case where_to e h dest of
        Here t \<Rightarrow>
          if_registry h (\<lambda>reg. case resolve_named h reg t of
              Some target \<Rightarrow> unlink (h_pid h) target reg | None \<Rightarrow> reg) nd
      | Elsewhere n a \<Rightarrow>
          send_control e h n (PUnlink (h_pid h) a)
            (case a of APid target \<Rightarrow> if_registry h (unlink_remote (h_pid h) target) nd | AName _ \<Rightarrow> nd)
      | Unknown \<Rightarrow> nd)"

definition host_monitor ::
  "('n, 'a) host_env \<Rightarrow> 'n host_state \<Rightarrow> 'n destination \<Rightarrow> ('n, 'c, 'a) node_state
     \<Rightarrow> u64 \<times> 'n host_state \<times> ('n, 'c, 'a) node_state" where
  "host_monitor e h dest nd =
     (let (r, h1) = make_ref h; p = h_pid h
      in (r, h1,
          (case where_to e h1 dest of
             Here t \<Rightarrow>
               if_registry h1 (\<lambda>reg. case resolve_named h1 reg t of
                   Some target \<Rightarrow> monitor_with_ref p target r reg
                 | None \<Rightarrow> deliver_down p p r NoProc reg) nd
           | Elsewhere n a \<Rightarrow>
               send_control e h1 n (PMonitor p a r)
                 (case a of APid target \<Rightarrow> if_registry h1 (monitor_remote p target r) nd | AName _ \<Rightarrow> nd)
           | Unknown \<Rightarrow> if_registry h1 (deliver_down p p r NoProc) nd)))"

definition host_demonitor ::
  "'n host_state \<Rightarrow> u64 \<Rightarrow> ('n, 'c, 'a) node_state \<Rightarrow> ('n, 'c, 'a) node_state" where
  "host_demonitor h r nd = if_registry h (demonitor (h_pid h) r) nd"

definition host_trap_exit ::
  "'n host_state \<Rightarrow> bool \<Rightarrow> ('n, 'c, 'a) node_state \<Rightarrow> ('n, 'c, 'a) node_state" where
  "host_trap_exit h enabled nd = if_registry h (set_trap_exit (h_pid h) enabled) nd"

section \<open>Exits\<close>

text \<open>\<^verbatim>\<open>exit\<close> gives back to the component, which goes on running.\<close>

definition host_exit ::
  "'n host_state \<Rightarrow> wit_reason \<Rightarrow> ('n, 'c, 'a) node_state \<Rightarrow> ('n, 'c, 'a) node_state" where
  "host_exit h reason nd =
     if_registry h (exit_particle (h_pid h) (wit_exit_reason_to_internal reason)) nd"

definition host_exit_signal ::
  "('n, 'a) host_env \<Rightarrow> 'n host_state \<Rightarrow> 'n destination \<Rightarrow> wit_reason \<Rightarrow> ('n, 'c, 'a) node_state
     \<Rightarrow> ('n, 'c, 'a) node_state" where
  "host_exit_signal e h dest reason nd =
     (let r = wit_exit_reason_to_internal reason
      in case where_to e h dest of
           Here t \<Rightarrow>
             if_registry h (\<lambda>reg. case resolve_named h reg t of
                 Some target \<Rightarrow> apply_directed_exit target (h_pid h) r reg | None \<Rightarrow> reg) nd
         | Elsewhere n a \<Rightarrow> send_control e h n (PExitSignal (h_pid h) a r) nd
         | Unknown \<Rightarrow> nd)"

section \<open>Names\<close>

datatype wit_registry_error = AlreadyRegistered | NotRegisteredName

definition host_register ::
  "'n host_state \<Rightarrow> string \<Rightarrow> ('n, 'c, 'a) node_state \<Rightarrow> (wit_registry_error + unit) \<times> ('n, 'c, 'a) node_state" where
  "host_register h name nd =
     (if \<not> h_registry h then (Inl NotRegisteredName, nd)
      else
        (case register_name (h_pid h) name (nd_registry nd) of
           (Inr (), reg) \<Rightarrow> (Inr (), nd\<lparr>nd_registry := reg\<rparr>)
         | (Inl _, reg) \<Rightarrow> (Inl AlreadyRegistered, nd\<lparr>nd_registry := reg\<rparr>)))"

definition host_unregister ::
  "'n host_state \<Rightarrow> string \<Rightarrow> ('n, 'c, 'a) node_state \<Rightarrow> (wit_registry_error + unit) \<times> ('n, 'c, 'a) node_state" where
  "host_unregister h name nd =
     (if \<not> h_registry h then (Inl NotRegisteredName, nd)
      else
        (case unregister_name (h_pid h) name (nd_registry nd) of
           (Inr (), reg) \<Rightarrow> (Inr (), nd\<lparr>nd_registry := reg\<rparr>)
         | (Inl _, reg) \<Rightarrow> (Inl NotRegisteredName, nd\<lparr>nd_registry := reg\<rparr>)))"

definition host_lookup :: "'n host_state \<Rightarrow> string \<Rightarrow> ('n, 'c, 'a) node_state \<Rightarrow> 'n pid option" where
  "host_lookup h name nd = (if h_registry h then lookup_name (nd_registry nd) name else None)"

definition host_resolve ::
  "('n, 'a) host_env \<Rightarrow> 'n host_state \<Rightarrow> string \<Rightarrow> ('n, 'c, 'a) node_state \<Rightarrow> 'n pid option" where
  "host_resolve e h s nd = (if h_registry h then resolve_target (env_codec e) (nd_registry nd) s else None)"

text \<open>
  The cluster-wide names: \<open>gr\<close> are the tables of all nodes, \<open>cl\<close> and \<open>counts\<close> what the node reads
  of its roster and of its merges while the call lasts.
\<close>

definition host_global_register ::
  "('n :: linorder) host_state \<Rightarrow> 'n \<Rightarrow> string \<Rightarrow> (nat \<Rightarrow> 'n cluster) \<Rightarrow> nat list \<Rightarrow> 'n grid
     \<Rightarrow> ('n claim_error + unit) \<times> 'n grid" where
  "host_global_register h m name cl counts gr =
     (if h_global h \<and> h_cluster h then global_register m name (h_pid h) cl counts gr else (Inr (), gr))"

definition host_global_unregister ::
  "('n :: linorder) host_state \<Rightarrow> 'n \<Rightarrow> string \<Rightarrow> 'n cluster \<Rightarrow> 'n grid \<Rightarrow> 'n grid" where
  "host_global_unregister h m name cl gr =
     (if h_global h \<and> h_cluster h then global_unregister m name (h_pid h) cl gr else gr)"

definition host_global_lookup ::
  "'n host_state \<Rightarrow> string \<Rightarrow> nat list \<Rightarrow> 'n global_names \<Rightarrow> 'n global_names \<Rightarrow> lookup_error + 'n pid option" where
  "host_global_lookup h name counts g after =
     (if h_global h then global_lookup name counts g after else Inr None)"

section \<open>Receiving\<close>

datatype wit_spawn_error = WitComponentNotFound | WitInitFailed | WitResourceLimit | WitNodeUnreachable

datatype 'n wit_message =
    WData bytes
  | WTagged u64 bytes
  | WExit "'n pid" wit_reason
  | WDown "'n pid" u64 wit_reason
  | WSpawnReply u64 "wit_spawn_error + 'n pid"

definition spawn_failure_to_wit :: "spawn_failure \<Rightarrow> wit_spawn_error" where
  "spawn_failure_to_wit e =
     (case e of ComponentNotFound \<Rightarrow> WitComponentNotFound | InitFailed \<Rightarrow> WitInitFailed
      | ResourceLimit \<Rightarrow> WitResourceLimit | NodeUnreachable \<Rightarrow> WitNodeUnreachable)"

definition mailbox_message_to_wit :: "'n mailbox_message \<Rightarrow> 'n wit_message" where
  "mailbox_message_to_wit m =
     (case m of
        SpawnReply r out \<Rightarrow>
          WSpawnReply r (case out of Inr p \<Rightarrow> Inr p | Inl e \<Rightarrow> Inl (spawn_failure_to_wit e))
      | Data d \<Rightarrow> WData d
      | Tagged r d \<Rightarrow> WTagged r d
      | MExit p reason \<Rightarrow> WExit p (internal_exit_reason_to_wit reason)
      | MDown p r reason \<Rightarrow> WDown p r (internal_exit_reason_to_wit reason))"

text \<open>A component that waits for ever gets no answer at all.\<close>

datatype 'n host_answer = Answer "'n wit_message option" | NoAnswer

definition received_to_wit :: "'n received \<Rightarrow> 'n host_answer" where
  "received_to_wit r =
     (case r of Got m \<Rightarrow> Answer (Some (mailbox_message_to_wit m)) | Nothing \<Rightarrow> Answer None | Blocked \<Rightarrow> NoAnswer)"

definition host_recv ::
  "'n host_state \<Rightarrow> nat option \<Rightarrow> 'n schedule \<Rightarrow> ('n, 'c) registry \<Rightarrow> 'n host_answer \<times> ('n, 'c) registry" where
  "host_recv h timeout ws reg =
     (case h_mailbox h of
        None \<Rightarrow> (Answer None, reg)
      | Some a \<Rightarrow>
          (let out = recv timeout ws (boxes reg a)
           in (received_to_wit (result out), update_box a (\<lambda>_. left out) reg)))"

definition host_recv_ref ::
  "'n host_state \<Rightarrow> u64 \<Rightarrow> nat option \<Rightarrow> 'n schedule \<Rightarrow> ('n, 'c) registry
     \<Rightarrow> 'n host_answer \<times> ('n, 'c) registry" where
  "host_recv_ref h ref_id timeout ws reg =
     (case h_mailbox h of
        None \<Rightarrow> (Answer None, reg)
      | Some a \<Rightarrow>
          (let out = recv_ref ref_id timeout ws (boxes reg a)
           in (received_to_wit (result out), update_box a (\<lambda>_. left out) reg)))"

section \<open>The client of another node\<close>

text \<open>
  \<open>net\<close> carries the bytes of a request to the node and the bytes of its answer back, or loses
  either; it acts on a state \<open>'s\<close>, which is the other node when there is one.
\<close>

datatype client_error = NotSerializable | NoConnectionToNode | ResponseTooLong | BadResponse | UnexpectedResponse

type_synonym 's network = "bytes \<Rightarrow> 's \<Rightarrow> bytes option \<times> 's"

definition send_command ::
  "'n command serializer \<Rightarrow> 'n command_response deserializer \<Rightarrow> 's network \<Rightarrow> 'n command \<Rightarrow> 's
     \<Rightarrow> (client_error + 'n command_response) \<times> 's" where
  "send_command ser de net cmd s =
     (case ser cmd of
        None \<Rightarrow> (Inl NotSerializable, s)
      | Some request \<Rightarrow>
          (case net request s of
             (None, s1) \<Rightarrow> (Inl NoConnectionToNode, s1)
           | (Some response, s1) \<Rightarrow>
               if 1048576 < length response then (Inl ResponseTooLong, s1)
               else (case de response of None \<Rightarrow> (Inl BadResponse, s1) | Some r \<Rightarrow> (Inr r, s1))))"

definition try_spawn ::
  "'n command serializer \<Rightarrow> 'n command_response deserializer \<Rightarrow> 's network \<Rightarrow> spawn_request \<Rightarrow> 's
     \<Rightarrow> (client_error + 'n spawn_response) \<times> 's" where
  "try_spawn ser de net req s =
     (case send_command ser de net (CSpawn req) s of
        (Inl e, s1) \<Rightarrow> (Inl e, s1)
      | (Inr (RSpawn r), s1) \<Rightarrow> (Inr r, s1)
      | (Inr _, s1) \<Rightarrow> (Inl UnexpectedResponse, s1))"

datatype client_spawn_error = ClientFailed client_error | Refused spawn_failure_wire

definition client_spawn ::
  "'n command serializer \<Rightarrow> 'n command_response deserializer \<Rightarrow> 's network \<Rightarrow> spawn_request \<Rightarrow> 's
     \<Rightarrow> (client_spawn_error + 'n spawn_result) \<times> 's" where
  "client_spawn ser de net req s =
     (case send_command ser de net (CSpawn req) s of
        (Inl e, s1) \<Rightarrow> (Inl (ClientFailed e), s1)
      | (Inr (RSpawn (Inr r)), s1) \<Rightarrow> (Inr r, s1)
      | (Inr (RSpawn (Inl f)), s1) \<Rightarrow> (Inl (Refused f), s1)
      | (Inr _, s1) \<Rightarrow> (Inl (ClientFailed UnexpectedResponse), s1))"

datatype client_send_error = SendClientFailed client_error | SendRefused string

definition client_send ::
  "'n command serializer \<Rightarrow> 'n command_response deserializer \<Rightarrow> 's network \<Rightarrow> string \<Rightarrow> bytes \<Rightarrow> 's
     \<Rightarrow> (client_send_error + unit) \<times> 's" where
  "client_send ser de net name msg s =
     (case send_command ser de net (CSend \<lparr>request_target = TName name, request_msg = msg\<rparr>) s of
        (Inl e, s1) \<Rightarrow> (Inl (SendClientFailed e), s1)
      | (Inr (RSend (Inr ())), s1) \<Rightarrow> (Inr (), s1)
      | (Inr (RSend (Inl t)), s1) \<Rightarrow> (Inl (SendRefused t), s1)
      | (Inr _, s1) \<Rightarrow> (Inl (SendClientFailed UnexpectedResponse), s1))"

section \<open>Spawning on another node\<close>

definition failure_of_wire :: "spawn_failure_wire \<Rightarrow> spawn_failure" where
  "failure_of_wire e =
     (case e of WComponentNotFound \<Rightarrow> ComponentNotFound | WInitFailed \<Rightarrow> InitFailed
      | WResourceLimit \<Rightarrow> ResourceLimit)"

text \<open>
  \<open>net n\<close> is the network to node \<open>n\<close>; \<open>s\<close> is what is there. Without a mailbox or a registry the
  particle has no context to spawn from.
\<close>

definition remote_spawn ::
  "('n, 'a) host_env \<Rightarrow> ('c, 't) wasm \<Rightarrow> 'n command serializer \<Rightarrow> 'n command_response deserializer
     \<Rightarrow> ('n \<Rightarrow> 's network) \<Rightarrow> 'n host_state \<Rightarrow> string \<Rightarrow> spawn_request \<Rightarrow> ('n, 'c) registry \<times> 's
     \<Rightarrow> (spawn_failure + 'n pid) \<times> ('n, 'c) registry \<times> 's" where
  "remote_spawn e w ser de net h where_node req st =
     (let (reg, s) = st
      in if h_mailbox h = None \<or> \<not> h_registry h \<or> \<not> h_endpoint h then (Inl NodeUnreachable, reg, s)
         else
           (case parse_node (env_codec e) where_node of
              None \<Rightarrow> (Inl NodeUnreachable, reg, s)
            | Some n \<Rightarrow>
                if n = env_me e
                then (let (r, reg1) = local_spawn w (request_component req) (request_name req) (request_init_args req) reg
                      in (r, reg1, s))
                else
                  (case try_spawn ser de (net n) req s of
                     (Inr (Inl f), s1) \<Rightarrow> (Inl (failure_of_wire f), reg, s1)
                   | (Inr (Inr r), s1) \<Rightarrow> (Inr (spawned_pid r), reg, s1)
                   | (Inl _, s1) \<Rightarrow> (Inl NodeUnreachable, reg, s1))))"

definition spawn_on ::
  "('n, 'a) host_env \<Rightarrow> ('c, 't) wasm \<Rightarrow> 'n command serializer \<Rightarrow> 'n command_response deserializer
     \<Rightarrow> ('n \<Rightarrow> 's network) \<Rightarrow> 'n host_state \<Rightarrow> string \<Rightarrow> spawn_request \<Rightarrow> ('n, 'c) registry \<times> 's
     \<Rightarrow> (wit_spawn_error + 'n pid) \<times> ('n, 'c) registry \<times> 's" where
  "spawn_on e w ser de net h where_node req st =
     (case remote_spawn e w ser de net h where_node req st of
        (Inr p, st1) \<Rightarrow> (Inr p, st1) | (Inl f, st1) \<Rightarrow> (Inl (spawn_failure_to_wit f), st1))"

text \<open>
  \<^verbatim>\<open>spawn-request\<close> gives out the reference at once; \<open>spawn_request_done\<close> is the end of the task
  it leaves behind.
\<close>

definition spawn_request_start :: "'n host_state \<Rightarrow> (u64 \<times> bool) \<times> 'n host_state" where
  "spawn_request_start h = (let (r, h1) = make_ref h in ((r, h_mailbox h \<noteq> None), h1))"

definition spawn_request_done ::
  "('n, 'a) host_env \<Rightarrow> ('c, 't) wasm \<Rightarrow> 'n command serializer \<Rightarrow> 'n command_response deserializer
     \<Rightarrow> ('n \<Rightarrow> 's network) \<Rightarrow> 'n host_state \<Rightarrow> u64 \<Rightarrow> string \<Rightarrow> spawn_request \<Rightarrow> ('n, 'c) registry \<times> 's
     \<Rightarrow> ('n, 'c) registry \<times> 's" where
  "spawn_request_done e w ser de net h r where_node req st =
     (case h_mailbox h of
        None \<Rightarrow> st
      | Some a \<Rightarrow>
          (let (out, reg, s) = remote_spawn e w ser de net h where_node req st
           in (update_box a (\<lambda>mb. push_spawn_reply mb r out) reg, s)))"

text \<open>The node at the other end, serving one request.\<close>

definition serve ::
  "('c, 't) wasm \<Rightarrow> ('n target \<Rightarrow> string) \<Rightarrow> 'n command deserializer \<Rightarrow> 'n command_response serializer
     \<Rightarrow> (('n :: linorder, 'c, 'a) node_state) network" where
  "serve w dbg de ser request nd =
     (case handle_stream w dbg de ser request nd of
        (Inl _, nd1) \<Rightarrow> (None, nd1) | (Inr response, nd1) \<Rightarrow> (Some response, nd1))"

section \<open>A linked spawn reports how the child ended\<close>

lemma spawn_keeps:
  assumes "spawn cname name caps reg = (Inr (p, a), reg1)"
  shows "a = next_box reg" and "p = fst (next_pid (pid_generator reg))"
    and "q \<noteq> p \<Longrightarrow> state_of reg1 q = state_of reg q" and "b \<noteq> a \<Longrightarrow> boxes reg1 b = boxes reg b"
  using assms
  by (auto simp: spawn_def spawn_raced_def Let_def split_def split: option.splits if_splits)

text \<open>The newborn is linked to its parent and to nobody else, and the parent's mailbox is as it was.\<close>

lemma linked_newborn:
  assumes reach: "reg_reachable reg" and room: "next_seq (pid_generator reg) \<noteq> - 1"
    and parent: "state_of reg parent = Some u"
    and run: "host_spawn_link w parent cname name args reg = (Inr p, reg1)"
  shows "reg_inv reg1" and "p \<noteq> parent"
    and "\<exists>st. state_of reg1 p = Some st \<and> links st = [parent] \<and> monitored_by st = [] \<and> mailbox_at st \<noteq> mailbox_at u"
    and "state_of reg1 parent = Some (add_link p u)"
    and "boxes reg1 (mailbox_at u) = boxes reg (mailbox_at u)"
proof -
  have inv: "reg_inv reg" by (rule reg_inv_reachable[OF reach])
  from run obtain a regs caps where sp: "spawn cname name (Some caps) reg = (Inr (p, a), regs)"
    and reg1: "reg1 = snd (link parent p regs)"
    by (auto simp: host_spawn_link_def Let_def split: option.splits prod.splits sum.splits)
  note k = spawn_keeps[OF sp]
  have invs: "reg_inv regs" by (rule reg_inv_spawn[OF inv room sp])
  show ne: "p \<noteq> parent" using fresh_pid[OF inv] parent k(2) by (auto simp: particle_exists_iff)
  have below: "mailbox_at u < next_box reg" using inv parent by (simp add: reg_inv_def reg_ok_def)
  have st: "state_of regs p = Some (fresh_state a)" "state_of regs parent = Some u"
    using spawn_Inr(3)[OF sp] k(3)[of parent] ne parent by auto
  then have l: "reg1 = update_state p (add_link parent) (update_state parent (add_link p) regs)"
    unfolding reg1 link_def by (simp add: hm_has_iff)
  show "reg_inv reg1" unfolding reg1 by (rule reg_inv_link[OF invs prod.collapse[symmetric]])
  show "\<exists>st. state_of reg1 p = Some st \<and> links st = [parent] \<and> monitored_by st = [] \<and> mailbox_at st \<noteq> mailbox_at u"
    using st ne below k(1) unfolding l by (simp add: state_of_update add_link_def fresh_state_def hs_insert_def)
  show "state_of reg1 parent = Some (add_link p u)" using st ne unfolding l by (simp add: state_of_update)
  show "boxes reg1 (mailbox_at u) = boxes reg (mailbox_at u)"
    using k(1,4) below unfolding l by (simp add: update_state_def)
qed


definition plain_wasm :: "(unit, unit) wasm" where
  "plain_wasm = \<lparr>instantiates = (\<lambda>_. True), has_func = (\<lambda>_ f. f = ''start''), exports = (\<lambda>_. []),
     param_types = (\<lambda>_ _. []), is_string_type = (\<lambda>_. False), wave_parse = (\<lambda>_ _. None),
     debug_val = (\<lambda>_. [])\<rparr>"


section \<open>Links by name, and dead targets\<close>

lemma modify_missing: "hm_get m k = None \<Longrightarrow> hm_modify k f m = m"
  by (induction m) (auto simp: hm_modify_def split: if_splits)

lemma update_missing: "\<not> particle_exists reg p \<Longrightarrow> update_state p f reg = reg"
  by (simp add: update_state_def particle_exists_def hm_has_iff modify_missing)

lemma host_link_named:
  assumes "where_to e h dest = Elsewhere n (AName nm)"
  shows "host_link e h dest nd = send_control e h n (PLink (h_pid h) (AName nm)) nd"
    and "nd_registry (host_link e h dest nd) = nd_registry nd"
  using assms by (simp_all add: host_link_def send_control_def do_links_def)

text \<open>
  A link by name to another node goes one way. The linker queues the request and records
  nothing, and no answer tells it the pid behind the name; the target's node records the link.
  So the target's death reaches the linker, but the linker's death names no link to the target,
  and losing the target's node fires nothing for it.
\<close>

lemma named_link_one_way:
  assumes "where_to e h dest = Elsewhere n (AName nm)" and "get_by_name (nd_registry b) nm = Some t"
    and "state_of (nd_registry b) t = Some v" and "node (h_pid h) \<noteq> me (nd_registry b)"
    and "state_of (nd_registry a) (h_pid h) = Some u" and "t \<notin> set (links u)"
    and "relationships_with_node n (nd_registry a) = ([], [])"
    and "a' = host_link e h dest a" and "b' = handle_peer_message ser now (PLink (h_pid h) (AName nm)) b"
  shows "nd_peers a' = (if h_peers h
        then link_apply (env_ser e) (nd_peers a) (LSend n (PLink (h_pid h) (AName nm))) else nd_peers a)
    \<and> (\<exists>v'. state_of (nd_registry b') t = Some v'
         \<and> h_pid h \<in> set (remote_links (death_of (nd_registry b') t reason v')))
    \<and> (\<exists>u'. state_of (nd_registry a') (h_pid h) = Some u'
         \<and> t \<notin> set (remote_links (death_of (nd_registry a') (h_pid h) reason u')))
    \<and> node_lost n (nd_registry a') = nd_registry a'"
proof -
  have "nd_peers a' = (if h_peers h
        then link_apply (env_ser e) (nd_peers a) (LSend n (PLink (h_pid h) (AName nm))) else nd_peers a)"
    unfolding assms(8) host_link_named(1)[OF assms(1)] by (simp add: send_control_def do_links_def)
  moreover have "state_of (nd_registry b') t = Some (add_link (h_pid h) v)"
    using assms(2,3,9) by (simp add: handle_peer_message_def resolve_addressee_def on_registry_def link_remote_def state_of_update)
  moreover have "me (nd_registry b') = me (nd_registry b)"
    using assms(2,9) by (simp add: handle_peer_message_def resolve_addressee_def on_registry_def link_remote_def)
  moreover have "nd_registry a' = nd_registry a" unfolding assms(8) by (rule host_link_named(2)[OF assms(1)])
  ultimately show ?thesis
    using assms(4-7) by (simp add: death_of_def add_link_def is_local_to_def node_lost_def)
qed

text \<open>The demonstration node links to the name ''t'' of node 9, where particle 1 has it.\<close>

definition demo_env :: "(nat, nat) host_env" where
  "demo_env = \<lparr>env_me = 0, env_codec =
     \<lparr>as_bytes = (\<lambda>n. of_nat n # replicate 31 0), from_bytes = (\<lambda>bs. Some (unat (hd bs))),
      hex_encode = (\<lambda>bs. map (\<lambda>b. char_of (unat b)) bs), hex_decode = (\<lambda>s. Some (map (\<lambda>c. of_nat (of_char c)) s))\<rparr>,
     env_ser = one_ser\<rparr>"

definition demo_host :: "nat host_state" where
  "demo_host = host_started (Pid 0 4) None policy_empty 3"

definition demo_node :: "(nat, unit, nat) node_state" where
  "demo_node = \<lparr>nd_registry = demo_at 9, nd_peers = peer_links_new \<lparr>addr_id = 0, addrs = []\<rparr>,
     nd_part = \<lparr>roster = cluster_new 0, reports = partitions_new 0\<rparr>, nd_global = global_new 0, nd_tasks = []\<rparr>"

definition node_with_t :: "(nat, unit, nat) node_state" where
  "node_with_t = far_node\<lparr>nd_registry := snd (register_name (Pid 9 1) ''t'' (far_at 1))\<rparr>"

definition name_of_9 :: "nat destination" where
  "name_of_9 = DNamed (hex_encode (env_codec demo_env) (as_bytes (env_codec demo_env) 9)) ''t''"

lemma named_link_one_way_witness:
  "\<exists>u' v'. state_of (nd_registry (host_link demo_env demo_host name_of_9 demo_node)) (Pid 0 4) = Some u'
     \<and> Pid 9 1 \<notin> set (remote_links
          (death_of (nd_registry (host_link demo_env demo_host name_of_9 demo_node)) (Pid 0 4) Killed u'))
     \<and> state_of (nd_registry (handle_peer_message one_ser 0 (PLink (Pid 0 4) (AName ''t'')) node_with_t)) (Pid 9 1) = Some v'
     \<and> Pid 0 4 \<in> set (remote_links (death_of (nd_registry
          (handle_peer_message one_ser 0 (PLink (Pid 0 4) (AName ''t'')) node_with_t)) (Pid 9 1) Killed v'))"
proof -
  have p: "h_pid demo_host = Pid 0 4" by code_simp
  have w: "where_to demo_env demo_host name_of_9 = Elsewhere 9 (AName ''t'')" by code_simp
  have n: "get_by_name (nd_registry node_with_t) ''t'' = Some (Pid 9 1)" by code_simp
  have far: "node (h_pid demo_host) \<noteq> me (nd_registry node_with_t)" by code_simp
  have "state_of (nd_registry node_with_t) (Pid 9 1) \<noteq> None" by code_simp
  then obtain v where v: "state_of (nd_registry node_with_t) (Pid 9 1) = Some v" by blast
  have "state_of (nd_registry demo_node) (Pid 0 4) \<noteq> None
      \<and> Pid 9 1 \<notin> set (links (the (state_of (nd_registry demo_node) (Pid 0 4))))"
    by code_simp
  then obtain u where u: "state_of (nd_registry demo_node) (h_pid demo_host) = Some u" "Pid 9 1 \<notin> set (links u)"
    unfolding p by auto
  have none: "relationships_with_node 9 (nd_registry demo_node) = ([], [])" by code_simp
  from named_link_one_way[OF w n v far u none refl refl, of one_ser 0 Killed]
  show ?thesis unfolding p by blast
qed

text \<open>
  A dead target. For a pid of this node that is no longer alive: linking to it delivers the
  caller a \<^verbatim>\<open>noproc\<close> message and leaves it alive whether or not it traps exits, while the same
  answer from another node kills a caller that does not; monitoring it reports nothing, now or
  later; and a link or a monitor that comes from another node for such a pid is dropped, with
  nothing sent back.
\<close>

theorem dead_target_answers:
  assumes "h_registry h" and p: "state_of (nd_registry nd) (h_pid h) = Some u"
    and dead: "\<not> particle_exists (nd_registry nd) t" and here: "is_local_to t (env_me e)"
    and dest: "dest = DPid (Some t)" and far: "\<not> particle_exists (nd_registry nd) q"
  shows "particle_exists (nd_registry (host_link e h dest nd)) (h_pid h)
    \<and> queue (boxes (nd_registry (host_link e h dest nd)) (mailbox_at u)) =
        MExit (h_pid h) NoProc # queue (boxes (nd_registry nd) (mailbox_at u))
    \<and> (\<not> trap_exit u \<longrightarrow> \<not> particle_exists
         (nd_registry (handle_peer_message ser now (PExit (h_pid h) (h_pid h) NoProc) nd)) (h_pid h))
    \<and> boxes (nd_registry (snd (snd (host_monitor e h dest nd)))) = boxes (nd_registry nd)
    \<and> \<not> particle_exists (nd_registry (snd (snd (host_monitor e h dest nd)))) t
    \<and> handle_peer_message ser now (PLink q (APid t)) nd = nd
    \<and> handle_peer_message ser now (PMonitor q (APid t) r) nd = nd"
proof -
  have here0: "where_to e h dest = Here (AtPid t)" using here dest by (simp add: resolve_local_def)
  have alive: "hm_has (particle_states (nd_registry nd)) (h_pid h)" using p by (simp add: hm_has_iff)
  have l: "host_link e h dest nd = on_registry (deliver_exit (h_pid h) (h_pid h) NoProc) nd"
    using assms(1) dead alive
    by (simp add: host_link_def here0 resolve_named_def if_registry_def on_registry_def link_def particle_exists_def)
  have "h_pid h \<in> reached (nd_registry nd) NoProc [h_pid h]"
    using p by (intro reached.seed) (auto simp: particle_exists_iff)
  then have "\<not> trap_exit u \<longrightarrow> \<not> particle_exists
         (nd_registry (handle_peer_message ser now (PExit (h_pid h) (h_pid h) NoProc) nd)) (h_pid h)"
    using p by (simp add: handle_peer_message_def on_registry_def apply_inherited_exit_def is_abnormal_def exit_particle_alive)
  moreover have m: "snd (snd (host_monitor e h dest nd)) =
      on_registry (update_state (h_pid h) (add_monitor (h_next_ref h) t)) nd"
  proof -
    have "update_state t f (update_state (h_pid h) g (nd_registry nd)) = update_state (h_pid h) g (nd_registry nd)" for f g
      by (rule update_missing) (use dead in \<open>simp add: particle_exists_def update_state_def\<close>)
    then show ?thesis
      using assms(1) here dest by (simp add: host_monitor_def Let_def make_ref_def resolve_local_def resolve_named_def
          if_registry_def on_registry_def monitor_with_ref_def)
  qed
  moreover have "handle_peer_message ser now (PLink q (APid t)) nd = nd"
    "handle_peer_message ser now (PMonitor q (APid t) r) nd = nd"
    using dead far by (simp_all add: handle_peer_message_def resolve_addressee_def on_registry_def
        link_remote_def monitor_remote_def update_missing)
  moreover have "t \<noteq> h_pid h" using p dead by (auto simp: particle_exists_iff)
  ultimately show ?thesis
    using p dead unfolding l m
    by (simp add: on_registry_def deliver_exit_def send_system_def update_box_def push_system_def
        system_to_mailbox_def particle_exists_def hm_has_iff update_state_def)
qed

text \<open>Particle 4 of the demonstration node, which does not trap exits, and the pid 77 nobody has.\<close>

lemma dead_target_answers_witness:
  "particle_exists (nd_registry (host_link demo_env demo_host (DPid (Some (Pid 0 77))) demo_node)) (Pid 0 4)
   \<and> \<not> particle_exists (nd_registry (handle_peer_message one_ser 0 (PExit (Pid 0 4) (Pid 0 4) NoProc) demo_node)) (Pid 0 4)"
proof -
  have p: "h_pid demo_host = Pid 0 4" and r: "h_registry demo_host" by code_simp+
  have "state_of (nd_registry demo_node) (Pid 0 4) \<noteq> None
      \<and> \<not> trap_exit (the (state_of (nd_registry demo_node) (Pid 0 4)))"
    by code_simp
  then obtain u where u: "state_of (nd_registry demo_node) (h_pid demo_host) = Some u" "\<not> trap_exit u"
    unfolding p by auto
  have "\<not> particle_exists (nd_registry demo_node) (Pid 0 77)" "is_local_to (Pid 0 77) (env_me demo_env)"
    "\<not> particle_exists (nd_registry demo_node) (Pid 9 1)"
    by code_simp+
  from dead_target_answers[OF r u(1) this(1,2) refl this(3), of one_ser 0] u(2)
  show ?thesis unfolding p by blast
qed

section \<open>A spawn on another node\<close>

definition wit_of_wire :: "spawn_failure_wire \<Rightarrow> wit_spawn_error" where
  "wit_of_wire f = spawn_failure_to_wit (failure_of_wire f)"

text \<open>What \<^verbatim>\<open>spawn-on\<close> says of what the target's spawn handler answered.\<close>

definition spawn_answer :: "'n spawn_response \<Rightarrow> wit_spawn_error + 'n pid" where
  "spawn_answer r = (case r of Inl f \<Rightarrow> Inl (wit_of_wire f) | Inr s \<Rightarrow> Inr (spawned_pid s))"

lemma serve_spawn:
  assumes "de bs = Some (CSpawn req)" and "length bs \<le> 1048576"
    and "handle_spawn w req (nd_registry nd) = (r, reg)" and "ser (RSpawn r) = Some rs"
  shows "serve w dbg de ser bs nd = (Some rs, nd\<lparr>nd_registry := reg\<rparr>)"
  using assms by (simp add: serve_def handle_stream_def dispatch_command_def)


text \<open>
  Node 0 asks node 9, which has the component ''c''; commands and answers are encoded as far as
  this exchange needs it.
\<close>

definition demo_request :: spawn_request where
  "demo_request = \<lparr>request_component = ''c'', request_name = None, request_init_args = []\<rparr>"

definition demo_command :: "nat command serializer" where
  "demo_command cmd = (case cmd of CSpawn req \<Rightarrow> if req = demo_request then Some [1] else None | _ \<Rightarrow> None)"

definition demo_command_de :: "nat command deserializer" where
  "demo_command_de bs = (if bs = [1] then Some (CSpawn demo_request) else None)"

definition demo_answer :: "nat spawn_response" where
  "demo_answer = Inr \<lparr>spawned_pid = Pid 9 2, spawned_component = ''c'', spawned_name = None\<rparr>"

definition demo_reply :: "nat command_response serializer" where
  "demo_reply r = (case r of RSpawn a \<Rightarrow> if a = demo_answer then Some [2] else None | _ \<Rightarrow> None)"

definition demo_reply_de :: "nat command_response deserializer" where
  "demo_reply_de bs = (if bs = [2] then Some (RSpawn demo_answer) else None)"


end
