(* ===== verification/Gen_Servers.thy ===== *)
theory Gen_Servers
  imports Hosts Frames
begin

text \<open>
  The request/reply servers of the SDK: what \<^verbatim>\<open>#[gen_server]\<close> and \<^verbatim>\<open>#[main]\<close> of
  \<^verbatim>\<open>crates/plasmoid-macros\<close> generate, and the codec helpers of \<^verbatim>\<open>plasmoid-sdk/src/messaging.rs\<close>.

  A server is the \<^verbatim>\<open>impl\<close> block the macro is applied to; a handler it does not have is \<open>None\<close>. A
  handler may call host functions, so it acts on the server's state and on \<open>'w\<close>, the particle's
  host together with its node. A string is the list of its UTF-8 bytes. A component is compiled
  for wasm32, so its \<^verbatim>\<open>usize\<close> has 32 bits. The codec (\<^verbatim>\<open>postcard\<close>) is a parameter.
\<close>

section \<open>Text as bytes\<close>

definition str_bytes :: "string \<Rightarrow> bytes" where
  "str_bytes s = map of_char s"

definition continuation :: "u8 \<Rightarrow> bool" where
  "continuation b \<longleftrightarrow> 0x80 \<le> b \<and> b \<le> 0xBF"

text \<open>\<^verbatim>\<open>core::str::from_utf8\<close>: no overlong forms, no surrogates, nothing beyond U+10FFFF.\<close>

fun valid_utf8 :: "bytes \<Rightarrow> bool" where
  "valid_utf8 [] = True"
| "valid_utf8 (b # bs) =
     (if b < 0x80 then valid_utf8 bs
      else if 0xC2 \<le> b \<and> b \<le> 0xDF then
        (case bs of c # bs1 \<Rightarrow> continuation c \<and> valid_utf8 bs1 | _ \<Rightarrow> False)
      else if 0xE0 \<le> b \<and> b \<le> 0xEF then
        (case bs of
           c # d # bs1 \<Rightarrow>
             (if b = 0xE0 then 0xA0 \<le> c \<and> c \<le> 0xBF
              else if b = 0xED then 0x80 \<le> c \<and> c \<le> 0x9F
              else continuation c) \<and> continuation d \<and> valid_utf8 bs1
         | _ \<Rightarrow> False)
      else if 0xF0 \<le> b \<and> b \<le> 0xF4 then
        (case bs of
           c # d # e # bs1 \<Rightarrow>
             (if b = 0xF0 then 0x90 \<le> c \<and> c \<le> 0xBF
              else if b = 0xF4 then 0x80 \<le> c \<and> c \<le> 0x8F
              else continuation c) \<and> continuation d \<and> continuation e \<and> valid_utf8 bs1
         | _ \<Rightarrow> False)
      else False)"

definition from_utf8 :: "bytes \<Rightarrow> string option" where
  "from_utf8 bs = (if valid_utf8 bs then Some (map (\<lambda>b. char_of (unat b)) bs) else None)"

section \<open>The server and its codec\<close>

datatype cast_result = CastContinue | CastStop

datatype call_error = CallTimeout | CallDecode string

record ('q, 'r, 'm) gs_codec =
  enc_request :: "'q \<Rightarrow> bytes option"
  dec_request :: "bytes \<Rightarrow> string + 'q"
  enc_reply :: "'r \<Rightarrow> bytes option"
  dec_reply :: "bytes \<Rightarrow> string + 'r"
  enc_cast :: "'m \<Rightarrow> bytes option"
  dec_cast :: "bytes \<Rightarrow> string + 'm"

record ('s, 'q, 'r, 'm, 'w) gen_server =
  gs_init :: "(string \<Rightarrow> 'w \<Rightarrow> (string + 's) \<times> 'w) option"
  gs_default :: 's
  gs_handle_call :: "('q \<Rightarrow> 's \<times> 'w \<Rightarrow> 'r \<times> 's \<times> 'w) option"
  gs_handle_cast :: "('m \<Rightarrow> 's \<times> 'w \<Rightarrow> cast_result \<times> 's \<times> 'w) option"
  gs_handle_info :: "(bytes \<Rightarrow> 's \<times> 'w \<Rightarrow> cast_result \<times> 's \<times> 'w) option"

type_synonym ('n, 'c, 'a) gs_world = "'n host_state \<times> ('n, 'c, 'a) node_state"

text \<open>How a turn of the receive loop ends; a trap ends the component.\<close>

datatype gs_outcome = GsContinue | GsReturn | GsTrap | GsWaits

section \<open>Calls on the wire\<close>

text \<open>\<open>4 + pid_len\<close> is computed in 32 bits; a slice that would end before it begins panics.\<close>

datatype split_call = NotACall | SplitPanics | CallFrom string bytes

definition split_call_of :: "bytes \<Rightarrow> split_call" where
  "split_call_of payload =
     (if length payload < 4 then NotACall
      else
        (let pid_len = u32_from_le (take 4 payload);
             end_at = 4 + pid_len
         in if length payload < unat end_at then NotACall
            else if end_at < 4 then SplitPanics
            else
              (case from_utf8 (drop 4 (take (unat end_at) payload)) of
                 None \<Rightarrow> NotACall
               | Some who \<Rightarrow> CallFrom who (drop (unat end_at) payload))))"

definition call_payload :: "string \<Rightarrow> bytes \<Rightarrow> bytes" where
  "call_payload who request = u32_to_le (of_nat (length who)) @ str_bytes who @ request"

section \<open>The receive loop\<close>

definition gs_tagged ::
  "('s, 'q, 'r, 'm, ('n, 'c, 'a) gs_world) gen_server \<Rightarrow> ('q, 'r, 'm) gs_codec \<Rightarrow> ('n, 'a) host_env
     \<Rightarrow> u64 \<Rightarrow> bytes \<Rightarrow> 's \<times> ('n, 'c, 'a) gs_world \<Rightarrow> gs_outcome \<times> 's \<times> ('n, 'c, 'a) gs_world" where
  "gs_tagged g k e ref_id payload w =
     (case gs_handle_call g of
        None \<Rightarrow> (GsContinue, w)
      | Some handle_call \<Rightarrow>
          (case split_call_of payload of
             NotACall \<Rightarrow> (GsContinue, w)
           | SplitPanics \<Rightarrow> (GsTrap, w)
           | CallFrom who request_bytes \<Rightarrow>
               (case dec_request k request_bytes of
                  Inl _ \<Rightarrow> (GsContinue, w)
                | Inr request \<Rightarrow>
                    (let (response, s, h, nd) = handle_call request w
                     in case enc_reply k response of
                          None \<Rightarrow> (GsTrap, s, h, nd)
                        | Some response_bytes \<Rightarrow>
                            (GsContinue, s, h,
                             case host_resolve e h who nd of
                               Some from \<Rightarrow> host_send_ref e h (DPid (Some from)) ref_id response_bytes nd
                             | None \<Rightarrow> nd)))))"

definition stop_or_continue :: "cast_result \<times> 'x \<Rightarrow> gs_outcome \<times> 'x" where
  "stop_or_continue r = (case fst r of CastStop \<Rightarrow> GsReturn | CastContinue \<Rightarrow> GsContinue, snd r)"

definition gs_data ::
  "('s, 'q, 'r, 'm, 'w) gen_server \<Rightarrow> ('q, 'r, 'm) gs_codec \<Rightarrow> bytes \<Rightarrow> 's \<times> 'w \<Rightarrow> gs_outcome \<times> 's \<times> 'w" where
  "gs_data g k data w =
     (case (gs_handle_cast g, gs_handle_info g) of
        (Some handle_cast, info) \<Rightarrow>
          if data \<noteq> [] \<and> hd data = 0x01 then
            (case dec_cast k (tl data) of
               Inl _ \<Rightarrow> (GsContinue, w)
             | Inr msg \<Rightarrow> stop_or_continue (handle_cast msg w))
          else
            (case info of
               Some handle_info \<Rightarrow> stop_or_continue (handle_info data w)
             | None \<Rightarrow> (GsContinue, w))
      | (None, Some handle_info) \<Rightarrow> stop_or_continue (handle_info data w)
      | (None, None) \<Rightarrow> (GsContinue, w))"

definition gs_handle ::
  "('s, 'q, 'r, 'm, ('n, 'c, 'a) gs_world) gen_server \<Rightarrow> ('q, 'r, 'm) gs_codec \<Rightarrow> ('n, 'a) host_env
     \<Rightarrow> 'n wit_message \<Rightarrow> 's \<times> ('n, 'c, 'a) gs_world \<Rightarrow> gs_outcome \<times> 's \<times> ('n, 'c, 'a) gs_world" where
  "gs_handle g k e m w =
     (case m of
        WTagged ref_id payload \<Rightarrow> gs_tagged g k e ref_id payload w
      | WData data \<Rightarrow> gs_data g k data w
      | _ \<Rightarrow> (GsContinue, w))"

definition gs_turn ::
  "('s, 'q, 'r, 'm, ('n, 'c, 'a) gs_world) gen_server \<Rightarrow> ('q, 'r, 'm) gs_codec \<Rightarrow> ('n, 'a) host_env
     \<Rightarrow> 'n schedule \<Rightarrow> 's \<times> ('n, 'c, 'a) gs_world \<Rightarrow> gs_outcome \<times> 's \<times> ('n, 'c, 'a) gs_world" where
  "gs_turn g k e ws w =
     (let (s, h, nd) = w; (a, reg) = host_recv h None ws (nd_registry nd); w1 = (s, h, nd\<lparr>nd_registry := reg\<rparr>)
      in case a of
           NoAnswer \<Rightarrow> (GsWaits, w1)
         | Answer None \<Rightarrow> (GsReturn, w1)
         | Answer (Some m) \<Rightarrow> gs_handle g k e m w1)"

text \<open>One schedule of wake-ups per turn; the loop stops where the schedules do.\<close>

fun gs_loop ::
  "('s, 'q, 'r, 'm, ('n, 'c, 'a) gs_world) gen_server \<Rightarrow> ('q, 'r, 'm) gs_codec \<Rightarrow> ('n, 'a) host_env
     \<Rightarrow> 'n schedule list \<Rightarrow> 's \<times> ('n, 'c, 'a) gs_world \<Rightarrow> gs_outcome \<times> 's \<times> ('n, 'c, 'a) gs_world" where
  "gs_loop g k e [] w = (GsContinue, w)"
| "gs_loop g k e (ws # wss) w =
     (case gs_turn g k e ws w of
        (GsContinue, w1) \<Rightarrow> gs_loop g k e wss w1
      | (out, w1) \<Rightarrow> (out, w1))"

text \<open>The generated \<^verbatim>\<open>start\<close>: an \<^verbatim>\<open>init\<close> that fails is the component's error.\<close>

definition gs_start ::
  "('s, 'q, 'r, 'm, ('n, 'c, 'a) gs_world) gen_server \<Rightarrow> ('q, 'r, 'm) gs_codec \<Rightarrow> ('n, 'a) host_env
     \<Rightarrow> string \<Rightarrow> 'n schedule list \<Rightarrow> ('n, 'c, 'a) gs_world
     \<Rightarrow> (string + gs_outcome) \<times> ('n, 'c, 'a) gs_world" where
  "gs_start g k e init_args wss w =
     (case (case gs_init g of Some init \<Rightarrow> init init_args w | None \<Rightarrow> (Inr (gs_default g), w)) of
        (Inl err, w1) \<Rightarrow> (Inl err, w1)
      | (Inr s, w1) \<Rightarrow> (let (out, _, w2) = gs_loop g k e wss (s, w1) in (Inr out, w2)))"

section \<open>The client's side\<close>

text \<open>\<open>None\<close> where the encoding panics.\<close>

definition gs_call_send ::
  "('q, 'r, 'm) gs_codec \<Rightarrow> ('n, 'a) host_env \<Rightarrow> 'n pid option \<Rightarrow> 'q \<Rightarrow> ('n, 'c, 'a) gs_world
     \<Rightarrow> (u64 \<times> ('n, 'c, 'a) gs_world) option" where
  "gs_call_send k e target request w =
     (let (h, nd) = w; (r, h1) = make_ref h; who = show_pid (env_codec e) (h_pid h1)
      in case enc_request k request of
           None \<Rightarrow> None
         | Some req_bytes \<Rightarrow>
             Some (r, h1, host_send_ref e h1 (DPid target) r (call_payload who req_bytes) nd))"

text \<open>\<open>None\<close> while the client waits.\<close>

definition gs_call_answer :: "('q, 'r, 'm) gs_codec \<Rightarrow> 'n host_answer \<Rightarrow> (call_error + 'r) option" where
  "gs_call_answer k a =
     (case a of
        NoAnswer \<Rightarrow> None
      | Answer (Some (WTagged _ payload)) \<Rightarrow>
          Some (case dec_reply k payload of Inl er \<Rightarrow> Inl (CallDecode er) | Inr r \<Rightarrow> Inr r)
      | Answer _ \<Rightarrow> Some (Inl CallTimeout))"

definition gs_call_await ::
  "('q, 'r, 'm) gs_codec \<Rightarrow> u64 \<Rightarrow> nat option \<Rightarrow> 'n schedule \<Rightarrow> ('n, 'c, 'a) gs_world
     \<Rightarrow> (call_error + 'r) option \<times> ('n, 'c, 'a) gs_world" where
  "gs_call_await k r timeout ws w =
     (let (h, nd) = w; (a, reg) = host_recv_ref h r timeout ws (nd_registry nd)
      in (gs_call_answer k a, h, nd\<lparr>nd_registry := reg\<rparr>))"

definition gs_cast ::
  "('q, 'r, 'm) gs_codec \<Rightarrow> ('n, 'a) host_env \<Rightarrow> 'n pid option \<Rightarrow> 'm \<Rightarrow> ('n, 'c, 'a) gs_world
     \<Rightarrow> ('n, 'c, 'a) gs_world option" where
  "gs_cast k e target msg w =
     (let (h, nd) = w
      in case enc_cast k msg of
           None \<Rightarrow> None
         | Some bs \<Rightarrow> Some (h, host_send e h (DPid target) (0x01 # bs) nd))"

section \<open>Plain particles\<close>

text \<open>
  \<^verbatim>\<open>send!\<close> and \<^verbatim>\<open>recv!\<close>: a message that does not decode, or is no data, is dropped and the wait
  begins anew with the full timeout; \<open>wss\<close> has a schedule for each attempt, and when it is used up
  the particle still waits.
\<close>

definition sdk_send ::
  "('m \<Rightarrow> bytes option) \<Rightarrow> ('n, 'a) host_env \<Rightarrow> 'n destination \<Rightarrow> 'm \<Rightarrow> ('n, 'c, 'a) gs_world
     \<Rightarrow> ('n, 'c, 'a) gs_world option" where
  "sdk_send enc e dest msg w =
     (let (h, nd) = w in case enc msg of None \<Rightarrow> None | Some bs \<Rightarrow> Some (h, host_send e h dest bs nd))"

fun sdk_recv ::
  "(bytes \<Rightarrow> string + 'm) \<Rightarrow> 'n host_state \<Rightarrow> nat option \<Rightarrow> 'n schedule list \<Rightarrow> ('n, 'c) registry
     \<Rightarrow> 'm option option \<times> ('n, 'c) registry" where
  "sdk_recv dec h timeout [] reg = (None, reg)"
| "sdk_recv dec h timeout (ws # wss) reg =
     (case host_recv h timeout ws reg of
        (NoAnswer, reg1) \<Rightarrow> (None, reg1)
      | (Answer None, reg1) \<Rightarrow> (Some None, reg1)
      | (Answer (Some (WData data)), reg1) \<Rightarrow>
          (case dec data of
             Inr msg \<Rightarrow> (Some (Some msg), reg1)
           | Inl _ \<Rightarrow> sdk_recv dec h timeout wss reg1)
      | (Answer (Some _), reg1) \<Rightarrow> sdk_recv dec h timeout wss reg1)"

text \<open>
  What \<^verbatim>\<open>#[main]\<close> makes of a function: the body gets nothing, the arguments as they are, or the
  arguments decoded from JSON. A type counts as a string if its last path segment is \<^verbatim>\<open>String\<close>.
\<close>

datatype rust_type = TypePath "string list" | OtherType

datatype fn_arg = Receiver | Typed rust_type

datatype start_kind = StartPlain | StartString | StartTyped

definition is_string_type :: "rust_type \<Rightarrow> bool" where
  "is_string_type t = (case t of TypePath segments \<Rightarrow> segments \<noteq> [] \<and> last segments = ''String'' | OtherType \<Rightarrow> False)"

definition expand_main_fn :: "fn_arg list \<Rightarrow> start_kind" where
  "expand_main_fn inputs =
     (case inputs of
        [] \<Rightarrow> StartPlain
      | Typed t # _ \<Rightarrow> if is_string_type t then StartString else StartTyped
      | Receiver # _ \<Rightarrow> StartPlain)"

text \<open>The generated \<^verbatim>\<open>start\<close>, whose body takes what its kind gives it.\<close>

datatype 'x start_arg = NoArg | RawArg string | DecodedArg 'x

definition main_start ::
  "(string \<Rightarrow> string + 'x) \<Rightarrow> fn_arg list \<Rightarrow> ('x start_arg \<Rightarrow> 'w \<Rightarrow> (string + unit) \<times> 'w) \<Rightarrow> string \<Rightarrow> 'w
     \<Rightarrow> (string + unit) \<times> 'w" where
  "main_start from_init_args inputs body init_args w =
     (case expand_main_fn inputs of
        StartPlain \<Rightarrow> body NoArg w
      | StartString \<Rightarrow> body (RawArg init_args) w
      | StartTyped \<Rightarrow>
          (case from_init_args init_args of Inl er \<Rightarrow> (Inl er, w) | Inr x \<Rightarrow> body (DecodedArg x) w))"

text \<open>
  What \<^verbatim>\<open>#[gen_server]\<close> finds in an \<^verbatim>\<open>impl\<close> block: which handlers there are, and the types of the
  client methods it generates for them. A client method whose type was not found makes the macro panic.
\<close>

datatype impl_item = ImplFn string "fn_arg list" "rust_type option" | ImplOther

record gs_flags =
  has_init :: bool
  has_handle_call :: bool
  has_handle_cast :: bool
  has_handle_info :: bool
  call_req_ty :: "rust_type option"
  call_reply_ty :: "rust_type option"
  cast_msg_ty :: "rust_type option"

definition second_type :: "fn_arg list \<Rightarrow> rust_type option \<Rightarrow> rust_type option" where
  "second_type inputs old = (case inputs of _ # Typed t # _ \<Rightarrow> Some t | _ \<Rightarrow> old)"

definition gs_scan_item :: "impl_item \<Rightarrow> gs_flags \<Rightarrow> gs_flags" where
  "gs_scan_item item fl =
     (case item of
        ImplOther \<Rightarrow> fl
      | ImplFn name inputs output \<Rightarrow>
          if name = ''init'' then fl\<lparr>has_init := True\<rparr>
          else if name = ''handle_call'' then
            fl\<lparr>has_handle_call := True, call_req_ty := second_type inputs (call_req_ty fl),
               call_reply_ty := (case output of Some t \<Rightarrow> Some t | None \<Rightarrow> call_reply_ty fl)\<rparr>
          else if name = ''handle_cast'' then
            fl\<lparr>has_handle_cast := True, cast_msg_ty := second_type inputs (cast_msg_ty fl)\<rparr>
          else if name = ''handle_info'' then fl\<lparr>has_handle_info := True\<rparr>
          else fl)"

datatype gs_expansion = NotAStruct | MacroPanics | Expanded string gs_flags

definition expand_gen_server :: "rust_type \<Rightarrow> impl_item list \<Rightarrow> gs_expansion" where
  "expand_gen_server self_ty items =
     (case self_ty of
        OtherType \<Rightarrow> NotAStruct
      | TypePath segments \<Rightarrow>
          if segments = [] then MacroPanics
          else
            (let fl = fold gs_scan_item items
                   \<lparr>has_init = False, has_handle_call = False, has_handle_cast = False, has_handle_info = False,
                    call_req_ty = None, call_reply_ty = None, cast_msg_ty = None\<rparr>
             in if has_handle_call fl \<and> (call_req_ty fl = None \<or> call_reply_ty fl = None)
                   \<or> has_handle_cast fl \<and> cast_msg_ty fl = None
                then MacroPanics else Expanded (last segments) fl))"

section \<open>What a caller writes is what a server reads\<close>

definition plain_text :: "string \<Rightarrow> bool" where
  "plain_text s \<longleftrightarrow> (\<forall>c \<in> set s. (of_char c :: nat) < 128) \<and> length s < 2 ^ 32 - 4"

lemma unat_of_char: "unat (of_char c :: u8) = of_char c"
proof -
  have "(of_char c :: u8) = of_nat (of_char c)" by (simp only: of_nat_of_char)
  then show ?thesis by (simp only: unat_of_nat) (simp add: take_bit_eq_mod)
qed

lemma ascii_valid: "\<forall>b \<in> set bs. b < 0x80 \<Longrightarrow> valid_utf8 bs"
  by (induction bs) auto

lemma from_utf8_ascii:
  assumes "plain_text s"
  shows "from_utf8 (str_bytes s) = Some s"
proof -
  have "(of_char c :: u8) < 0x80" if "c \<in> set s" for c
    using assms that unfolding word_less_nat_alt unat_of_char by (simp add: plain_text_def)
  then have "valid_utf8 (str_bytes s)" by (intro ascii_valid) (auto simp: str_bytes_def)
  moreover have "map (\<lambda>b. char_of (unat b)) (str_bytes s) = s"
    by (simp add: str_bytes_def comp_def unat_of_char map_idI)
  ultimately show ?thesis by (simp add: from_utf8_def)
qed

lemma split_call_payload:
  assumes "plain_text who"
  shows "split_call_of (call_payload who request) = CallFrom who request"
proof -
  let ?n = "of_nat (length who) :: u32"
  have n: "unat ?n = length who" using assms by (simp add: plain_text_def unat_of_nat take_bit_eq_mod)
  then have m: "unat (4 + ?n) = 4 + length who"
    using assms by (simp add: plain_text_def unat_word_ariths)
  then have "\<not> 4 + ?n < 4" by (simp add: word_less_nat_alt)
  moreover have "u32_from_le (take 4 (call_payload who request)) = ?n"
    by (simp add: call_payload_def)
  ultimately show ?thesis
    using m from_utf8_ascii[OF assms]
    by (simp add: split_call_of_def Let_def call_payload_def str_bytes_def)
qed

section \<open>Delivery on the own node\<close>

lemma send_ref_here:
  assumes "h_registry h" and "node p = env_me e" and "state_of (nd_registry nd) p = Some u"
    and "\<not> closed (boxes (nd_registry nd) (mailbox_at u))"
  shows "host_send_ref e h (DPid (Some p)) r bs nd =
    on_registry (update_box (mailbox_at u)
      (\<lambda>mb. mb\<lparr>data_count := data_count mb + 1, queue := queue mb @ [Tagged r bs]\<rparr>)) nd"
  using assms
  by (simp add: host_send_ref_def deliver_to_def resolve_local_def is_local_to_def resolve_named_def
      if_registry_def on_registry_def send_tagged_to_pid_def push_tagged_def update_box_def)

lemma recv_ready:
  "queue mb = m # ms \<Longrightarrow>
   recv timeout ws mb = \<lparr>result = Got m, waited = 0, left = mb\<lparr>queue := ms,
     data_count := if counts_as_data m then data_count mb - 1 else data_count mb\<rparr>\<rparr>"
  by (cases ws; cases "hd ws") (simp_all add: recv_def poll_recv_def)

lemma show_pid_inj:
  assumes "show_pid c p = show_pid c q" and "node p = node q"
  shows "p = q"
proof -
  have "show_u64 (seq p) = show_u64 (seq q)"
    using assms by (simp add: show_pid_def node_prefix_def)
  then have "seq p = seq q" using parse_show_u64 by (metis option.inject)
  with assms(2) show ?thesis by (cases p; cases q) simp
qed

lemma find_unique:
  "x \<in> set xs \<Longrightarrow> P x \<Longrightarrow> \<forall>y \<in> set xs. P y \<longrightarrow> y = x \<Longrightarrow> find P xs = Some x"
proof (induction xs)
  case (Cons y ys)
  show ?case
  proof (cases "P y")
    case True
    then have "y = x" using Cons.prems(3) by (meson list.set_intros(1))
    with True show ?thesis by simp
  next
    case False
    then have "x \<in> set ys" using Cons.prems(1,2) by (metis set_ConsD)
    with False Cons.IH Cons.prems(2,3) show ?thesis by (metis find.simps(2) list.set_intros(2))
  qed
qed simp

lemma resolve_shown:
  assumes ok: "reg_ok reg" and p: "state_of reg p = Some u" and free: "get_by_name reg (show_pid c p) = None"
  shows "resolve_target c reg (show_pid c p) = Some p"
proof -
  have keys: "p \<in> set (hm_keys (particle_states reg))"
    using p by (simp add: hm_has_iff_keys[symmetric] hm_has_iff)
  have "q = p" if "q \<in> set (hm_keys (particle_states reg))" "show_pid c q = show_pid c p" for q
  proof -
    from that(1) obtain v where "state_of reg q = Some v"
      by (auto simp: hm_has_iff_keys[symmetric] hm_has_iff)
    then have "node q = node p" using ok p by (simp add: reg_ok_def)
    with that(2) show ?thesis by (rule show_pid_inj)
  qed
  then have "find (\<lambda>q. show_pid c q = show_pid c p) (hm_keys (particle_states reg)) = Some p"
    using keys by (intro find_unique) auto
  with free show ?thesis by (simp add: resolve_target_def)
qed

text \<open>The host of a live particle of the node, and its mailbox.\<close>

definition runs_here :: "('n, 'a) host_env \<Rightarrow> 'n host_state \<Rightarrow> ('n, 'c) registry \<Rightarrow> bool" where
  "runs_here e h reg \<longleftrightarrow>
     h_registry h \<and> me reg = env_me e \<and> h_mailbox h = map_option mailbox_at (state_of reg (h_pid h))
     \<and> particle_exists reg (h_pid h) \<and> \<not> closed (boxes reg (the (h_mailbox h)))"

definition box_of :: "'n host_state \<Rightarrow> ('n, 'c) registry \<Rightarrow> 'n mailbox" where
  "box_of h reg = boxes reg (the (h_mailbox h))"

definition put_tagged :: "u64 \<Rightarrow> bytes \<Rightarrow> 'n mailbox \<Rightarrow> 'n mailbox" where
  "put_tagged r bs mb = mb\<lparr>data_count := data_count mb + 1, queue := queue mb @ [Tagged r bs]\<rparr>"

lemma runs_here_box:
  assumes "runs_here e h reg"
  obtains u where "state_of reg (h_pid h) = Some u" and "h_mailbox h = Some (mailbox_at u)"
    and "\<not> closed (boxes reg (mailbox_at u))" and "h_registry h" and "me reg = env_me e"
  using assms by (auto simp: runs_here_def particle_exists_iff)

lemma send_ref_to:
  assumes ok: "reg_ok (nd_registry nd)" and h: "h_registry h" and to: "runs_here e ht (nd_registry nd)"
  shows "host_send_ref e h (DPid (Some (h_pid ht))) r bs nd =
    on_registry (update_box (the (h_mailbox ht)) (put_tagged r bs)) nd"
proof -
  obtain u where u: "state_of (nd_registry nd) (h_pid ht) = Some u" "h_mailbox ht = Some (mailbox_at u)"
    "\<not> closed (boxes (nd_registry nd) (mailbox_at u))" "me (nd_registry nd) = env_me e"
    using runs_here_box[OF to] by metis
  then have "node (h_pid ht) = env_me e" using ok by (simp add: reg_ok_def)
  from send_ref_here[where e = e and h = h and r = r and bs = bs, OF h this u(1,3)] u(2) show ?thesis
    by (simp add: put_tagged_def[abs_def])
qed

lemma boxes_apart:
  assumes ok: "reg_ok reg" and a: "runs_here e ha reg" and b: "runs_here e hb reg" and "h_pid ha \<noteq> h_pid hb"
  shows "the (h_mailbox ha) \<noteq> the (h_mailbox hb)"
proof -
  obtain u v where "state_of reg (h_pid ha) = Some u" "h_mailbox ha = Some (mailbox_at u)"
    "state_of reg (h_pid hb) = Some v" "h_mailbox hb = Some (mailbox_at v)"
    using runs_here_box[OF a] runs_here_box[OF b] by metis
  with ok assms(4) show ?thesis unfolding reg_ok_def by (metis option.sel)
qed

text \<open>What was put in an empty mailbox is received, and the mailbox is as before.\<close>

lemma recv_put:
  "queue mb = [] \<Longrightarrow>
   recv timeout ws (put_tagged r bs mb) = \<lparr>result = Got (Tagged r bs), waited = 0, left = mb\<rparr>"
  by (simp add: recv_ready put_tagged_def counts_as_data_def)

lemma recv_ref_put:
  assumes "\<forall>m \<in> set (queue mb). \<not> matches_ref r m"
  shows "recv_ref r timeout ws (put_tagged r bs mb) = \<lparr>result = Got (Tagged r bs), waited = 0, left = mb\<rparr>"
proof -
  have "matches_ref r (Tagged r bs)" by (simp add: matches_ref_def)
  from position_append_first[OF assms this, of "[]"]
  have "position (matches_ref r) (queue mb @ [Tagged r bs]) = Some (length (queue mb))" by simp
  then have "poll_recv_ref r (put_tagged r bs mb) = (Ready (Tagged r bs), mb)"
    using remove_at_append[of "queue mb" "Tagged r bs" "[]"]
    by (simp add: poll_recv_ref_def put_tagged_def Let_def is_tagged_def)
  then show ?thesis by (cases ws; cases "hd ws") (simp_all add: recv_ref_def)
qed

text \<open>What the two particles' mailboxes are while a call is on its way.\<close>

lemma update_box_back: "update_box a (\<lambda>_. boxes reg a) (update_box a f reg) = reg"
  by (simp add: update_box_def)

lemma on_registry_back [simp]: "(on_registry f nd)\<lparr>nd_registry := nd_registry nd\<rparr> = nd"
  by (simp add: on_registry_def)

lemma turn_on_call:
  assumes server: "runs_here e hs (nd_registry nd)" and idle: "queue (box_of hs (nd_registry nd)) = []"
    and f: "gs_handle_call g = Some f" and who: "plain_text who" and q: "dec_request k qb = Inr q"
  shows "gs_turn g k e ws (s, hs, on_registry (update_box (the (h_mailbox hs))
      (put_tagged r (call_payload who qb))) nd) =
    (let (response, s1, h1, nd1) = f q (s, hs, nd)
     in case enc_reply k response of
          None \<Rightarrow> (GsTrap, s1, h1, nd1)
        | Some rb \<Rightarrow> (GsContinue, s1, h1,
            case host_resolve e h1 who nd1 of
              Some from \<Rightarrow> host_send_ref e h1 (DPid (Some from)) r rb nd1 | None \<Rightarrow> nd1))"
proof -
  let ?nd = "on_registry (update_box (the (h_mailbox hs)) (put_tagged r (call_payload who qb))) nd"
  obtain a where a: "h_mailbox hs = Some a" using runs_here_box[OF server] by metis
  have "host_recv hs None ws (nd_registry ?nd) =
      (Answer (Some (WTagged r (call_payload who qb))), nd_registry nd)"
    using recv_put[of "boxes (nd_registry nd) a" None ws r "call_payload who qb"] idle a
    by (simp add: host_recv_def on_registry_def update_box_def box_of_def received_to_wit_def
        mailbox_message_to_wit_def)
  then show ?thesis
    using f q by (simp add: gs_turn_def gs_handle_def gs_tagged_def split_call_payload[OF who])
qed

lemma await_reply:
  assumes client: "runs_here e hc (nd_registry nd)"
    and fresh: "\<forall>m \<in> set (queue (box_of hc (nd_registry nd))). \<not> matches_ref r m"
    and hc1: "h_mailbox hc1 = h_mailbox hc"
  shows "gs_call_await k r timeout ws (hc1, on_registry (update_box (the (h_mailbox hc)) (put_tagged r rb)) nd) =
    (Some (case dec_reply k rb of Inl er \<Rightarrow> Inl (CallDecode er) | Inr rp \<Rightarrow> Inr rp), hc1, nd)"
proof -
  let ?nd = "on_registry (update_box (the (h_mailbox hc)) (put_tagged r rb)) nd"
  obtain a where a: "h_mailbox hc = Some a" using runs_here_box[OF client] by metis
  have "host_recv_ref hc1 r timeout ws (nd_registry ?nd) = (Answer (Some (WTagged r rb)), nd_registry nd)"
    using recv_ref_put[of "boxes (nd_registry nd) a" r timeout ws rb] fresh a hc1
    by (simp add: host_recv_ref_def on_registry_def update_box_def box_of_def received_to_wit_def
        mailbox_message_to_wit_def)
  then show ?thesis by (simp add: gs_call_await_def gs_call_answer_def)
qed

text \<open>
  C24: a call is answered. Between two live particles of one node, a call to an idle server whose
  handler leaves the node alone returns, within one turn of the server and whatever the timeout,
  exactly the response of \<^verbatim>\<open>handle_call\<close> to exactly the request that was made; the server has the
  state its handler gave it, and the node is left exactly as it was. What it takes is that no
  particle is registered under the text the caller is shown as, for that name would get the reply.
\<close>

theorem call_answered:
  assumes "reg_reachable (nd_registry nd)"
    and client: "runs_here e hc (nd_registry nd)" and server: "runs_here e hs (nd_registry nd)"
    and idle: "queue (box_of hs (nd_registry nd)) = []"
    and fresh: "\<forall>m \<in> set (queue (box_of hc (nd_registry nd))). \<not> matches_ref (h_next_ref hc) m"
    and who: "plain_text (show_pid (env_codec e) (h_pid hc))"
      "get_by_name (nd_registry nd) (show_pid (env_codec e) (h_pid hc)) = None"
    and codec: "enc_request k q = Some qb" "dec_request k qb = Inr q" "enc_reply k rp = Some rb" "dec_reply k rb = Inr rp"
    and f: "gs_handle_call g = Some f" "f q (s, hs, nd) = (rp, s1, hs, nd)"
  shows "\<exists>r hc1 nd1 nd2. gs_call_send k e (Some (h_pid hs)) q (hc, nd) = Some (r, hc1, nd1)
    \<and> gs_turn g k e ws (s, hs, nd1) = (GsContinue, s1, hs, nd2)
    \<and> gs_call_await k r timeout vs (hc1, nd2) = (Some (Inr rp), hc1, nd)"
proof -
  let ?reg = "nd_registry nd" and ?r = "h_next_ref hc" and ?hc1 = "snd (make_ref hc)"
    and ?who = "show_pid (env_codec e) (h_pid hc)"
  let ?nd1 = "on_registry (update_box (the (h_mailbox hs)) (put_tagged ?r (call_payload ?who qb))) nd"
  let ?nd2 = "on_registry (update_box (the (h_mailbox hc)) (put_tagged ?r rb)) nd"
  have ok: "reg_ok ?reg" by (rule reg_inv_ok[OF reg_inv_reachable[OF assms(1)]])
  obtain u where u: "state_of ?reg (h_pid hc) = Some u" "h_registry hc"
    using runs_here_box[OF client] by metis
  have reg: "h_registry ?hc1" "h_registry hs" "h_mailbox ?hc1 = h_mailbox hc"
    using u(2) runs_here_box[OF server] by (auto simp: make_ref_def)
  have "gs_call_send k e (Some (h_pid hs)) q (hc, nd) = Some (?r, ?hc1, ?nd1)"
    using send_ref_to[OF ok reg(1) server] codec(1) by (simp add: gs_call_send_def make_ref_def)
  moreover have "host_resolve e hs ?who nd = Some (h_pid hc)"
    using resolve_shown[OF ok u(1) who(2)] reg(2) by (simp add: host_resolve_def)
  then have "gs_turn g k e ws (s, hs, ?nd1) = (GsContinue, s1, hs, ?nd2)"
    using send_ref_to[OF ok reg(2) client] codec(3) f(2)
    by (simp add: turn_on_call[OF server idle f(1) who(1) codec(2)])
  moreover have "gs_call_await k ?r timeout vs (?hc1, ?nd2) = (Some (Inr rp), ?hc1, nd)"
    using await_reply[OF client fresh reg(3), of k timeout vs rb] codec(4) by simp
  ultimately show ?thesis by blast
qed

section \<open>Calls to another node\<close>

lemma show_pid_prefix:
  assumes "show_pid c p = show_pid c q"
  shows "node_prefix c p = node_prefix c q"
proof -
  have dot: "CHR ''.'' \<notin> set (show_u64 (seq x) @ ''>'')" for x :: "'a pid"
    using dot_notin_show_u64 by simp
  have "rsplit_once CHR ''.'' (tl (show_pid c x)) = Some (node_prefix c x, show_u64 (seq x) @ ''>'')" for x
    using rsplit_once_append[OF dot[of x], of "node_prefix c x"] by (simp add: show_pid_def)
  with assms show ?thesis by (metis option.inject prod.inject)
qed

lemma node_prefix_bytes:
  "\<forall>bs. hex_decode c (hex_encode c bs) = Some bs \<Longrightarrow> node_prefix c p = node_prefix c q \<Longrightarrow> take 4 (as_bytes c (node p)) = take 4 (as_bytes c (node q))"
  unfolding node_prefix_def by (metis option.inject)

lemma resolve_far:
  assumes ok: "reg_ok reg" and c: "\<forall>bs. hex_decode c (hex_encode c bs) = Some bs"
    and free: "get_by_name reg (show_pid c p) = None"
    and far: "take 4 (as_bytes c (node p)) \<noteq> take 4 (as_bytes c (me reg))"
  shows "resolve_target c reg (show_pid c p) = None"
proof -
  have "show_pid c q \<noteq> show_pid c p" if q: "q \<in> set (hm_keys (particle_states reg))" for q
  proof -
    from q obtain v where "state_of reg q = Some v"
      by (auto simp: hm_has_iff_keys[symmetric] hm_has_iff)
    then have "node q = me reg" using ok by (simp add: reg_ok_def)
    then show ?thesis using far show_pid_prefix node_prefix_bytes[OF c] by metis
  qed
  then have "find (\<lambda>q. show_pid c q = show_pid c p) (hm_keys (particle_states reg)) = None"
    by (auto simp: find_None_iff)
  with free show ?thesis by (simp add: resolve_target_def)
qed

lemma deliver_peer:
  assumes "runs_here e hs (nd_registry nd)"
  shows "handle_peer_message ser now (PDeliver \<lparr>env_target = APid (h_pid hs), env_ref = Some r, env_payload = bs\<rparr>) nd =
    on_registry (update_box (the (h_mailbox hs)) (put_tagged r bs)) nd"
proof -
  obtain u where "state_of (nd_registry nd) (h_pid hs) = Some u" "h_mailbox hs = Some (mailbox_at u)"
    "\<not> closed (boxes (nd_registry nd) (mailbox_at u))"
    using runs_here_box[OF assms] by metis
  then show ?thesis
    by (simp add: handle_peer_message_def resolve_addressee_def on_registry_def send_tagged_to_pid_def
        push_tagged_def put_tagged_def update_box_def)
qed

lemma await_nothing:
  assumes client: "runs_here e hc reg" and "\<forall>m \<in> set (queue (box_of hc reg)). \<not> matches_ref r m"
    and "h_mailbox hc1 = h_mailbox hc" and "nd_registry nd = reg"
  shows "fst (gs_call_await k r (Some d) [] (hc1, nd)) = Some (Inl CallTimeout)"
    and "fst (gs_call_await k r None [] (hc1, nd)) = None"
proof -
  obtain a where a: "h_mailbox hc = Some a" "\<not> closed (boxes reg a)" using runs_here_box[OF client] by metis
  then have "poll_recv_ref r (boxes reg a) = (Wait, boxes reg a)"
    using assms(2) by (simp add: poll_recv_ref_def box_of_def position_None_iff[THEN iffD2])
  then show "fst (gs_call_await k r (Some d) [] (hc1, nd)) = Some (Inl CallTimeout)"
    "fst (gs_call_await k r None [] (hc1, nd)) = None"
    using a assms(3,4)
    by (simp_all add: gs_call_await_def host_recv_ref_def recv_ref_def received_to_wit_def gs_call_answer_def)
qed

text \<open>
  C38: a call to a server on another node is never answered. The request crosses, the server runs
  its handler on it and changes its state, but the reply goes nowhere: the caller is named by the
  text its pid is shown as, which only a particle of the server's own node answers to, so the
  server's node is left exactly as before the request came and not one frame leaves it. The caller
  gets its timeout, or, having none, waits forever.
\<close>

theorem remote_call_unanswered:
  assumes "reg_reachable (nd_registry nd)" and c: "env_codec e = c" "env_codec e' = c" "\<forall>bs. hex_decode c (hex_encode c bs) = Some bs"
    and client: "runs_here e' hc (nd_registry ndc)" and server: "runs_here e hs (nd_registry nd)"
    and idle: "queue (box_of hs (nd_registry nd)) = []"
    and fresh: "\<forall>m \<in> set (queue (box_of hc (nd_registry ndc))). \<not> matches_ref (h_next_ref hc) m"
    and parts: "h_endpoint hc" "h_peers hc"
    and nodes: "env_me e' \<noteq> env_me e" "node (h_pid hc) = env_me e'"
      "take 4 (as_bytes c (env_me e')) \<noteq> take 4 (as_bytes c (env_me e))"
    and who: "plain_text (show_pid c (h_pid hc))" "get_by_name (nd_registry nd) (show_pid c (h_pid hc)) = None"
    and codec: "enc_request k q = Some qb" "dec_request k qb = Inr q" "enc_reply k rp = Some rb"
    and f: "gs_handle_call g = Some f" "f q (s, hs, nd) = (rp, s1, hs, nd)"
  shows "\<exists>env hc1 ndc1. gs_call_send k e' (Some (h_pid hs)) q (hc, ndc) = Some (h_next_ref hc, hc1, ndc1)
    \<and> ndc1 = do_links (env_ser e') [LSend (env_me e) (PDeliver env)] ndc
    \<and> gs_turn g k e ws (s, hs, handle_peer_message ser now (PDeliver env) nd) = (GsContinue, s1, hs, nd)
    \<and> fst (gs_call_await k (h_next_ref hc) (Some d) [] (hc1, ndc1)) = Some (Inl CallTimeout)
    \<and> fst (gs_call_await k (h_next_ref hc) None [] (hc1, ndc1)) = None"
proof -
  let ?reg = "nd_registry nd" and ?hc1 = "snd (make_ref hc)" and ?who = "show_pid c (h_pid hc)"
  let ?env = "\<lparr>env_target = APid (h_pid hs), env_ref = Some (h_next_ref hc), env_payload = call_payload ?who qb\<rparr>"
  let ?ndc1 = "do_links (env_ser e') [LSend (env_me e) (PDeliver ?env)] ndc"
  have ok: "reg_ok ?reg" by (rule reg_inv_ok[OF reg_inv_reachable[OF assms(1)]])
  obtain u where u: "state_of ?reg (h_pid hs) = Some u" "h_registry hs" "me ?reg = env_me e"
    using runs_here_box[OF server] by metis
  then have home: "node (h_pid hs) = env_me e" using ok by (simp add: reg_ok_def)
  have same: "h_mailbox ?hc1 = h_mailbox hc" "nd_registry ?ndc1 = nd_registry ndc"
    by (simp_all add: make_ref_def do_links_def)
  have "gs_call_send k e' (Some (h_pid hs)) q (hc, ndc) = Some (h_next_ref hc, ?hc1, ?ndc1)"
    using codec(1) nodes(1) c(2) parts home
    by (simp add: gs_call_send_def make_ref_def host_send_ref_def deliver_to_def resolve_local_def
        is_local_to_def send_control_def)
  moreover have "host_resolve e hs ?who nd = None"
    using resolve_far[OF ok c(3) who(2)] nodes(2,3) u(3) c(1) by (simp add: host_resolve_def)
  then have "gs_turn g k e ws (s, hs, handle_peer_message ser now (PDeliver ?env) nd) = (GsContinue, s1, hs, nd)"
    using codec(3) f(2) by (simp add: deliver_peer[OF server] turn_on_call[OF server idle f(1) who(1) codec(2)])
  moreover note await_nothing[OF client fresh same]
  ultimately show ?thesis by blast
qed

section \<open>What a message can do to a server\<close>

lemma wraps_iff: "n < 2 ^ 32 \<Longrightarrow> (4 + n) mod 2 ^ 32 < 4 \<longleftrightarrow> 2 ^ 32 - 4 \<le> (n :: nat)"
proof (cases "n < 2 ^ 32 - 4")
  case False
  assume "n < 2 ^ 32"
  with False have "(4 + n) mod 2 ^ 32 = 4 + n - 2 ^ 32" by (subst le_mod_geq) simp_all
  with False \<open>n < 2 ^ 32\<close> show ?thesis by simp
qed simp

lemma split_panics_iff:
  "split_call_of p = SplitPanics \<longleftrightarrow> 4 \<le> length p \<and> 2 ^ 32 - 4 \<le> unat (u32_from_le (take 4 p))"
proof -
  let ?n = "u32_from_le (take 4 p)"
  have "(4 + ?n < 4) = (2 ^ 32 - 4 \<le> unat ?n)"
    using wraps_iff[of "unat ?n"] unsigned_less[of ?n, where 'a = nat]
    by (simp add: word_less_nat_alt unat_word_ariths)
  moreover have "4 + ?n < 4 \<Longrightarrow> 4 \<le> length p \<Longrightarrow> \<not> length p < unat (4 + ?n)"
    by (simp add: word_less_nat_alt)
  ultimately show ?thesis
    by (cases "length p < 4"; cases "4 + ?n < 4") (auto simp: split_call_of_def Let_def split: option.splits)
qed

text \<open>
  C39: what crashes a server. However small the message, a tagged payload whose first four bytes
  say a length within four of 2 to the 32 ends an idle server with a trap: the 32-bit sum with
  the header wraps around and the slice it bounds ends before it begins. Nothing has to be a call
  for that, and any particle can send it. No other payload traps, as long as replies can be
  encoded: a header too short or too long, text that is no UTF-8 and a request that does not
  decode are each skipped and the server goes on.
\<close>

theorem header_crashes_server:
  assumes "reg_reachable (nd_registry nd)" and "h_registry h"
    and server: "runs_here e hs (nd_registry nd)" and idle: "queue (box_of hs (nd_registry nd)) = []"
    and f: "gs_handle_call g = Some f" and encodes: "\<forall>x. enc_reply k x \<noteq> None"
  shows "fst (gs_turn g k e ws (s, hs, host_send_ref e h (DPid (Some (h_pid hs))) r p nd)) =
    (if 4 \<le> length p \<and> 2 ^ 32 - 4 \<le> unat (u32_from_le (take 4 p)) then GsTrap else GsContinue)"
proof -
  let ?nd = "host_send_ref e h (DPid (Some (h_pid hs))) r p nd"
  have sent: "?nd = on_registry (update_box (the (h_mailbox hs)) (put_tagged r p)) nd"
    by (rule send_ref_to[OF reg_inv_ok[OF reg_inv_reachable[OF assms(1)]] assms(2) server])
  define enc where "enc x = the (enc_reply k x)" for x
  have enc: "enc_reply k x = Some (enc x)" for x using encodes by (simp add: enc_def)
  obtain a where a: "h_mailbox hs = Some a" using runs_here_box[OF server] by metis
  have "host_recv hs None ws (nd_registry ?nd) = (Answer (Some (WTagged r p)), nd_registry nd)"
    using recv_put[of "boxes (nd_registry nd) a" None ws r p] idle a unfolding sent
    by (simp add: host_recv_def on_registry_def update_box_def box_of_def received_to_wit_def
        mailbox_message_to_wit_def)
  then have "fst (gs_turn g k e ws (s, hs, ?nd)) = fst (gs_tagged g k e r p (s, hs, nd))"
    by (simp add: gs_turn_def gs_handle_def sent)
  moreover have "fst (gs_tagged g k e r p w) = (if split_call_of p = SplitPanics then GsTrap else GsContinue)" for w
    using f enc by (auto simp: gs_tagged_def split: split_call.split sum.split prod.split)
  ultimately show ?thesis by (simp add: split_panics_iff)
qed

section \<open>A counter\<close>

text \<open>Particle 3 of the demonstration node counts; particle 4, and particle 1 of node 9, call it.\<close>

definition byte_gs_codec :: "(u8, u8, u8) gs_codec" where
  "byte_gs_codec =
     (let de = (\<lambda>bs. case bs of [x] \<Rightarrow> Inr x | _ \<Rightarrow> Inl ''decode error'')
      in \<lparr>enc_request = (\<lambda>x. Some [x]), dec_request = de, enc_reply = (\<lambda>x. Some [x]), dec_reply = de,
          enc_cast = (\<lambda>x. Some [x]), dec_cast = de\<rparr>)"

definition counter :: "(u8, u8, u8, u8, (nat, unit, nat) gs_world) gen_server" where
  "counter = \<lparr>gs_init = None, gs_default = 0, gs_handle_call = Some (\<lambda>q (s, w). (s + q, s + q, w)),
     gs_handle_cast = Some (\<lambda>m (s, w). (CastContinue, s + m, w)), gs_handle_info = None\<rparr>"

definition counter_host :: "nat host_state" where
  "counter_host = host_started (Pid 0 3) None policy_empty 2"

definition far_env :: "(nat, nat) host_env" where
  "far_env = demo_env\<lparr>env_me := 9\<rparr>"

definition far_host :: "nat host_state" where
  "far_host = host_started (Pid 9 1) None policy_empty 0"

lemma counter_runs: "runs_here demo_env counter_host (nd_registry demo_node)"
  "queue (box_of counter_host (nd_registry demo_node)) = []" "gs_handle_call counter \<noteq> None"
  by code_simp+

lemma plain_textI: "list_all (\<lambda>c. (of_char c :: nat) < 128) s \<Longrightarrow> length s < 100 \<Longrightarrow> plain_text s"
  by (simp add: plain_text_def list_all_iff)

lemma counter_codec:
  "enc_request byte_gs_codec x = Some [x]" "dec_request byte_gs_codec [x] = Inr x"
  "enc_reply byte_gs_codec x = Some [x]" "dec_reply byte_gs_codec [x] = Inr x"
  by (simp_all add: byte_gs_codec_def Let_def)

theorem call_answered_witness:
  "\<exists>r hc1 nd1 nd2. gs_call_send byte_gs_codec demo_env (Some (Pid 0 3)) 5 (demo_host, demo_node) = Some (r, hc1, nd1)
    \<and> gs_turn counter byte_gs_codec demo_env [] (7, counter_host, nd1) = (GsContinue, 12, counter_host, nd2)
    \<and> gs_call_await byte_gs_codec r (Some 0) [] (hc1, nd2) = (Some (Inr 12), hc1, demo_node)"
proof -
  have reach: "reg_reachable (nd_registry demo_node)"
    by (simp add: demo_node_def demo_reachable_at)
  have client: "runs_here demo_env demo_host (nd_registry demo_node)"
    "\<forall>m \<in> set (queue (box_of demo_host (nd_registry demo_node))). \<not> matches_ref (h_next_ref demo_host) m"
    "get_by_name (nd_registry demo_node) (show_pid (env_codec demo_env) (h_pid demo_host)) = None"
    by code_simp+
  have who: "plain_text (show_pid (env_codec demo_env) (h_pid demo_host))"
    by (rule plain_textI) code_simp+
  have f: "gs_handle_call counter = Some (\<lambda>q (s, w). (s + q, s + q, w))" by (simp add: counter_def)
  have "h_pid counter_host = Pid 0 3" by code_simp
  from call_answered[OF reach client(1) counter_runs(1,2) client(2) who client(3) counter_codec f,
      of 5 7 "12" "12", unfolded this]
  show ?thesis by simp
qed

theorem remote_call_unanswered_witness:
  "\<exists>env hc1 ndc1. gs_call_send byte_gs_codec far_env (Some (Pid 0 3)) 5 (far_host, far_node)
      = Some (h_next_ref far_host, hc1, ndc1)
    \<and> gs_turn counter byte_gs_codec demo_env []
        (7, counter_host, handle_peer_message one_ser 0 (PDeliver env) demo_node) = (GsContinue, 12, counter_host, demo_node)
    \<and> fst (gs_call_await byte_gs_codec (h_next_ref far_host) (Some 10) [] (hc1, ndc1)) = Some (Inl CallTimeout)"
proof -
  let ?c = "env_codec demo_env"
  have reach: "reg_reachable (nd_registry demo_node)"
    by (simp add: demo_node_def demo_reachable_at)
  have byte: "unat x mod 256 = unat x" for x :: u8
    using unsigned_less[of x, where 'a = nat] by simp
  have c: "env_codec demo_env = ?c" "env_codec far_env = ?c" "\<forall>bs. hex_decode ?c (hex_encode ?c bs) = Some bs"
    by (simp_all add: far_env_def demo_env_def comp_def byte map_idI)
  have client: "runs_here far_env far_host (nd_registry far_node)"
    "\<forall>m \<in> set (queue (box_of far_host (nd_registry far_node))). \<not> matches_ref (h_next_ref far_host) m"
    "h_endpoint far_host" "h_peers far_host" "env_me far_env \<noteq> env_me demo_env" "node (h_pid far_host) = env_me far_env"
    "take 4 (as_bytes ?c (env_me far_env)) \<noteq> take 4 (as_bytes ?c (env_me demo_env))"
    "get_by_name (nd_registry demo_node) (show_pid ?c (h_pid far_host)) = None"
    by code_simp+
  have who: "plain_text (show_pid ?c (h_pid far_host))"
    by (rule plain_textI) code_simp+
  have f: "gs_handle_call counter = Some (\<lambda>q (s, w). (s + q, s + q, w))" by (simp add: counter_def)
  have "h_pid counter_host = Pid 0 3" by code_simp
  from remote_call_unanswered[OF reach c client(1) counter_runs(1,2) client(2-7) who client(8) counter_codec(1-3) f,
      of 5 7 "12" "12" "[]" one_ser 0 10, unfolded this]
  show ?thesis by auto
qed

theorem header_crashes_server_witness:
  "fst (gs_turn counter byte_gs_codec demo_env [] (7, counter_host,
      host_send_ref demo_env demo_host (DPid (Some (Pid 0 3))) 1 [255, 255, 255, 255] demo_node)) = GsTrap"
proof -
  have reach: "reg_reachable (nd_registry demo_node)"
    by (simp add: demo_node_def demo_reachable_at)
  have h: "h_registry demo_host" and p: "h_pid counter_host = Pid 0 3" by code_simp+
  have f: "gs_handle_call counter = Some (\<lambda>q (s, w). (s + q, s + q, w))" by (simp add: counter_def)
  have enc: "\<forall>x. enc_reply byte_gs_codec x \<noteq> None" by (simp add: counter_codec)
  have "unat (u32_from_le (take 4 [255, 255, 255, 255])) = 4294967295" by (simp add: u32_from_le_def)
  with header_crashes_server[OF reach h counter_runs(1,2) f enc, of "[]" 7 1 "[255, 255, 255, 255]"]
  show ?thesis by (simp add: p)
qed

end
