(* ===== verification/Node_Steps.thy ===== *)
theory Node_Steps
  imports Hosts
begin

text \<open>
  A node's whole life as a step relation: everything that can happen to a node (messages of peers,
  requests, connections, losses, the calls of its particles, the orders of its operator) is one
  step, and one invariant holds in every state the steps can reach. Whatever changes the registry
  does so by operations of the registry, so what \<open>Registry_Laws\<close> proves of a reachable registry
  holds of the registry of every node.
\<close>

section \<open>The registry of a node moves by registry steps\<close>

abbreviation reg_runs :: "('n, 'c) registry \<Rightarrow> ('n, 'c) registry \<Rightarrow> bool" where
  "reg_runs \<equiv> reg_step\<^sup>*\<^sup>*"

lemma reg_runs_reachable: "reg_runs reg reg' \<Longrightarrow> reg_reachable reg \<Longrightarrow> reg_reachable reg'"
  by (induction rule: rtranclp_induct) (auto intro: rr_step)

lemma exit_particle_me [simp]: "pid_generator (exit_particle p reason reg) = pid_generator reg"
  by (simp only: exit_particle_def exit_work_me)

lemma update_state_me [simp]: "pid_generator (update_state p f reg) = pid_generator reg"
  by (simp add: update_state_def)

lemma update_box_me [simp]: "pid_generator (update_box a f reg) = pid_generator reg"
  by (simp add: update_box_def)

lemma spawn_me: "me (snd (spawn cname name caps reg)) = me reg"
  by (simp add: spawn_def spawn_raced_def Let_def split_def next_pid_def split: option.splits)

lemma reg_step_me: "reg_step reg reg' \<Longrightarrow> me reg' = me reg"
proof (induction rule: reg_step.induct)
  case (st_spawn cname name caps reg res reg')
  then show ?case using spawn_me by (metis snd_conv)
next
  case (st_link a b reg res reg')
  then show ?case by (auto simp: link_def split: if_splits)
next
  case (st_monitor w t reg res' reg')
  then show ?case by (auto simp: monitor_def Let_def split: if_splits option.splits)
qed (auto simp: register_component_def send_to_pid_def send_tagged_to_pid_def send_system_def unlink_def
      link_remote_def unlink_remote_def monitor_with_ref_def monitor_remote_def demonitor_def Let_def
      set_trap_exit_def register_name_def unregister_name_def inherited_me apply_directed_exit_def
      forget_node_def split: sum.splits option.splits if_splits)

lemma reg_runs_me: "reg_runs reg reg' \<Longrightarrow> me reg' = me reg"
  by (induction rule: rtranclp_induct) (auto simp: reg_step_me)

named_theorems runs \<open>operations of a node that are runs of registry steps\<close>

lemma runs_refl [runs]: "reg_runs reg reg"
  by simp

lemma runs_step: "reg_step reg reg' \<Longrightarrow> reg_runs reg reg'"
  by (rule r_into_rtranclp)

lemma runs_prims [runs]:
  "reg_runs reg (snd (send_to_pid p msg reg))"
  "reg_runs reg (snd (send_tagged_to_pid p r msg reg))"
  "reg_runs reg (deliver_exit p q reason reg)"
  "reg_runs reg (deliver_down p q r reason reg)"
  "reg_runs reg (update_box a f reg)"
  "reg_runs reg (snd (link p q reg))"
  "reg_runs reg (unlink p q reg)"
  "reg_runs reg (monitor_with_ref p q r reg)"
  "reg_runs reg (monitor_remote p q r reg)"
  "reg_runs reg (demonitor p r reg)"
  "reg_runs reg (set_trap_exit p b reg)"
  "reg_runs reg (snd (register_name p nm reg))"
  "reg_runs reg (snd (unregister_name p nm reg))"
  "reg_runs reg (exit_particle p reason reg)"
  "reg_runs reg (apply_inherited_exit p q reason reg)"
  "reg_runs reg (apply_directed_exit p q reason reg)"
  "reg_runs reg (forget_node n reg)"
  "reg_runs reg (snd (register_component compile cname binary caps reg))"
  unfolding deliver_exit_def deliver_down_def
  by (rule runs_step, rule reg_step.intros; simp add: prod_eq_iff)+

lemma runs_foldl:
  assumes "\<And>x r. reg_runs r (f r x)"
  shows "reg_runs reg (foldl f reg xs)"
proof (induction xs arbitrary: reg)
  case (Cons x xs)
  then show ?case using assms by (metis foldl_Cons rtranclp_trans)
qed simp

lemma runs_kill_losers [runs]: "reg_runs reg (kill_losers ls reg)"
proof (induction ls reg rule: kill_losers.induct)
  case (2 nm loser winner ls reg)
  then show ?case using runs_prims(16) by (metis kill_losers.simps(2) rtranclp_trans)
qed simp

lemma runs_node_lost [runs]: "reg_runs reg (node_lost n reg)"
proof -
  obtain ls ms where r: "relationships_with_node n reg = (ls, ms)" by fastforce
  let ?reg1 = "foldl (\<lambda>r (local, remote). apply_inherited_exit local remote NoConnection r) reg ls"
  let ?reg2 = "foldl (\<lambda>r (watcher, target, ref_id). deliver_down watcher target ref_id NoConnection r) ?reg1 ms"
  have "reg_runs reg ?reg1" by (rule runs_foldl) (simp add: split_def runs_prims)
  also have "reg_runs ?reg1 ?reg2" by (rule runs_foldl) (simp add: split_def runs_prims)
  also have "reg_runs ?reg2 (forget_node n ?reg2)" by (rule runs_prims)
  finally show ?thesis by (simp add: node_lost_def r)
qed

lemma runs_node_losses [runs]: "reg_runs reg (node_loss_reactor es reg)"
proof (induction es reg rule: node_loss_reactor.induct)
  case (2 n es reg)
  then show ?case using runs_node_lost by (metis node_loss_reactor.simps(2) rtranclp_trans)
qed simp_all

definition room :: "('n, 'c) registry \<Rightarrow> bool" where
  "room reg \<longleftrightarrow> next_seq (pid_generator reg) \<noteq> - 1"

lemma runs_spawn: "room reg \<Longrightarrow> reg_runs reg (snd (spawn cname name caps reg))"
  by (rule runs_step, rule st_spawn[OF prod.collapse[symmetric]]) (simp add: room_def)

lemma runs_spawns [runs]:
  assumes "room reg"
  shows "reg_runs reg (snd (host_spawn w cname name args reg))"
    and "reg_runs reg (snd (local_spawn w cname name args reg))"
    and "reg_runs reg (snd (handle_spawn w req reg))"
    and "reg_runs reg (snd (runtime_spawn w cname name caps args reg))"
    and "reg_runs reg (snd (host_spawn_link w parent cname name args reg))"
proof -
  note sp = runs_spawn[OF assms]
  show "reg_runs reg (snd (host_spawn w cname name args reg))"
    using sp by (auto simp: host_spawn_def split: option.splits prod.splits sum.splits) (metis snd_conv)+
  show "reg_runs reg (snd (local_spawn w cname name args reg))"
    using sp by (auto simp: local_spawn_def split: option.splits prod.splits sum.splits) (metis snd_conv)+
  show "reg_runs reg (snd (handle_spawn w req reg))"
    using sp by (auto simp: handle_spawn_def split: option.splits prod.splits sum.splits) (metis snd_conv)+
  show "reg_runs reg (snd (runtime_spawn w cname name caps args reg))"
    using sp by (auto simp: runtime_spawn_def Let_def split: option.splits prod.splits sum.splits) (metis snd_conv)+
  have "reg_runs reg (snd (link parent p reg1))" if "spawn cname name c reg = (r, reg1)" for c r p reg1
    using sp[of cname name c] that runs_prims(6) by (metis rtranclp_trans snd_conv)
  with sp show "reg_runs reg (snd (host_spawn_link w parent cname name args reg))"
    by (auto simp: host_spawn_link_def Let_def split: option.splits prod.splits sum.splits) (metis snd_conv)+
qed

section \<open>What holds of every node\<close>

definition node_ok :: "'n \<Rightarrow> ('n, 'c, 'a) node_state \<Rightarrow> bool" where
  "node_ok m nd \<longleftrightarrow>
     reg_reachable (nd_registry nd) \<and> me (nd_registry nd) = m \<and>
     cluster_inv (nd_cluster nd) \<and> cl_me (nd_cluster nd) = m \<and>
     pt_me (reports (nd_part nd)) = m \<and> hm_wf (seen (reports (nd_part nd))) \<and>
     links_inv (nd_peers nd) \<and> book_ok (nd_peers nd)"

text \<open>Each part of a node can change on its own.\<close>

lemma node_ok_registry:
  "node_ok m nd \<Longrightarrow> reg_runs (nd_registry nd) reg \<Longrightarrow> node_ok m (nd\<lparr>nd_registry := reg\<rparr>)"
  by (simp add: node_ok_def reg_runs_reachable reg_runs_me)

lemma node_ok_on_registry:
  "node_ok m nd \<Longrightarrow> reg_runs (nd_registry nd) (f (nd_registry nd)) \<Longrightarrow> node_ok m (on_registry f nd)"
  unfolding on_registry_def by (rule node_ok_registry)

lemma node_ok_links: "node_ok m nd \<Longrightarrow> node_ok m (do_links ser ops nd)"
  by (simp add: node_ok_def do_links_def links_inv_run book_run[THEN conjunct1])

lemma node_ok_cluster:
  "node_ok m nd \<Longrightarrow> cluster_inv cl \<Longrightarrow> cl_me cl = m \<Longrightarrow> node_ok m (set_cluster cl nd)"
  by (simp add: node_ok_def set_cluster_def)

lemma node_ok_part:
  "node_ok m nd \<Longrightarrow> cluster_inv (roster part) \<Longrightarrow> cl_me (roster part) = m \<Longrightarrow> pt_me (reports part) = m \<Longrightarrow>
   hm_wf (seen (reports part)) \<Longrightarrow> node_ok m (nd\<lparr>nd_part := part\<rparr>)"
  by (simp add: node_ok_def)

lemma node_ok_rest [simp]:
  "node_ok m (nd\<lparr>nd_global := g\<rparr>) = node_ok m nd" "node_ok m (nd\<lparr>nd_tasks := ts\<rparr>) = node_ok m nd"
  by (simp_all add: node_ok_def)

lemma node_ok_sync_with_all [simp]: "node_ok m (sync_with_all ns nd) = node_ok m nd"
  by (simp add: sync_with_all_def)

lemma book_ok_send: "book_ok pl \<Longrightarrow> book_ok (snd (peer_send ser n m pl))"
  by (simp add: book_ok_def peer_send_known)

lemma announce_loop_keeps:
  "links_inv pl \<Longrightarrow> links_inv (announce_loop ser ks ns pl)"
  "book_ok pl \<Longrightarrow> book_ok (announce_loop ser ks ns pl)"
  by (induction ser ks ns pl rule: announce_loop.induct)
    (simp_all add: Let_def links_inv_send book_ok_send)

lemma node_ok_announce_to: "node_ok m nd \<Longrightarrow> node_ok m (announce_to ser ns nd)"
  by (simp add: node_ok_def announce_to_def announce_loop_keeps)

lemma node_ok_learn:
  assumes "node_ok m nd" and "learn now ns (nd_cluster nd) = (fresh, cl)"
  shows "node_ok m (set_cluster cl nd)"
  using assms(1) learn_spec[OF assms(2)] by (intro node_ok_cluster) (auto simp: node_ok_def)

lemma node_ok_joins:
  assumes "node_ok m nd"
  shows "node_ok m (accept_connection ser now n nd)" and "node_ok m (join ser now n nd)"
    and "node_ok m (join_at ser now a nd)"
proof -
  show "node_ok m (accept_connection ser now n nd)"
    using node_ok_learn[OF assms]
    by (auto simp: accept_connection_def Let_def intro: node_ok_announce_to split: prod.splits)
  show "node_ok m (join ser now n nd)"
    unfolding join_def by (rule node_ok_announce_to, rule node_ok_learn[OF assms prod.collapse[symmetric]])
  show "node_ok m (join_at ser now a nd)"
    unfolding join_at_def Let_def
    by (simp, rule node_ok_announce_to, rule node_ok_learn[OF node_ok_links[OF assms] prod.collapse[symmetric]])
qed

lemma node_ok_announce:
  assumes "node_ok m nd"
  shows "node_ok m (handle_announce ser now nodes nd)"
proof -
  obtain fresh cl where l: "learn now (map addr_id nodes) (nd_cluster (do_links ser (map LRemember nodes) nd)) = (fresh, cl)"
    by fastforce
  have "node_ok m (set_cluster cl (do_links ser (map LRemember nodes) nd))"
    by (rule node_ok_learn[OF node_ok_links[OF assms] l])
  then show ?thesis
    unfolding handle_announce_def Let_def l prod.case
    by (auto intro!: node_ok_announce_to split: list.split)
qed

lemma node_ok_message:
  fixes nd :: "('n, 'c, 'a) node_state"
  assumes ok: "node_ok m nd" and honest: "\<And>p t. msg = PLink p t \<or> msg = PUnlink p t \<Longrightarrow> node p \<noteq> m"
  shows "node_ok m (handle_peer_message ser now msg nd)"
proof -
  have far: "node p \<noteq> me (nd_registry nd)" if "msg = PLink p t \<or> msg = PUnlink p t" for p t
    using honest[OF that] ok by (simp add: node_ok_def)
  have remote: "reg_runs (nd_registry nd) (link_remote t p (nd_registry nd))"
      "reg_runs (nd_registry nd) (unlink_remote t p (nd_registry nd))"
    if "node p \<noteq> me (nd_registry nd)" for t p
    using that by (auto intro: runs_step reg_step.intros)
  have part: "node_ok m (do_links ser ops (nd\<lparr>nd_part := part\<rparr>))"
    if "cluster_inv (roster part)" "cl_me (roster part) = m" "pt_me (reports part) = m"
      "hm_wf (seen (reports part))" for part ops
    by (rule node_ok_links[OF node_ok_part[OF ok that]])
  have cl: "cluster_inv (nd_cluster nd)" "cl_me (nd_cluster nd) = m" "pt_me (reports (nd_part nd)) = m"
    "hm_wf (seen (reports (nd_part nd)))" using ok by (simp_all add: node_ok_def)
  have q: "cluster_inv (snd (quarantine now n (nd_cluster nd)))" "cl_me (snd (quarantine now n (nd_cluster nd))) = m" for n
    using quarantine_spec[OF prod.collapse[symmetric], of now n "nd_cluster nd"] cl(1,2) by simp_all
  show ?thesis
  proof (cases msg)
    case (PLostConnection reporter lost op_id)
    obtain part ops where l: "on_lost_connection now reporter lost op_id (nd_part nd) = (part, ops :: ('n, 'a) link_op list)"
      by fastforce
    have "cluster_inv (roster part) \<and> cl_me (roster part) = m \<and> pt_me (reports part) = m \<and> hm_wf (seen (reports part))"
      using l cl q accept_me[of now reporter lost op_id "reports (nd_part nd)"]
        accept_wf[of "reports (nd_part nd)" now reporter lost op_id]
      by (auto simp: on_lost_connection_def disconnect_deliberately_def Let_def split_def split: if_splits)
    with part[of part ops] l PLostConnection show ?thesis by (simp add: handle_peer_message_def)
  next
    case (PRemoveConnection p)
    with part[of "(nd_part nd)\<lparr>roster := snd (quarantine now p (nd_cluster nd))\<rparr>"] cl q show ?thesis
      by (simp add: handle_peer_message_def on_remove_connection_def disconnect_deliberately_def)
  qed (use ok far remote in \<open>auto simp: handle_peer_message_def intro!: node_ok_announce node_ok_links
      node_ok_on_registry runs split: option.splits\<close>)
qed

lemma node_ok_reporter:
  fixes ops :: "('n, 'a) link_op list"
  assumes "loss_reporter es part = (part', ops)"
    and "cluster_inv (roster part)" and "hm_wf (seen (reports part))"
  shows "cluster_inv (roster part') \<and> cl_me (roster part') = cl_me (roster part)
    \<and> pt_me (reports part') = pt_me (reports part) \<and> hm_wf (seen (reports part'))"
  using assms
proof (induction es arbitrary: part part' ops)
  case (Cons ev es)
  obtain now b where ev: "ev = (now, b)" by fastforce
  show ?case
  proof (cases b)
    case (BcOk lost)
    obtain known cl where q: "is_quarantined now lost (roster part) = (known, cl)" by fastforce
    have cl: "cluster_inv cl" "cl_me cl = cl_me (roster part)"
      using cluster_inv_is_quarantined[OF Cons.prems(2), of now lost] is_quarantined_barred[OF q] q by simp_all
    show ?thesis
    proof (cases known)
      case True
      with Cons.IH[of "part\<lparr>roster := cl\<rparr>" part' ops] Cons.prems ev BcOk q cl show ?thesis by simp
    next
      case False
      obtain op_id pt where n: "next_op_id (reports part) = (op_id, pt)" by fastforce
      then have pt: "pt_me pt = pt_me (reports part)" "hm_wf (seen pt)"
        using Cons.prems(3) by (auto simp: next_op_id_def)
      obtain part1 and ops1 :: "('n, 'a) link_op list"
        where r: "loss_reporter es (part\<lparr>roster := cl, reports := pt\<rparr>) = (part1, ops1)"
        by fastforce
      then have "part' = part1" using Cons.prems(1) ev BcOk q n False by simp
      with Cons.IH[OF r] cl pt show ?thesis by simp
    qed
  qed (use Cons ev in auto)
qed simp

lemma node_ok_signals:
  "links_inv pl \<Longrightarrow> links_inv (signal_forwarder ser es pl)"
  "book_ok pl \<Longrightarrow> book_ok (signal_forwarder ser es pl)"
  by (induction ser es pl rule: signal_forwarder.induct)
    (simp_all add: links_inv_run book_run[THEN conjunct1])

lemma forget_keeps [simp]:
  "cl_me (snd (forget n cl)) = cl_me cl" "cluster_inv cl \<Longrightarrow> cluster_inv (snd (forget n cl))"
  using forget_spec[OF prod.collapse[symmetric], of n cl] by simp_all

lemma node_ok_members:
  "cluster_inv cl \<Longrightarrow> cluster_inv (membership_reactor es cl)"
  "cl_me (membership_reactor es cl) = cl_me cl"
  by (induction es cl rule: membership_reactor.induct) simp_all

lemma runs_sync:
  "reg_runs (nd_registry nd) (snd (fst (sync_with d (nd_global nd, nd_registry nd) there)))"
  by (auto simp: sync_with_def Let_def runs split: prod.splits global_response.splits)

section \<open>What particles ask keeps it\<close>

lemma node_ok_if_registry:
  "node_ok m nd \<Longrightarrow> reg_runs (nd_registry nd) (f (nd_registry nd)) \<Longrightarrow> node_ok m (if_registry h f nd)"
  by (simp add: if_registry_def node_ok_on_registry)

lemma node_ok_send_control: "node_ok m nd \<Longrightarrow> node_ok m (send_control e h n msg nd)"
  by (simp add: send_control_def node_ok_links)

lemma elsewhere_far:
  "where_to e h dest = Elsewhere n (APid p) \<Longrightarrow> node p \<noteq> env_me e"
  by (auto simp: resolve_local_def is_local_to_def split: destination.splits option.splits if_splits)

lemma node_ok_far:
  assumes "node_ok (env_me e) nd" and "where_to e h dest = Elsewhere n (APid q)"
  shows "node_ok (env_me e) (if_registry h (link_remote p q) nd)"
    and "node_ok (env_me e) (if_registry h (unlink_remote p q) nd)"
proof -
  have "node q \<noteq> me (nd_registry nd)" using elsewhere_far[OF assms(2)] assms(1) by (simp add: node_ok_def)
  then show "node_ok (env_me e) (if_registry h (link_remote p q) nd)"
    "node_ok (env_me e) (if_registry h (unlink_remote p q) nd)"
    using assms(1) by (auto intro!: node_ok_if_registry runs_step intro: reg_step.intros)
qed

lemma node_ok_asks:
  assumes ok: "node_ok (env_me e) nd"
  shows "node_ok (env_me e) (host_send e h dest msg nd)"
    and "node_ok (env_me e) (host_send_ref e h dest r msg nd)"
    and "node_ok (env_me e) (host_link e h dest nd)"
    and "node_ok (env_me e) (host_unlink e h dest nd)"
    and "node_ok (env_me e) (snd (snd (host_monitor e h dest nd)))"
    and "node_ok (env_me e) (host_demonitor h r nd)"
    and "node_ok (env_me e) (host_trap_exit h b nd)"
    and "node_ok (env_me e) (host_exit h reason nd)"
    and "node_ok (env_me e) (host_exit_signal e h dest reason nd)"
    and "node_ok (env_me e) (snd (host_register h nm nd))"
    and "node_ok (env_me e) (snd (host_unregister h nm nd))"
proof -
  note intros = node_ok_if_registry node_ok_send_control ok runs node_ok_far[OF ok]
  have deliver: "node_ok (env_me e) (deliver_to e h dest rf msg nd)" for rf
    by (auto simp: deliver_to_def intro!: intros split: local_target.split option.split)
  show "node_ok (env_me e) (host_send e h dest msg nd)" "node_ok (env_me e) (host_send_ref e h dest r msg nd)"
    by (simp_all add: host_send_def host_send_ref_def deliver)
  have l: "reg_runs reg (case link p t reg of (Inr (), reg1) \<Rightarrow> reg1
      | (Inl _, reg1) \<Rightarrow> deliver_exit q q NoProc reg1)" for p t q and reg :: "('n, 'b) registry"
  proof -
    obtain out reg1 where k: "link p t reg = (out, reg1)" by fastforce
    then have r: "reg_runs reg reg1" using runs_prims(6) by (metis snd_conv)
    show ?thesis
    proof (cases out)
      case (Inl er)
      with rtranclp_trans[OF r runs_prims(3)] k show ?thesis by simp
    next
      case (Inr x)
      then have "link p t reg = (Inr (), reg1)" using k by simp
      with r show ?thesis by (simp only: prod.case sum.case old.unit.case)
    qed
  qed
  show "node_ok (env_me e) (host_link e h dest nd)"
    by (auto simp: host_link_def intro!: intros l split: local_target.split option.split addressee.split)
  show "node_ok (env_me e) (host_unlink e h dest nd)"
    by (auto simp: host_unlink_def intro!: intros split: local_target.split option.split addressee.split)
  show "node_ok (env_me e) (snd (snd (host_monitor e h dest nd)))"
    by (auto simp: host_monitor_def Let_def split_def intro!: intros split: local_target.split option.split addressee.split)
  show "node_ok (env_me e) (host_demonitor h r nd)" "node_ok (env_me e) (host_trap_exit h b nd)"
    "node_ok (env_me e) (host_exit h reason nd)"
    by (auto simp: host_demonitor_def host_trap_exit_def host_exit_def intro!: intros)
  show "node_ok (env_me e) (host_exit_signal e h dest reason nd)"
    by (auto simp: host_exit_signal_def Let_def intro!: intros split: local_target.split option.split)
  obtain out reg where k: "register_name (h_pid h) nm (nd_registry nd) = (out, reg)" by fastforce
  then have "node_ok (env_me e) (nd\<lparr>nd_registry := reg\<rparr>)"
    using node_ok_registry[OF ok] runs_prims(12) by (metis snd_conv)
  then show "node_ok (env_me e) (snd (host_register h nm nd))"
    using ok k by (simp add: host_register_def split: sum.split unit.split)
  obtain out reg where k: "unregister_name (h_pid h) nm (nd_registry nd) = (out, reg)" by fastforce
  then have "node_ok (env_me e) (nd\<lparr>nd_registry := reg\<rparr>)"
    using node_ok_registry[OF ok] runs_prims(13) by (metis snd_conv)
  then show "node_ok (env_me e) (snd (host_unregister h nm nd))"
    using ok k by (simp add: host_unregister_def split: sum.split unit.split)
qed

section \<open>The steps of a node\<close>

text \<open>
  A peer that links or unlinks speaks for a particle of its own, as \<open>host_link\<close> makes it do; a
  spawn is possible while the pid counter has not reached its last value.
\<close>

definition honest :: "'n \<Rightarrow> ('n, 'a) peer_message \<Rightarrow> bool" where
  "honest m msg \<longleftrightarrow> (case msg of PLink p _ \<Rightarrow> node p \<noteq> m | PUnlink p _ \<Rightarrow> node p \<noteq> m | _ \<Rightarrow> True)"

inductive node_step ::
  "('n :: linorder, 'a) host_env \<Rightarrow> ('c, 't) wasm \<Rightarrow> ('n, 'c, 'a) node_state \<Rightarrow> ('n, 'c, 'a) node_state \<Rightarrow> bool"
  for e :: "('n :: linorder, 'a) host_env" and w :: "('c, 't) wasm" where
  n_message: "honest (env_me e) msg \<Longrightarrow> node_step e w nd (handle_peer_message (env_ser e) now msg nd)"
| n_command: "room (nd_registry nd) \<Longrightarrow> node_step e w nd (snd (dispatch_command w dbg cmd nd))"
| n_accept: "node_step e w nd (accept_connection (env_ser e) now n nd)"
| n_join: "node_step e w nd (join (env_ser e) now n nd)"
| n_join_at: "node_step e w nd (join_at (env_ser e) now a nd)"
| n_path: "node_step e w nd (do_links (env_ser e) [LIncoming n addr] nd)"
| n_signals: "node_step e w nd (nd\<lparr>nd_peers := signal_forwarder (env_ser e) ds (nd_peers nd)\<rparr>)"
| n_losses: "node_step e w nd (on_registry (node_loss_reactor ns) nd)"
| n_members: "node_step e w nd (set_cluster (membership_reactor ns (nd_cluster nd)) nd)"
| n_reports: "loss_reporter ls (nd_part nd) = (part, ops) \<Longrightarrow>
    node_step e w nd (do_links (env_ser e) ops (nd\<lparr>nd_part := part\<rparr>))"
| n_sync: "sync_with d (nd_global nd, nd_registry nd)
      (there :: 'n global_names \<times> ('n, 'c) registry) = ((g, reg), there') \<Longrightarrow>
    node_step e w nd (nd\<lparr>nd_global := g, nd_registry := reg, nd_tasks := remove1 n (nd_tasks nd)\<rparr>)"
| n_claim: "tables gr (env_me e) = nd_global nd \<Longrightarrow>
    node_step e w nd (nd\<lparr>nd_global := tables (snd (host_global_register h (env_me e) nm cl counts gr)) (env_me e)\<rparr>)"
| n_unclaim: "tables gr (env_me e) = nd_global nd \<Longrightarrow>
    node_step e w nd (nd\<lparr>nd_global := tables (host_global_unregister h (env_me e) nm (nd_cluster nd) gr) (env_me e)\<rparr>)"
| n_names: "tables gr (env_me e) = nd_global nd \<Longrightarrow>
    node_step e w nd (nd\<lparr>nd_global := tables (death_reactor (env_me e) (nd_cluster nd) ds gr) (env_me e)\<rparr>)"
| n_send: "node_step e w nd (host_send e h dest payload nd)"
| n_send_ref: "node_step e w nd (host_send_ref e h dest r payload nd)"
| n_link: "node_step e w nd (host_link e h dest nd)"
| n_unlink: "node_step e w nd (host_unlink e h dest nd)"
| n_monitor: "node_step e w nd (snd (snd (host_monitor e h dest nd)))"
| n_demonitor: "node_step e w nd (host_demonitor h r nd)"
| n_trap_exit: "node_step e w nd (host_trap_exit h b nd)"
| n_exit: "node_step e w nd (host_exit h reason nd)"
| n_exit_signal: "node_step e w nd (host_exit_signal e h dest reason nd)"
| n_register: "node_step e w nd (snd (host_register h nm nd))"
| n_unregister: "node_step e w nd (snd (host_unregister h nm nd))"
| n_recv: "node_step e w nd (on_registry (\<lambda>reg. snd (host_recv h timeout ws reg)) nd)"
| n_recv_ref: "node_step e w nd (on_registry (\<lambda>reg. snd (host_recv_ref h r timeout ws reg)) nd)"
| n_spawn: "room (nd_registry nd) \<Longrightarrow> node_step e w nd (snd (host_spawn_call h w cname name args nd))"
| n_spawn_link: "room (nd_registry nd) \<Longrightarrow> node_step e w nd (snd (host_spawn_link_call h w cname name args nd))"
| n_spawn_reply: "h_mailbox (h :: 'n host_state) = Some a \<Longrightarrow>
    node_step e w nd (on_registry (update_box a (\<lambda>mb. push_spawn_reply mb r out)) nd)"
| n_ended: "node_step e w nd (on_registry (particle_ended w p ending) nd)"
| n_load: "node_step e w nd (on_registry (\<lambda>reg. snd (register_component compile cname binary caps reg)) nd)"
| n_start: "room (nd_registry nd) \<Longrightarrow>
    node_step e w nd (on_registry (\<lambda>reg. snd (runtime_spawn w cname name caps args reg)) nd)"

definition node_new :: "'n \<Rightarrow> ('n, 'a) endpoint_addr \<Rightarrow> ('n, 'c, 'a) node_state" where
  "node_new m addr =
     \<lparr>nd_registry = registry_new (pid_gen_new m), nd_peers = peer_links_new addr,
      nd_part = \<lparr>roster = cluster_new m, reports = partitions_new m\<rparr>, nd_global = global_new m, nd_tasks = []\<rparr>"

inductive node_reachable ::
  "('n :: linorder, 'a) host_env \<Rightarrow> ('c, 't) wasm \<Rightarrow> ('n, 'c, 'a) node_state \<Rightarrow> bool"
  for e :: "('n :: linorder, 'a) host_env" and w :: "('c, 't) wasm" where
  nr_new: "node_reachable e w (node_new (env_me e) addr)"
| nr_step: "node_reachable e w nd \<Longrightarrow> node_step e w nd nd' \<Longrightarrow> node_reachable e w nd'"

lemma node_ok_new: "node_ok m (node_new m addr)"
proof -
  have "me (registry_new (pid_gen_new m)) = m" by (simp add: registry_new_def pid_gen_new_def)
  moreover have "book_ok (peer_links_new addr)" by (simp add: book_ok_def peer_links_new_def)
  moreover have "cl_me (cluster_new m) = m" by (simp add: cluster_new_def)
  ultimately show ?thesis
    by (simp add: node_ok_def node_new_def rr_new cluster_inv_new partitions_new_def links_inv_new)
qed

lemma node_ok_command:
  assumes ok: "node_ok m nd" and room: "room (nd_registry nd)"
  shows "node_ok m (snd (dispatch_command w dbg cmd nd))"
proof -
  have send: "reg_runs reg (snd (handle_send dbg req reg))" for req and reg :: "('a, 'b) registry"
  proof -
    have "reg_runs reg (case send_to_pid p msg reg of (Inr (), reg1) \<Rightarrow> reg1 | (Inl er, reg1) \<Rightarrow> reg1)" for p msg
      using runs_prims(1)[of reg p msg] by (simp add: split_def split: sum.split unit.split)
    then show ?thesis
      using runs_prims(1)
      by (auto simp: handle_send_def split_def split: option.split sum.split unit.split)
  qed
  have sync: "reg_runs (nd_registry nd) (snd (snd (answer_sync theirs (nd_global nd, nd_registry nd))))" for theirs
    by (auto simp: answer_sync_def Let_def runs split: prod.split)
  have ok': "node_ok m (nd\<lparr>nd_global := g, nd_registry := reg\<rparr>)" if "reg_runs (nd_registry nd) reg" for g reg
    using node_ok_registry[OF ok that] by (simp add: node_ok_def)
  show ?thesis
    using ok node_ok_registry[OF ok send] node_ok_registry[OF ok runs_spawns(3)[OF room]] ok'[OF sync]
    by (auto simp: dispatch_command_def split_def Let_def split: command.split global_request.split)
qed

lemma node_ok_step:
  assumes "node_step e w nd nd'" and ok: "node_ok (env_me e) nd"
  shows "node_ok (env_me e) nd'"
  using assms
proof (induction rule: node_step.induct)
  case (n_message msg nd now)
  then show ?case by (intro node_ok_message) (auto simp: honest_def)
next
  case (n_signals nd ds)
  then show ?case by (simp add: node_ok_def node_ok_signals)
next
  case (n_members nd ns)
  then show ?case by (intro node_ok_cluster) (auto simp: node_ok_def node_ok_members)
next
  case (n_reports ls nd part ops)
  then show ?case
    using node_ok_reporter[OF n_reports(1)] by (intro node_ok_links node_ok_part) (auto simp: node_ok_def)
next
  case (n_sync d nd there g reg there' n)
  then have "reg_runs (nd_registry nd) reg" using runs_sync[of nd d there] by simp
  then show ?case using node_ok_registry[OF n_sync.prems] by (simp add: node_ok_def)
next
  case (n_recv nd h timeout ws)
  then show ?case
    by (intro node_ok_on_registry) (auto simp: host_recv_def Let_def runs_prims split: option.split)
next
  case (n_recv_ref nd h r timeout ws)
  then show ?case
    by (intro node_ok_on_registry) (auto simp: host_recv_ref_def Let_def runs_prims split: option.split)
next
  case (n_spawn nd h cname name args)
  then show ?case
    by (auto simp: host_spawn_call_def Let_def split_def intro: node_ok_registry runs_spawns)
next
  case (n_spawn_link nd h cname name args)
  then show ?case
    by (auto simp: host_spawn_link_call_def Let_def split_def intro: node_ok_registry runs_spawns)
next
  case (n_ended nd p ending)
  then show ?case by (intro node_ok_on_registry) (auto simp: particle_ended_def runs_prims)
qed (simp_all add: node_ok_command node_ok_joins node_ok_links node_ok_on_registry node_ok_asks runs)

lemma node_ok_reachable: "node_reachable e w nd \<Longrightarrow> node_ok (env_me e) nd"
  by (induction rule: node_reachable.induct) (auto intro: node_ok_new node_ok_step)

text \<open>
  C8: what holds of a node at every moment. Whatever peers, clients, particles and the operator
  make a node do, in whatever order, as long as peers link only on behalf of their own particles:
  its registry is one that the registry's own operations reach, so everything proved of those
  holds of it; every particle it has is its own, and every link between two of them is known to both
  and held once; it never lists itself among the members of the cluster, nor anybody twice; it
  reports partitions under its own name; and every address it has learned is for the node it is
  filed under and can be dialled.
\<close>

theorem node_invariant:
  assumes "node_reachable e w nd"
  shows "reg_reachable (nd_registry nd)
    \<and> (\<forall>p st. state_of (nd_registry nd) p = Some st \<longrightarrow> node p = env_me e \<and> distinct (links st)
        \<and> (\<forall>q \<in> set (links st). node q = env_me e \<longrightarrow>
             (\<exists>st'. state_of (nd_registry nd) q = Some st' \<and> p \<in> set (links st'))))
    \<and> env_me e \<notin> set (members (nd_cluster nd)) \<and> distinct (members (nd_cluster nd))
    \<and> pt_me (reports (nd_part nd)) = env_me e
    \<and> (\<forall>n a. hm_get (known (nd_peers nd)) n = Some a \<longrightarrow> addr_id a = n \<and> addrs a \<noteq> [])"
proof -
  note ok = node_ok_reachable[OF assms, unfolded node_ok_def]
  have inv: "reg_inv (nd_registry nd)" using ok reg_inv_reachable by blast
  have "node p = env_me e \<and> distinct (links st)
      \<and> (\<forall>q \<in> set (links st). node q = env_me e \<longrightarrow>
          (\<exists>st'. state_of (nd_registry nd) q = Some st' \<and> p \<in> set (links st')))"
    if st: "state_of (nd_registry nd) p = Some st" for p st
  proof -
    have "node p = env_me e" using inv ok st by (simp add: reg_inv_def reg_ok_def)
    moreover have "links_of (nd_registry nd) p = Some (links st)" using st by (simp add: links_of_def)
    with inv ok have "distinct (links st)" "\<forall>q \<in> set (links st). node q = env_me e \<longrightarrow>
        (\<exists>ls'. links_of (nd_registry nd) q = Some ls' \<and> p \<in> set ls')"
      by (auto simp: reg_inv_def links_ok_def)
    ultimately show ?thesis by (auto simp: links_of_def)
  qed
  moreover have "env_me e \<notin> set (members (nd_cluster nd))" "distinct (members (nd_cluster nd))"
    using ok by (auto simp: cluster_inv_def)
  ultimately show ?thesis using ok by (simp add: book_ok_def)
qed

text \<open>Node 0 loads a component, starts a particle and is joined by node 9.\<close>

definition lived :: "nat \<Rightarrow> (nat, unit, nat) node_state" where
  "lived k =
     (let nd0 = node_new 0 \<lparr>addr_id = 0, addrs = []\<rparr>;
          nd1 = on_registry (\<lambda>reg. snd (register_component (\<lambda>_. Inr ()) ''c'' [] policy_empty reg)) nd0;
          nd2 = on_registry (\<lambda>reg. snd (runtime_spawn plain_wasm ''c'' None None [] reg)) nd1
      in if k = 0 then nd0 else if k = 1 then nd1 else if k = 2 then nd2
         else accept_connection (env_ser demo_env) 0 9 nd2)"

lemma lived_reachable: "node_reachable demo_env plain_wasm (lived 3)"
proof -
  have me: "env_me demo_env = 0" by (simp add: demo_env_def)
  have "node_reachable demo_env plain_wasm (lived 0)"
    using nr_new[of demo_env plain_wasm] by (simp add: lived_def me)
  then have "node_reachable demo_env plain_wasm (lived 1)"
    using nr_step n_load[of demo_env plain_wasm "lived 0"] by (fastforce simp: lived_def)
  moreover have "room (nd_registry (lived 1))" by code_simp
  ultimately have "node_reachable demo_env plain_wasm (lived 2)"
    using nr_step n_start[of "lived 1" demo_env plain_wasm] by (fastforce simp: lived_def)
  then show ?thesis
    using nr_step n_accept[of demo_env plain_wasm "lived 2"] by (fastforce simp: lived_def)
qed

theorem node_invariant_witness:
  "particle_exists (nd_registry (lived 3)) (Pid 0 1) \<and> members (nd_cluster (lived 3)) = [9]
   \<and> 0 \<notin> set (members (nd_cluster (lived 3))) \<and> reg_reachable (nd_registry (lived 3))"
proof -
  have "particle_exists (nd_registry (lived 3)) (Pid 0 1) \<and> members (nd_cluster (lived 3)) = [9]" by code_simp
  moreover have "env_me demo_env = 0" by (simp add: demo_env_def)
  ultimately show ?thesis using node_invariant[OF lived_reachable] by simp
qed

section \<open>Names of the dead\<close>

text \<open>
  A component that has called \<^verbatim>\<open>exit\<close> goes on running, and the registry lets it take a name: the
  name then belongs to a dead pid, the end of the component does not release it, and no particle
  can be spawned under it any more.
\<close>

lemma dead_holds_name:
  assumes "reg_reachable (nd_registry nd)" and h: "h_registry h"
    and free: "lookup_name (nd_registry (host_exit h r nd)) n = None"
    and taken: "host_register h n (host_exit h r nd) = (out, nd2)"
  shows "out = Inr () \<and> lookup_name (nd_registry nd2) n = Some (h_pid h)
    \<and> \<not> particle_exists (nd_registry nd2) (h_pid h)
    \<and> particle_ended w (h_pid h) ending (nd_registry nd2) = nd_registry nd2
    \<and> fst (spawn cname (Some n) caps (nd_registry nd2)) = Inl (NameTaken n)"
proof -
  let ?p = "h_pid h"
  define reg1 where "reg1 = exit_particle ?p (wit_exit_reason_to_internal r) (nd_registry nd)"
  have reg: "nd_registry (host_exit h r nd) = reg1"
    using h by (simp add: host_exit_def if_registry_def on_registry_def reg1_def)
  have dead: "\<not> particle_exists reg1 ?p"
    using exit_particle_alive[of ?p _ "nd_registry nd" ?p] unfolding reg1_def by (auto intro: reached.seed)
  have "register_name ?p n reg1 = (Inr (), reg1\<lparr>names := hm_insert n ?p (names reg1)\<rparr>)"
    using free by (simp add: reg lookup_name_def register_name_def hm_has_iff)
  then have nd2: "out = Inr ()" "nd_registry nd2 = reg1\<lparr>names := hm_insert n ?p (names reg1)\<rparr>"
    using taken h by (auto simp: host_register_def reg split: unit.splits)
  then have gone: "\<not> particle_exists (nd_registry nd2) ?p" using dead by (simp add: particle_exists_def)
  then have none: "state_of (nd_registry nd2) ?p = None" by (simp add: particle_exists_iff)
  have "particle_ended w ?p ending (nd_registry nd2) = nd_registry nd2"
    by (simp only: particle_ended_def exit_particle_def exit_work.simps none option.case)
  moreover have "fst (spawn cname (Some n) caps (nd_registry nd2)) = Inl (NameTaken n)"
    by (simp add: spawn_def spawn_raced_def nd2(2) hm_has_iff)
  ultimately show ?thesis using nd2 gone by (simp add: lookup_name_def)
qed

end
