(* ===== verification/Mesh.thy ===== *)
theory Mesh
  imports Node_Steps
begin

text \<open>
  The mesh of nodes that announcements build (\<^verbatim>\<open>announce_to\<close>, the \<^verbatim>\<open>Announce\<close> arm of
  \<^verbatim>\<open>handle_peer_message\<close> and \<^verbatim>\<open>accept\<close> of \<^verbatim>\<open>src/protocol.rs\<close>, \<^verbatim>\<open>join\<close> and \<^verbatim>\<open>join_at\<close> of
  \<^verbatim>\<open>src/runtime/engine.rs\<close>), over all the nodes at once: whether one introduction is enough for
  everybody to know everybody, and whether the announcements ever stop.

  A mesh is the state of every node and the announcements that have been sent and not yet handled.
  The handlers are those of \<open>Nodes\<close>; \<open>announcements_link\<close> and the lemmas after it say that what they
  queue on the peer links is what the mesh has in flight. No node is lost in a mesh.
\<close>

section \<open>What a node announces\<close>

definition announcement :: "('n, 'c, 'a) node_state \<Rightarrow> 'n \<Rightarrow> ('n, 'a) endpoint_addr list" where
  "announcement nd n =
     our_addr (nd_peers nd) # addrs_for (nd_peers nd) (filter (\<lambda>m. m \<noteq> n) (cl_nodes (nd_cluster nd)))"

type_synonym ('n, 'a) announced = "'n \<times> ('n, 'a) endpoint_addr list"

definition announcements :: "'n list \<Rightarrow> ('n, 'c, 'a) node_state \<Rightarrow> ('n, 'a) announced list" where
  "announcements ns nd = map (\<lambda>n. (n, announcement nd n)) ns"

definition on_links :: "('n, 'a) announced list \<Rightarrow> ('n, 'a) link_op list" where
  "on_links ms = map (\<lambda>(n, nodes). LSend n (PAnnounce nodes)) ms"

definition learned_of :: "nat \<Rightarrow> 'n list \<Rightarrow> ('n, 'c, 'a) node_state \<Rightarrow> 'n list" where
  "learned_of now ns nd = fst (learn now ns (nd_cluster nd))"

definition learning :: "nat \<Rightarrow> 'n list \<Rightarrow> ('n, 'c, 'a) node_state \<Rightarrow> ('n, 'c, 'a) node_state" where
  "learning now ns nd = set_cluster (snd (learn now ns (nd_cluster nd))) nd"

definition join_sends :: "nat \<Rightarrow> 'n \<Rightarrow> ('n, 'c, 'a) node_state \<Rightarrow> ('n, 'a) announced list" where
  "join_sends now peer nd = announcements [peer] (learning now [peer] nd)"

definition accept_sends :: "nat \<Rightarrow> 'n \<Rightarrow> ('n, 'c, 'a) node_state \<Rightarrow> ('n, 'a) announced list" where
  "accept_sends now remote nd =
     (if learned_of now [remote] nd = [] then [] else announcements [remote] (learning now [remote] nd))"

definition remembering ::
  "('n, 'a) peer_message serializer \<Rightarrow> ('n, 'a) endpoint_addr list \<Rightarrow> ('n, 'c, 'a) node_state \<Rightarrow> ('n, 'c, 'a) node_state" where
  "remembering ser nodes nd = do_links ser (map LRemember nodes) nd"

text \<open>The sender is told when the roster holds anybody it did not name.\<close>

definition unnamed :: "'n list \<Rightarrow> ('n, 'c, 'a) node_state \<Rightarrow> bool" where
  "unnamed ids nd = list_ex (\<lambda>n. n \<noteq> hd ids \<and> n \<notin> set ids) (cl_nodes (nd_cluster nd))"

definition announce_sends ::
  "('n, 'a) peer_message serializer \<Rightarrow> nat \<Rightarrow> ('n, 'a) endpoint_addr list \<Rightarrow> ('n, 'c, 'a) node_state
     \<Rightarrow> ('n, 'a) announced list" where
  "announce_sends ser now nodes nd =
     (let ids = map addr_id nodes; nd1 = remembering ser nodes nd; nd2 = learning now ids nd1
      in announcements
           (learned_of now ids nd1 @ (if ids \<noteq> [] \<and> unnamed ids nd2 then [hd ids] else [])) nd2)"

section \<open>The handlers queue these announcements\<close>

lemma peer_send_addr [simp]: "our_addr (snd (peer_send ser n m pl)) = our_addr pl"
  by (simp add: peer_send_def link_to_def our_addr_def Let_def split: sum.splits option.splits)

lemma announce_loop_links:
  "announce_loop ser ks ns pl =
   foldl (link_apply ser) pl
     (on_links (map (\<lambda>n. (n, our_addr pl # addrs_for pl (filter (\<lambda>m. m \<noteq> n) ks))) ns))"
  by (induction ser ks ns pl rule: announce_loop.induct)
    (simp_all add: on_links_def link_apply_def Let_def addrs_for_def peer_send_known)

lemma announce_to_links: "announce_to ser ns nd = do_links ser (on_links (announcements ns nd)) nd"
  by (simp add: announce_to_def do_links_def announce_loop_links announcements_def announcement_def)

lemma do_links_append: "do_links ser (xs @ ys) nd = do_links ser ys (do_links ser xs nd)"
  by (simp add: do_links_def)

lemma do_links_keeps [simp]:
  "nd_part (do_links ser ops nd) = nd_part nd" "nd_registry (do_links ser ops nd) = nd_registry nd"
  by (simp_all add: do_links_def)

lemma announce_links_keep [simp]:
  "our_addr (foldl (link_apply ser) pl (on_links ms)) = our_addr pl"
  "known (foldl (link_apply ser) pl (on_links ms)) = known pl"
  by (induction ms arbitrary: pl) (simp_all add: on_links_def link_apply_def peer_send_known split_def)

lemma announcements_keep [simp]:
  "announcements ns (do_links ser (on_links ms) nd) = announcements ns nd"
  by (simp add: announcements_def announcement_def do_links_def addrs_for_def)

lemma announcements_append: "announcements (xs @ ys) nd = announcements xs nd @ announcements ys nd"
  by (simp add: announcements_def)

lemma announcements_Nil [simp]: "announcements [] nd = []"
  by (simp add: announcements_def)

lemma announcements_tasks [simp]: "announcements ns (nd\<lparr>nd_tasks := ts\<rparr>) = announcements ns nd"
  by (simp add: announcements_def announcement_def)

lemma join_links:
  "join ser now peer nd = do_links ser (on_links (join_sends now peer nd)) (learning now [peer] nd)"
  by (simp add: join_def announce_to_links join_sends_def learning_def)

lemma join_at_links:
  "join_at ser now a nd =
   (let nd1 = remembering ser [a] nd
    in sync_with_all [addr_id a]
         (do_links ser (on_links (join_sends now (addr_id a) nd1)) (learning now [addr_id a] nd1)))"
  by (simp add: join_at_def announce_to_links join_sends_def learning_def remembering_def Let_def)

lemma accept_links:
  "\<exists>ts. accept_connection ser now n nd =
     (do_links ser (on_links (accept_sends now n nd)) (learning now [n] nd))\<lparr>nd_tasks := ts\<rparr>"
proof (cases "learned_of now [n] nd = []")
  case True
  then show ?thesis
    by (intro exI[of _ "nd_tasks nd"])
      (auto simp: accept_connection_def learned_of_def learning_def accept_sends_def on_links_def
        do_links_def set_cluster_def split: prod.split)
next
  case False
  then show ?thesis
    by (intro exI[of _ "nd_tasks nd @ [n]"])
      (auto simp: accept_connection_def learned_of_def learning_def accept_sends_def announce_to_links
        sync_with_all_def do_links_def set_cluster_def Let_def split: prod.split)
qed

lemma on_links_append: "on_links (xs @ ys) = on_links xs @ on_links ys"
  by (simp add: on_links_def)

lemma announce_to_next:
  "announce_to ser ns ((do_links ser (on_links ms) nd)\<lparr>nd_tasks := ts\<rparr>) =
   (do_links ser (on_links (ms @ announcements ns nd)) nd)\<lparr>nd_tasks := ts\<rparr>"
proof -
  have "do_links ser ops (nd\<lparr>nd_tasks := ts\<rparr>) = (do_links ser ops nd)\<lparr>nd_tasks := ts\<rparr>" for ops nd
    by (simp add: do_links_def)
  then show ?thesis by (simp add: announce_to_links on_links_append do_links_append)
qed

lemma announce_links:
  "\<exists>ts. handle_announce ser now nodes nd =
     (do_links ser (on_links (announce_sends ser now nodes nd))
        (learning now (map addr_id nodes) (remembering ser nodes nd)))\<lparr>nd_tasks := ts\<rparr>"
proof -
  let ?ids = "map addr_id nodes"
  let ?nd1 = "remembering ser nodes nd"
  let ?nd2 = "learning now ?ids ?nd1"
  let ?L = "learned_of now ?ids ?nd1"
  let ?nd3 = "if ?L = [] then ?nd2 else sync_with_all ?L (announce_to ser ?L ?nd2)"
  have nd3: "\<exists>ts. ?nd3 = (do_links ser (on_links (announcements ?L ?nd2)) ?nd2)\<lparr>nd_tasks := ts\<rparr>"
    by (rule exI[of _ "if ?L = [] then nd_tasks nd else nd_tasks nd @ ?L"])
      (simp add: announce_to_links sync_with_all_def announcements_def on_links_def do_links_def
        learning_def set_cluster_def remembering_def)
  then obtain ts where ts: "?nd3 = (do_links ser (on_links (announcements ?L ?nd2)) ?nd2)\<lparr>nd_tasks := ts\<rparr>" ..
  have "handle_announce ser now nodes nd =
      (if ?ids \<noteq> [] \<and> unnamed ?ids ?nd3 then announce_to ser [hd ?ids] ?nd3 else ?nd3)"
    by (cases nodes)
      (simp_all add: handle_announce_def Let_def learned_of_def learning_def remembering_def unnamed_def split_def)
  moreover have "unnamed ?ids ?nd3 = unnamed ?ids ?nd2"
    by (simp add: ts unnamed_def)
  ultimately have "handle_announce ser now nodes nd =
      (do_links ser (on_links (announce_sends ser now nodes nd)) ?nd2)\<lparr>nd_tasks := ts\<rparr>"
    unfolding ts announce_to_next by (simp add: announce_sends_def Let_def announcements_append)
  then show ?thesis ..
qed

section \<open>Who knows whom\<close>

text \<open>
  Seen from outside: \<open>K a\<close> is the roster of \<open>a\<close>, \<open>A a\<close> the nodes it has an address for, and \<open>S\<close>
  holds \<open>(b, h, D)\<close> for an announcement in flight to \<open>b\<close>, sent by \<open>h\<close>, that names \<open>D\<close>. A node
  waits for another until that one's own announcement has reached it.
\<close>

definition awaits :: "('n \<Rightarrow> 'n set) \<Rightarrow> ('n \<times> 'n \<times> 'n set) set \<Rightarrow> 'n \<Rightarrow> 'n \<Rightarrow> bool" where
  "awaits K S a b \<longleftrightarrow> (\<exists>D. (a, b, D) \<in> S) \<or> (a \<notin> K b \<and> (\<exists>D. (b, a, D) \<in> S))"

definition hears_of :: "('n \<times> 'n \<times> 'n set) set \<Rightarrow> 'n \<Rightarrow> 'n \<Rightarrow> bool" where
  "hears_of S a b \<longleftrightarrow> (\<exists>h D. (a, h, D) \<in> S \<and> b \<in> D)"

definition news_true :: "('n \<Rightarrow> 'n set) \<Rightarrow> ('n \<times> 'n \<times> 'n set) set \<Rightarrow> bool" where
  "news_true K S \<longleftrightarrow> (\<forall>b h D. (b, h, D) \<in> S \<longrightarrow> h \<in> D \<and> D \<subseteq> insert h (K h))"

lemma news_trueD:
  "news_true K S \<Longrightarrow> (b, h, D) \<in> S \<Longrightarrow> h \<in> D"
  "news_true K S \<Longrightarrow> (b, h, D) \<in> S \<Longrightarrow> x \<in> D \<Longrightarrow> x \<noteq> h \<Longrightarrow> x \<in> K h"
  unfolding news_true_def by blast+

definition introduced :: "('n \<Rightarrow> 'n set) \<Rightarrow> ('n \<times> 'n \<times> 'n set) set \<Rightarrow> bool" where
  "introduced K S \<longleftrightarrow> (\<forall>a b. b \<in> K a \<longrightarrow> a \<in> K b \<or> (\<exists>D. (b, a, D) \<in> S))"

definition addresses_due :: "('n \<Rightarrow> 'n set) \<Rightarrow> ('n \<Rightarrow> 'n set) \<Rightarrow> ('n \<times> 'n \<times> 'n set) set \<Rightarrow> bool" where
  "addresses_due K A S \<longleftrightarrow> (\<forall>a b. b \<in> K a \<longrightarrow> b \<in> A a \<or> awaits K S a b)"

definition meeting :: "('n \<Rightarrow> 'n set) \<Rightarrow> ('n \<times> 'n \<times> 'n set) set \<Rightarrow> 'n \<Rightarrow> 'n \<Rightarrow> bool" where
  "meeting K S m x \<longleftrightarrow> x \<in> K m \<or> m \<in> K x \<or> hears_of S m x \<or> hears_of S x m"

definition transitive_due :: "('n \<Rightarrow> 'n set) \<Rightarrow> ('n \<times> 'n \<times> 'n set) set \<Rightarrow> bool" where
  "transitive_due K S \<longleftrightarrow>
     (\<forall>n m x. m \<in> K n \<longrightarrow> x \<in> K n \<longrightarrow> m \<noteq> x \<longrightarrow> meeting K S m x \<or> awaits K S n m \<or> awaits K S n x)"

definition nobody_itself :: "('n \<Rightarrow> 'n set) \<Rightarrow> bool" where
  "nobody_itself K \<longleftrightarrow> (\<forall>a. a \<notin> K a)"

text \<open>
  One node \<open>r\<close> moves: it learns \<open>L\<close> and tells \<open>T\<close>, everybody it has just learned included, its
  roster as far as it has addresses; \<open>H\<close> is what it has just handled.
\<close>

definition tells :: "'n \<Rightarrow> 'n set \<Rightarrow> ('n \<Rightarrow> 'n set) \<Rightarrow> ('n \<Rightarrow> 'n set) \<Rightarrow> ('n \<times> 'n \<times> 'n set) set" where
  "tells r T K A = (\<lambda>m. (m, r, insert r {x \<in> K r. x \<noteq> m \<and> x \<in> A r})) ` T"

definition roster_step ::
  "'n \<Rightarrow> 'n set \<Rightarrow> 'n set \<Rightarrow> ('n \<times> 'n \<times> 'n set) set
     \<Rightarrow> ('n \<Rightarrow> 'n set) \<Rightarrow> ('n \<Rightarrow> 'n set) \<Rightarrow> ('n \<times> 'n \<times> 'n set) set
     \<Rightarrow> ('n \<Rightarrow> 'n set) \<Rightarrow> ('n \<Rightarrow> 'n set) \<Rightarrow> ('n \<times> 'n \<times> 'n set) set \<Rightarrow> bool" where
  "roster_step r L T H K A S K' A' S' \<longleftrightarrow>
     r \<notin> L \<and> L \<inter> K r = {} \<and> L \<subseteq> T \<and> K' = K(r := K r \<union> L) \<and> (\<forall>a. A a \<subseteq> A' a)
     \<and> S - H \<subseteq> S' \<and> tells r T K' A' \<subseteq> S' \<and> S' \<subseteq> S \<union> tells r T K' A' \<and> H \<subseteq> S
     \<and> (\<forall>b h D. (b, h, D) \<in> H \<longrightarrow> b = r \<and> D \<subseteq> insert r (K' r) \<and> (h = r \<or> h \<in> A' r)
          \<and> ((\<exists>m \<in> K' r. m \<noteq> h \<and> m \<notin> D) \<longrightarrow> h \<in> T))"

lemma roster_stepD:
  assumes "roster_step r L T H K A S K' A' S'"
  shows "r \<notin> L" "L \<inter> K r = {}" "K' = K(r := K r \<union> L)" "\<And>a. A a \<subseteq> A' a" "H \<subseteq> S"
    "\<And>e. e \<in> S \<Longrightarrow> e \<in> H \<or> e \<in> S'"
    "\<And>m. m \<in> T \<Longrightarrow> (m, r, insert r {x \<in> K' r. x \<noteq> m \<and> x \<in> A' r}) \<in> S'"
    "\<And>e. e \<in> S' \<Longrightarrow> e \<in> S \<or> (\<exists>m\<in>T. e = (m, r, insert r {x \<in> K' r. x \<noteq> m \<and> x \<in> A' r}))"
    "\<And>m. m \<in> L \<Longrightarrow> m \<in> T"
    "\<And>b h D. (b, h, D) \<in> H \<Longrightarrow> b = r \<and> D \<subseteq> insert r (K' r) \<and> (h = r \<or> h \<in> A' r)"
    "\<And>b h D m. (b, h, D) \<in> H \<Longrightarrow> m \<in> K' r \<Longrightarrow> m \<noteq> h \<Longrightarrow> m \<notin> D \<Longrightarrow> h \<in> T"
proof -
  note s = assms[unfolded roster_step_def]
  show "r \<notin> L" "L \<inter> K r = {}" "K' = K(r := K r \<union> L)" "H \<subseteq> S"
    by - (insert s, elim conjE, assumption)+
  have "\<forall>a. A a \<subseteq> A' a" by - (insert s, elim conjE, assumption)
  then show "\<And>a. A a \<subseteq> A' a" ..
  have H: "\<forall>b h D. (b, h, D) \<in> H \<longrightarrow> b = r \<and> D \<subseteq> insert r (K' r) \<and> (h = r \<or> h \<in> A' r)
      \<and> ((\<exists>m \<in> K' r. m \<noteq> h \<and> m \<notin> D) \<longrightarrow> h \<in> T)" by - (insert s, elim conjE, assumption)
  then show "\<And>b h D. (b, h, D) \<in> H \<Longrightarrow> b = r \<and> D \<subseteq> insert r (K' r) \<and> (h = r \<or> h \<in> A' r)"
    by blast
  from H show "\<And>b h D m. (b, h, D) \<in> H \<Longrightarrow> m \<in> K' r \<Longrightarrow> m \<noteq> h \<Longrightarrow> m \<notin> D \<Longrightarrow> h \<in> T" by blast
  have "S - H \<subseteq> S'" "tells r T K' A' \<subseteq> S'" "S' \<subseteq> S \<union> tells r T K' A'" "L \<subseteq> T"
    by - (insert s, elim conjE, assumption)+
  then show "\<And>e. e \<in> S \<Longrightarrow> e \<in> H \<or> e \<in> S'" "\<And>m. m \<in> L \<Longrightarrow> m \<in> T"
    "\<And>m. m \<in> T \<Longrightarrow> (m, r, insert r {x \<in> K' r. x \<noteq> m \<and> x \<in> A' r}) \<in> S'"
    "\<And>e. e \<in> S' \<Longrightarrow> e \<in> S \<or> (\<exists>m\<in>T. e = (m, r, insert r {x \<in> K' r. x \<noteq> m \<and> x \<in> A' r}))"
    unfolding tells_def by blast+
qed

lemma step_grows: "roster_step r L T H K A S K' A' S' \<Longrightarrow> K a \<subseteq> K' a"
  by (auto simp: roster_step_def)

lemma step_itself:
  "nobody_itself K \<Longrightarrow> roster_step r L T H K A S K' A' S' \<Longrightarrow> nobody_itself K'"
  by (auto simp: nobody_itself_def roster_step_def)

lemma step_true:
  assumes "news_true K S" and step: "roster_step r L T H K A S K' A' S'"
  shows "news_true K' S'"
  unfolding news_true_def
proof (intro allI impI)
  fix b h D
  assume "(b, h, D) \<in> S'"
  then consider "(b, h, D) \<in> S" | "h = r" "D = insert r {x \<in> K' r. x \<noteq> b \<and> x \<in> A' r}"
    using roster_stepD(8)[OF step] by blast
  then show "h \<in> D \<and> D \<subseteq> insert h (K' h)"
    using news_trueD[OF assms(1)] step_grows[OF step] by cases blast+
qed

lemma step_tells_learned:
  "roster_step r L T H K A S K' A' S' \<Longrightarrow> m \<in> L \<Longrightarrow> \<exists>D. (m, r, D) \<in> S'"
  using roster_stepD(7)[of r L T H K A S K' A' S' m] roster_stepD(9)[of r L T H K A S K' A' S' m] by blast

lemma step_introduced:
  assumes "introduced K S" and "nobody_itself K" and "news_true K S"
    and step: "roster_step r L T H K A S K' A' S'"
  shows "introduced K' S'"
  unfolding introduced_def
proof (intro allI impI)
  fix a b
  assume ab: "b \<in> K' a"
  show "a \<in> K' b \<or> (\<exists>D. (b, a, D) \<in> S')"
  proof (cases "b \<in> K a")
    case True
    with assms(1) consider "a \<in> K b" | D where "(b, a, D) \<in> S" by (auto simp: introduced_def)
    then show ?thesis
    proof cases
      case 2
      have "a \<in> D" "a \<noteq> b" using assms(2,3) 2 True by (auto simp: news_true_def nobody_itself_def)
      with 2 roster_stepD(6,10)[OF step] show ?thesis by blast
    qed (use step_grows[OF step] in blast)
  next
    case False
    with ab have "a = r" "b \<in> L" using roster_stepD(3)[OF step] by (auto split: if_splits)
    then show ?thesis using step_tells_learned[OF step] by blast
  qed
qed

lemma step_awaits:
  assumes "awaits K S a b" and "a \<noteq> b" and "news_true K S"
    and step: "roster_step r L T H K A S K' A' S'"
  shows "awaits K' S' a b \<or> (a = r \<and> b \<in> A' r \<and> (\<exists>D. (r, b, D) \<in> H))"
proof -
  from assms(1) consider D where "(a, b, D) \<in> S" | D where "a \<notin> K b" "(b, a, D) \<in> S"
    by (auto simp: awaits_def)
  then show ?thesis
  proof cases
    case 1
    then show ?thesis using roster_stepD(6,10)[OF step] assms(2) unfolding awaits_def by blast
  next
    case 2
    show ?thesis
    proof (cases "a \<in> K' b")
      case True
      with 2(1) have "b = r" "a \<in> L" using roster_stepD(3)[OF step] by (auto split: if_splits)
      then show ?thesis using step_tells_learned[OF step] by (auto simp: awaits_def)
    next
      case False
      have "a \<in> D" using assms(3) 2(2) by (auto simp: news_true_def)
      with False 2 roster_stepD(6,10)[OF step] assms(2) have "(b, a, D) \<in> S'" by blast
      with False show ?thesis by (auto simp: awaits_def)
    qed
  qed
qed

lemma step_addresses:
  assumes due: "addresses_due K A S" and "introduced K S" and "nobody_itself K" and "news_true K S"
    and step: "roster_step r L T H K A S K' A' S'"
  shows "addresses_due K' A' S'"
  unfolding addresses_due_def
proof (intro allI impI)
  fix a b
  assume ab: "b \<in> K' a"
  show "b \<in> A' a \<or> awaits K' S' a b"
  proof (cases "b \<in> K a")
    case True
    have "a \<noteq> b" using assms(3) True by (auto simp: nobody_itself_def)
    from True due have "b \<in> A a \<or> awaits K S a b" by (auto simp: addresses_due_def)
    with step_awaits[OF _ \<open>a \<noteq> b\<close> assms(4) step] roster_stepD(4)[OF step, of a] show ?thesis by blast
  next
    case False
    with ab have ab: "a = r" "b \<in> L" using roster_stepD(3)[OF step] by (auto split: if_splits)
    have ne: "b \<noteq> r" using roster_stepD(1)[OF step] ab by blast
    show ?thesis
    proof (cases "r \<in> K b")
      case True
      with assms(2) False ab obtain D where "(r, b, D) \<in> S" by (auto simp: introduced_def)
      then show ?thesis using roster_stepD(6,10)[OF step] ne ab unfolding awaits_def by blast
    next
      case False
      then have "r \<notin> K' b" using roster_stepD(3)[OF step] ne by simp
      then show ?thesis using step_tells_learned[OF step ab(2)] ab by (auto simp: awaits_def)
    qed
  qed
qed

lemma step_hears:
  assumes "hears_of S m x" and "m \<noteq> x" and step: "roster_step r L T H K A S K' A' S'"
  shows "hears_of S' m x \<or> x \<in> K' m"
proof -
  from assms(1) obtain h D where "(m, h, D) \<in> S" "x \<in> D" by (auto simp: hears_of_def)
  then show ?thesis
    using roster_stepD(6,10)[OF step] assms(2) unfolding hears_of_def by blast
qed

lemma step_meeting:
  "meeting K S m x \<Longrightarrow> m \<noteq> x \<Longrightarrow> roster_step r L T H K A S K' A' S' \<Longrightarrow> meeting K' S' m x"
  using step_hears step_grows unfolding meeting_def by (metis in_mono)

lemma told_meet:
  assumes "m \<in> T" "m \<in> K' r" "x \<in> K' r" "m \<noteq> x" and "addresses_due K' A' S'"
    and step: "roster_step r L T H K A S K' A' S'"
  shows "meeting K' S' m x \<or> awaits K' S' r x"
proof (cases "x \<in> A' r")
  case True
  with roster_stepD(7)[OF step assms(1)] assms(3,4) have "hears_of S' m x" unfolding hears_of_def by blast
  then show ?thesis by (simp add: meeting_def)
next
  case False
  with assms(3,5) show ?thesis by (auto simp: addresses_due_def)
qed

lemma meeting_sym: "meeting K S m x = meeting K S x m"
  by (auto simp: meeting_def)

lemma step_transitive:
  assumes tr: "transitive_due K S" and due: "addresses_due K' A' S'" and "nobody_itself K" and true: "news_true K S"
    and step: "roster_step r L T H K A S K' A' S'"
  shows "transitive_due K' S'"
  unfolding transitive_due_def
proof (intro allI impI)
  fix n m x
  assume nm: "m \<in> K' n" and nx: "x \<in> K' n" and mx: "m \<noteq> x"
  have heard: "meeting K' S' m x \<or> awaits K' S' n x"
    if k: "m \<in> K' n" "x \<in> K' n" and mx: "m \<noteq> x" and h: "n = r" "(r, m, D) \<in> H" for m x D
  proof (cases "x \<in> D")
    case True
    with h roster_stepD(5)[OF step] true have "x \<in> K m" using mx news_trueD(2) by (metis in_mono)
    then show ?thesis using step_grows[OF step] by (auto simp: meeting_def)
  next
    case False
    with roster_stepD(11)[OF step h(2)] k h mx have "m \<in> T" by metis
    then show ?thesis using told_meet[OF _ _ _ mx due step] k h by blast
  qed
  have old: "meeting K' S' m x \<or> awaits K' S' n m \<or> awaits K' S' n x"
    if w: "awaits K S n m" and k: "m \<in> K n" and x: "x \<in> K' n" "m \<noteq> x" for m x
  proof -
    have "m \<in> K' n" "n \<noteq> m" using k step_grows[OF step] assms(3) by (auto simp: nobody_itself_def)
    with step_awaits[OF w _ true step] heard x show ?thesis by blast
  qed
  show "meeting K' S' m x \<or> awaits K' S' n m \<or> awaits K' S' n x"
  proof (cases "m \<in> K n \<and> x \<in> K n")
    case True
    with tr mx consider "meeting K S m x" | "awaits K S n m" | "awaits K S n x"
      by (auto simp: transitive_due_def)
    then show ?thesis
      using step_meeting[OF _ mx step] old[of m x] old[of x m] True nm nx mx meeting_sym[of K' S' x m]
      by cases blast+
  next
    case False
    then have "n = r" "m \<in> L \<or> x \<in> L" using nm nx roster_stepD(3)[OF step] by (auto split: if_splits)
    with told_meet[OF _ _ _ _ due step] nm nx mx meeting_sym[of K' S' x m] roster_stepD(9)[OF step]
    show ?thesis by metis
  qed
qed

text \<open>Together, for a mesh whose nodes have addresses to give.\<close>

definition mesh_sound :: "('n \<Rightarrow> 'n set) \<Rightarrow> ('n \<Rightarrow> 'n set) \<Rightarrow> ('n \<times> 'n \<times> 'n set) set \<Rightarrow> bool" where
  "mesh_sound K A S \<longleftrightarrow> nobody_itself K \<and> news_true K S \<and> introduced K S \<and> addresses_due K A S \<and> transitive_due K S"

lemma mesh_sound_step:
  "mesh_sound K A S \<Longrightarrow> roster_step r L T H K A S K' A' S' \<Longrightarrow> mesh_sound K' A' S'"
  unfolding mesh_sound_def
  using step_itself step_true step_introduced step_addresses step_transitive by metis

lemma mesh_sound_new: "mesh_sound (\<lambda>_. {}) A {}"
  by (simp add: mesh_sound_def nobody_itself_def news_true_def introduced_def addresses_due_def transitive_due_def)

lemma mesh_sound_quiet:
  assumes "mesh_sound K A {}"
  shows "b \<in> K a \<Longrightarrow> a \<in> K b" and "b \<in> K a \<Longrightarrow> b \<in> A a" and "b \<in> K a \<Longrightarrow> c \<in> K b \<Longrightarrow> a \<noteq> c \<Longrightarrow> c \<in> K a"
proof -
  show sym: "a \<in> K b" if "b \<in> K a" for a b
    using assms that by (auto simp: mesh_sound_def introduced_def)
  show "b \<in> A a" if "b \<in> K a"
    using assms that by (auto simp: mesh_sound_def addresses_due_def awaits_def)
  show "c \<in> K a" if "b \<in> K a" "c \<in> K b" "a \<noteq> c"
    using assms sym[OF that(1)] sym that(2,3)
    by (fastforce simp: mesh_sound_def transitive_due_def meeting_def hears_of_def awaits_def)
qed

section \<open>The effect of a handler on a node\<close>

definition roster_of :: "('n, 'c, 'a) node_state \<Rightarrow> 'n set" where
  "roster_of nd = set (members (nd_cluster nd))"

definition addressed_of :: "('n, 'c, 'a) node_state \<Rightarrow> 'n set" where
  "addressed_of nd = {x. hm_get (known (nd_peers nd)) x \<noteq> None}"

definition news_of :: "('n, 'a) announced \<Rightarrow> 'n \<times> 'n \<times> 'n set" where
  "news_of m = (case m of (b, nodes) \<Rightarrow> (b, addr_id (hd nodes), addr_id ` set nodes))"

text \<open>Node \<open>a\<close>, that has the address \<open>self\<close> and keeps nobody out.\<close>

definition sound_node :: "'n \<Rightarrow> ('n, 'a) endpoint_addr \<Rightarrow> ('n, 'c, 'a) node_state \<Rightarrow> bool" where
  "sound_node a self nd \<longleftrightarrow>
     cluster_inv (nd_cluster nd) \<and> cl_me (nd_cluster nd) = a \<and> quarantined (nd_cluster nd) = []
     \<and> book_ok (nd_peers nd) \<and> our_addr (nd_peers nd) = self"

lemma apply_keeps_addr [simp]: "our_addr (link_apply ser pl op) = our_addr pl"
proof (cases op)
  case (LSend n m)
  then show ?thesis by (simp add: link_apply_def)
qed (auto simp: link_apply_def our_addr_def remember_def remember_incoming_def disconnect_def
    announce_lost_def split: option.splits)

lemma links_keep_addr [simp]: "our_addr (foldl (link_apply ser) pl ops) = our_addr pl"
  by (induction ops arbitrary: pl) simp_all

lemma sound_links: "sound_node a self nd \<Longrightarrow> sound_node a self (do_links ser ops nd)"
  by (simp add: sound_node_def do_links_def book_run[THEN conjunct1])

lemma sound_tasks [simp]: "sound_node a self (nd\<lparr>nd_tasks := ts\<rparr>) = sound_node a self nd"
  by (simp add: sound_node_def)

lemma learn_loop_open: "quarantined cl = [] \<Longrightarrow> quarantined (snd (learn_loop now ns cl)) = []"
  by (induction ns arbitrary: cl) (auto simp: is_quarantined_def Let_def split_def)

lemma learning_sound:
  assumes "sound_node a self nd"
  shows "sound_node a self (learning now ns nd)"
    and "roster_of (learning now ns nd) = roster_of nd \<union> (set ns - {a})"
    and "set (learned_of now ns nd) = set ns - {a} - roster_of nd"
proof -
  obtain fresh cl where l: "learn now ns (nd_cluster nd) = (fresh, cl)" by fastforce
  have open_cl: "quarantined cl = []"
    using learn_loop_open[of "nd_cluster nd" now] l assms
    by (metis learn_def sound_node_def snd_conv)
  have nobody: "\<not> barred now (nd_cluster nd) n" for n
    using assms by (simp add: barred_def sound_node_def)
  note s = learn_spec[OF l]
  show "sound_node a self (learning now ns nd)"
    using s open_cl assms by (simp add: sound_node_def learning_def set_cluster_def l)
  show "roster_of (learning now ns nd) = roster_of nd \<union> (set ns - {a})"
    using s nobody assms by (auto simp: sound_node_def learning_def set_cluster_def l roster_of_def)
  show "set (learned_of now ns nd) = set ns - {a} - roster_of nd"
    using s nobody assms by (auto simp: sound_node_def learned_of_def l roster_of_def)
qed

lemma views [simp]:
  "addressed_of (learning now ns nd) = addressed_of nd" "roster_of (do_links ser ops nd) = roster_of nd"
  "addressed_of (do_links ser (on_links ms) nd) = addressed_of nd"
  "roster_of (nd\<lparr>nd_tasks := ts\<rparr>) = roster_of nd" "addressed_of (nd\<lparr>nd_tasks := ts\<rparr>) = addressed_of nd"
  by (simp_all add: addressed_of_def learning_def set_cluster_def roster_of_def do_links_def)

lemma addressed_grows: "book_ok (nd_peers nd) \<Longrightarrow> addressed_of nd \<subseteq> addressed_of (do_links ser ops nd)"
  using book_run[of "nd_peers nd" ser ops] by (auto simp: addressed_of_def do_links_def)

lemma remembering_views:
  "roster_of (remembering ser nodes nd) = roster_of nd"
  "addressed_of (remembering ser nodes nd) = addressed_of nd \<union> addr_id ` {p \<in> set nodes. addrs p \<noteq> []}"
proof -
  show "roster_of (remembering ser nodes nd) = roster_of nd" by (simp add: remembering_def)
  have "{x. hm_get (known (foldl (link_apply ser) pl (map LRemember nodes))) x \<noteq> None} =
      {x. hm_get (known pl) x \<noteq> None} \<union> addr_id ` {p \<in> set nodes. addrs p \<noteq> []}" for pl
    by (induction nodes arbitrary: pl) (auto simp: link_apply_def remember_def split: if_splits)
  then show "addressed_of (remembering ser nodes nd) = addressed_of nd \<union> addr_id ` {p \<in> set nodes. addrs p \<noteq> []}"
    by (simp add: addressed_of_def remembering_def do_links_def)
qed

lemma announcement_names:
  assumes "sound_node a self nd"
  shows "announcement nd n \<noteq> []" and "hd (announcement nd n) = self"
    and "addr_id ` set (announcement nd n) = insert (addr_id self) {x \<in> roster_of nd. x \<noteq> n \<and> x \<in> addressed_of nd}"
    and "addrs self \<noteq> [] \<Longrightarrow> p \<in> set (announcement nd n) \<Longrightarrow> addrs p \<noteq> []"
proof -
  have book: "addr_id q = m \<and> addrs q \<noteq> []" if "hm_get (known (nd_peers nd)) m = Some q" for m q
    using assms that by (auto simp: sound_node_def book_ok_def)
  have others: "set (addrs_for pl ns) = {q. \<exists>m\<in>set ns. hm_get (known pl) m = Some q}" for pl ns
    by (auto simp: addrs_for_def List.map_filter_def image_iff) (metis option.sel)
  show "announcement nd n \<noteq> []" by (simp add: announcement_def)
  show "hd (announcement nd n) = self" using assms by (simp add: announcement_def sound_node_def)
  show "addr_id ` set (announcement nd n) = insert (addr_id self) {x \<in> roster_of nd. x \<noteq> n \<and> x \<in> addressed_of nd}"
    using assms book
    by (auto simp: announcement_def others sound_node_def roster_of_def addressed_of_def cl_nodes_def image_iff)
  show "addrs p \<noteq> []" if "addrs self \<noteq> []" "p \<in> set (announcement nd n)"
    using assms book that by (auto simp: announcement_def others sound_node_def)
qed

lemma announcements_news:
  assumes "sound_node a self nd" and "addr_id self = a" and "K a = roster_of nd" and "A a = addressed_of nd"
  shows "news_of ` set (announcements ns nd) = tells a (set ns) K A"
  using announcement_names[OF assms(1)] assms(2-4)
  by (auto simp: announcements_def tells_def news_of_def image_image)

section \<open>The mesh\<close>

record ('n, 'c, 'a) mesh =
  at_node :: "'n \<Rightarrow> ('n, 'c, 'a) node_state"
  in_flight :: "('n, 'a) announced list"

definition mesh_new :: "('n \<Rightarrow> ('n, 'a) endpoint_addr) \<Rightarrow> ('n, 'c, 'a) mesh" where
  "mesh_new addr = \<lparr>at_node = (\<lambda>n. node_new n (addr n)), in_flight = []\<rparr>"

definition moved ::
  "'n \<Rightarrow> ('n, 'c, 'a) node_state \<Rightarrow> ('n, 'a) announced list \<Rightarrow> ('n, 'c, 'a) mesh \<Rightarrow> ('n, 'c, 'a) mesh" where
  "moved a nd fl net = \<lparr>at_node = (at_node net)(a := nd), in_flight = fl\<rparr>"

text \<open>An announcement in flight is handled by the node it is for.\<close>

inductive deliver ::
  "('n, 'a) peer_message serializer \<Rightarrow> ('n, 'a) announced \<Rightarrow> ('n, 'c, 'a) mesh \<Rightarrow> ('n, 'c, 'a) mesh \<Rightarrow> bool"
  for ser :: "('n, 'a) peer_message serializer" where
  delivered: "in_flight net = pre @ (b, nodes) # post \<Longrightarrow>
    deliver ser (b, nodes) net
      (moved b (handle_announce ser now nodes (at_node net b))
        (pre @ post @ announce_sends ser now nodes (at_node net b)) net)"

text \<open>
  What nodes of \<open>N\<close> do: join, accept a connection, handle an announcement, and anything else that
  leaves the roster alone and whatever it does to the links.
\<close>

inductive mesh_step ::
  "('n, 'a) peer_message serializer \<Rightarrow> 'n set \<Rightarrow> ('n, 'c, 'a) mesh \<Rightarrow> ('n, 'c, 'a) mesh \<Rightarrow> bool"
  for ser :: "('n, 'a) peer_message serializer" and N :: "'n set" where
  ms_join: "a \<in> N \<Longrightarrow> b \<in> N \<Longrightarrow>
    mesh_step ser N net
      (moved a (join ser now b (at_node net a)) (in_flight net @ join_sends now b (at_node net a)) net)"
| ms_join_at: "a \<in> N \<Longrightarrow> addr_id p \<in> N \<Longrightarrow>
    mesh_step ser N net
      (moved a (join_at ser now p (at_node net a))
        (in_flight net @ join_sends now (addr_id p) (remembering ser [p] (at_node net a))) net)"
| ms_accept: "a \<in> N \<Longrightarrow> b \<in> N \<Longrightarrow>
    mesh_step ser N net
      (moved a (accept_connection ser now b (at_node net a)) (in_flight net @ accept_sends now b (at_node net a)) net)"
| ms_deliver: "deliver ser m net net' \<Longrightarrow> mesh_step ser N net net'"
| ms_other: "a \<in> N \<Longrightarrow> nd_part nd = nd_part (at_node net a) \<Longrightarrow>
    nd_peers nd = foldl (link_apply ser) (nd_peers (at_node net a)) ops \<Longrightarrow>
    mesh_step ser N net (moved a nd (in_flight net) net)"

abbreviation mesh_runs ::
  "('n, 'a) peer_message serializer \<Rightarrow> 'n set \<Rightarrow> ('n, 'c, 'a) mesh \<Rightarrow> ('n, 'c, 'a) mesh \<Rightarrow> bool" where
  "mesh_runs ser N \<equiv> (mesh_step ser N)\<^sup>*\<^sup>*"

definition mesh_knows :: "('n, 'c, 'a) mesh \<Rightarrow> 'n \<Rightarrow> 'n \<Rightarrow> bool" where
  "mesh_knows net a b \<longleftrightarrow> cl_contains (nd_cluster (at_node net a)) b"

text \<open>Every node has an address of its own to give.\<close>

definition well_addressed :: "('n \<Rightarrow> ('n, 'a) endpoint_addr) \<Rightarrow> bool" where
  "well_addressed addr \<longleftrightarrow> (\<forall>n. addr_id (addr n) = n \<and> addrs (addr n) \<noteq> [])"

abbreviation rosters :: "('n, 'c, 'a) mesh \<Rightarrow> 'n \<Rightarrow> 'n set" where
  "rosters net a \<equiv> roster_of (at_node net a)"

abbreviation in_book :: "('n, 'c, 'a) mesh \<Rightarrow> 'n \<Rightarrow> 'n set" where
  "in_book net a \<equiv> addressed_of (at_node net a)"

abbreviation news :: "('n, 'c, 'a) mesh \<Rightarrow> ('n \<times> 'n \<times> 'n set) set" where
  "news net \<equiv> news_of ` set (in_flight net)"

definition flight_ok :: "'n set \<Rightarrow> ('n, 'a) announced list \<Rightarrow> bool" where
  "flight_ok N fl \<longleftrightarrow>
     (\<forall>b nodes. (b, nodes) \<in> set fl \<longrightarrow> b \<in> N \<and> nodes \<noteq> [] \<and> (\<forall>p\<in>set nodes. addr_id p \<in> N \<and> addrs p \<noteq> []))"

definition mesh_ok :: "('n \<Rightarrow> ('n, 'a) endpoint_addr) \<Rightarrow> 'n set \<Rightarrow> ('n, 'c, 'a) mesh \<Rightarrow> bool" where
  "mesh_ok addr N net \<longleftrightarrow>
     (\<forall>a. sound_node a (addr a) (at_node net a) \<and> rosters net a \<subseteq> N) \<and> flight_ok N (in_flight net)
     \<and> mesh_sound (rosters net) (in_book net) (news net)"

definition handled_ok :: "'n \<Rightarrow> ('n, 'c, 'a) node_state \<Rightarrow> 'n set \<Rightarrow> ('n, 'a) announced \<Rightarrow> bool" where
  "handled_ok a nd T m \<longleftrightarrow> (case news_of m of (b, h, D) \<Rightarrow>
     b = a \<and> D \<subseteq> insert a (roster_of nd) \<and> (h = a \<or> h \<in> addressed_of nd)
     \<and> ((\<exists>x \<in> roster_of nd. x \<noteq> h \<and> x \<notin> D) \<longrightarrow> h \<in> T))"

lemma moved_roster_step:
  assumes "sound_node a (addr a) nd" "addr_id (addr a) = a"
    and "roster_of nd = rosters net a \<union> L" "L \<inter> rosters net a = {}" "a \<notin> L"
    and "in_book net a \<subseteq> addressed_of nd"
    and "sound_node a (addr a) nd2" "roster_of nd2 = roster_of nd" "addressed_of nd2 = addressed_of nd"
    and "set fl \<subseteq> set (in_flight net)" "set (in_flight net) \<subseteq> set fl \<union> set hs" "set hs \<subseteq> set (in_flight net)"
    and "L \<subseteq> set ts" and hs: "\<And>m. m \<in> set hs \<Longrightarrow> handled_ok a nd (set ts) m"
  defines "net' \<equiv> moved a nd (fl @ announcements ts nd2) net"
  shows "roster_step a L (set ts) (news_of ` set hs) (rosters net) (in_book net) (news net)
    (rosters net') (in_book net') (news net')"
proof -
  have at: "at_node net' b = (if b = a then nd else at_node net b)" for b by (simp add: net'_def moved_def)
  have views: "rosters net' = (rosters net)(a := rosters net a \<union> L)"
      "in_book net' = (in_book net)(a := addressed_of nd)"
    unfolding fun_eq_iff at using assms(3) by simp_all
  have told: "news_of ` set (announcements ts nd2) = tells a (set ts) (rosters net') (in_book net')"
    by (rule announcements_news[OF assms(7,2)]) (simp_all add: at assms(8,9))
  have news': "news net' = news_of ` set fl \<union> tells a (set ts) (rosters net') (in_book net')"
    unfolding told[symmetric] by (simp add: net'_def moved_def image_Un)
  have "b = a \<and> D \<subseteq> insert a (rosters net' a) \<and> (h = a \<or> h \<in> in_book net' a)
      \<and> ((\<exists>m\<in>rosters net' a. m \<noteq> h \<and> m \<notin> D) \<longrightarrow> h \<in> set ts)"
    if "(b, h, D) \<in> news_of ` set hs" for b h D
  proof -
    from that obtain m where "m \<in> set hs" "news_of m = (b, h, D)" by auto
    with hs[of m] show ?thesis by (simp add: handled_ok_def at)
  qed
  moreover have "news net - news_of ` set hs \<subseteq> news net'" "news_of ` set hs \<subseteq> news net"
    "tells a (set ts) (rosters net') (in_book net') \<subseteq> news net'"
    "news net' \<subseteq> news net \<union> tells a (set ts) (rosters net') (in_book net')"
    using assms(10-12) unfolding news' by auto
  moreover have "\<forall>b. in_book net b \<subseteq> in_book net' b" using assms(6) by (simp add: at)
  ultimately show ?thesis
    unfolding roster_step_def using assms(4,5,13) views(1) by blast
qed

definition mesh_grows :: "('n, 'c, 'a) mesh \<Rightarrow> ('n, 'c, 'a) mesh \<Rightarrow> bool" where
  "mesh_grows net net' \<longleftrightarrow> (\<forall>a. rosters net a \<subseteq> rosters net' a \<and> in_book net a \<subseteq> in_book net' a)"

definition mesh_next ::
  "('n \<Rightarrow> ('n, 'a) endpoint_addr) \<Rightarrow> 'n set \<Rightarrow> ('n, 'c, 'a) mesh \<Rightarrow> ('n, 'c, 'a) mesh \<Rightarrow> bool" where
  "mesh_next addr N net net' \<longleftrightarrow> mesh_ok addr N net' \<and> mesh_grows net net'"

lemma mesh_ok_moved:
  assumes ok: "mesh_ok addr N net" and wa: "well_addressed addr" and "a \<in> N" "L \<subseteq> N" "set ts \<subseteq> N"
    and nd: "sound_node a (addr a) nd" "roster_of nd = rosters net a \<union> L" "L \<inter> rosters net a = {}" "a \<notin> L"
      "in_book net a \<subseteq> addressed_of nd"
    and nd2: "sound_node a (addr a) nd2" "roster_of nd2 = roster_of nd" "addressed_of nd2 = addressed_of nd"
    and fl: "set fl \<subseteq> set (in_flight net)" "set (in_flight net) \<subseteq> set fl \<union> set hs" "set hs \<subseteq> set (in_flight net)"
    and ts: "L \<subseteq> set ts" and hs: "\<And>m. m \<in> set hs \<Longrightarrow> handled_ok a nd (set ts) m"
  shows "mesh_next addr N net (moved a nd (fl @ announcements ts nd2) net)"
proof -
  let ?net' = "moved a nd (fl @ announcements ts nd2) net"
  have a: "addr_id (addr a) = a" "addrs (addr a) \<noteq> []" using wa by (simp_all add: well_addressed_def)
  have "mesh_sound (rosters ?net') (in_book ?net') (news ?net')"
    using mesh_sound_step moved_roster_step[where addr = addr, OF nd(1) a(1) nd(2-5) nd2 fl ts hs] ok
    by (metis mesh_ok_def)
  moreover have "sound_node b (addr b) (at_node ?net' b) \<and> rosters ?net' b \<subseteq> N" for b
    using ok nd(1,2) assms(4) by (simp add: mesh_ok_def moved_def)
  moreover have "flight_ok N (fl @ announcements ts nd2)"
  proof -
    have "rosters net a \<subseteq> N" using ok by (simp add: mesh_ok_def)
    then have "addr_id p \<in> N" if "p \<in> set (announcement nd2 n)" for p n
      using announcement_names(3)[OF nd2(1), of n] that a(1) assms(3,4) nd(2) nd2(2) by auto
    moreover have "flight_ok N fl" using ok fl(1) unfolding mesh_ok_def flight_ok_def by blast
    ultimately show ?thesis
      using announcement_names(1,4)[OF nd2(1)] a(2) assms(5)
      by (auto simp: flight_ok_def announcements_def)
  qed
  ultimately have "mesh_ok addr N ?net'" by (auto simp: mesh_ok_def moved_def)
  moreover have "mesh_grows net ?net'" using nd(2,5) by (auto simp: mesh_grows_def moved_def)
  ultimately show ?thesis by (simp add: mesh_next_def)
qed

lemma sound_moved:
  assumes "sound_node a (addr a) (at_node net a)"
  shows "sound_node a (addr a) (learning now ns (at_node net a))"
    and "sound_node a (addr a) (remembering ser nodes (at_node net a))"
  using learning_sound(1)[OF assms] sound_links[OF assms] by (simp_all add: remembering_def)

lemma learned_nothing: "learned_of now ns nd = [] \<longleftrightarrow> set (learned_of now ns nd) = {}"
  by simp

lemma mesh_ok_learning:
  assumes ok: "mesh_ok addr N net" and wa: "well_addressed addr" and a: "a \<in> N" and b: "set ns \<subseteq> N"
    and nd0: "sound_node a (addr a) nd0" "roster_of nd0 = rosters net a" "in_book net a \<subseteq> addressed_of nd0"
    and fl: "set fl \<subseteq> set (in_flight net)" "set (in_flight net) \<subseteq> set fl \<union> set hs" "set hs \<subseteq> set (in_flight net)"
    and ts: "set (learned_of now ns nd0) \<subseteq> set ts" "set ts \<subseteq> N"
    and hs: "\<And>m. m \<in> set hs \<Longrightarrow> handled_ok a (learning now ns nd0) (set ts) m"
    and nd: "nd = (do_links ser (on_links ms) (learning now ns nd0))\<lparr>nd_tasks := tks\<rparr>"
  shows "mesh_next addr N net (moved a nd (fl @ announcements ts (learning now ns nd0)) net)"
proof (rule mesh_ok_moved[OF ok wa a _ ts(2) _ _ _ _ _ _ _ _ fl ts(1)])
  note l = learning_sound[OF nd0(1), of now ns]
  show "set (learned_of now ns nd0) \<subseteq> N" using l(3) b by auto
  show "sound_node a (addr a) nd" using sound_links[OF l(1)] by (simp add: nd)
  show "roster_of nd = rosters net a \<union> set (learned_of now ns nd0)"
    using l(2,3) nd0(2) by (auto simp: nd)
  show "set (learned_of now ns nd0) \<inter> rosters net a = {}" "a \<notin> set (learned_of now ns nd0)"
    using l(3) nd0(2) by auto
  show "in_book net a \<subseteq> addressed_of nd" using nd0(3) by (simp add: nd)
  show "sound_node a (addr a) (learning now ns nd0)" by (rule l(1))
  show "roster_of (learning now ns nd0) = roster_of nd"
    "addressed_of (learning now ns nd0) = addressed_of nd" by (simp_all add: nd)
  show "handled_ok a nd (set ts) m" if "m \<in> set hs" for m
    using hs[OF that] by (simp add: handled_ok_def nd)
qed

lemma same_tasks:
  "nd_tasks (do_links ser ops (learning now ns nd)) = nd_tasks nd" "nd\<lparr>nd_tasks := nd_tasks nd\<rparr> = nd"
  by (simp_all add: do_links_def learning_def set_cluster_def)

lemma mesh_ok_join:
  assumes ok: "mesh_ok addr N net" and wa: "well_addressed addr" and a: "a \<in> N" and b: "b \<in> N"
    and nd0: "sound_node a (addr a) nd0" "roster_of nd0 = rosters net a" "in_book net a \<subseteq> addressed_of nd0"
    and nd: "nd = (do_links ser (on_links ms) (learning now [b] nd0))\<lparr>nd_tasks := tks\<rparr>"
  shows "mesh_next addr N net (moved a nd (in_flight net @ join_sends now b nd0) net)"
  unfolding join_sends_def
proof (rule mesh_ok_learning[where hs = "[]", OF ok wa a _ nd0 _ _ _ _ _ _ nd])
  show "set (learned_of now [b] nd0) \<subseteq> set [b]" using learning_sound(3)[OF nd0(1)] by auto
qed (use b in simp_all)

lemma mesh_ok_deliver:
  assumes ok: "mesh_ok addr N net" and wa: "well_addressed addr" and d: "deliver ser m net net'"
  shows "mesh_next addr N net net'"
  using d
proof cases
  case (delivered pre a nodes post now)
  let ?nd = "remembering ser nodes (at_node net a)"
  let ?ids = "map addr_id nodes"
  let ?l = "learning now ?ids ?nd"
  let ?ts = "learned_of now ?ids ?nd @ (if ?ids \<noteq> [] \<and> unnamed ?ids ?l then [hd ?ids] else [])"
  have s: "sound_node a (addr a) (at_node net a)" using ok by (simp add: mesh_ok_def)
  note s' = sound_moved(2)[where addr = addr, OF s, of ser nodes]
  have "flight_ok N (in_flight net)" using ok by (simp add: mesh_ok_def)
  then have fl: "a \<in> N" "nodes \<noteq> []" "\<And>p. p \<in> set nodes \<Longrightarrow> addr_id p \<in> N" "\<And>p. p \<in> set nodes \<Longrightarrow> addrs p \<noteq> []"
    unfolding flight_ok_def delivered(3) by auto
  note l = learning_sound(2,3)[OF s', of now ?ids]
  obtain tks where nd: "handle_announce ser now nodes (at_node net a) =
      (do_links ser (on_links (announce_sends ser now nodes (at_node net a))) ?l)\<lparr>nd_tasks := tks\<rparr>"
    using announce_links by metis
  have handled: "handled_ok a ?l (set ?ts) (a, nodes)"
  proof -
    have "addr_id (hd nodes) \<in> addressed_of ?nd" using fl(2,4) by (auto simp: remembering_views)
    moreover have "addr_id (hd nodes) \<in> set ?ts"
      if "\<exists>x\<in>roster_of ?l. x \<noteq> addr_id (hd nodes) \<and> x \<notin> addr_id ` set nodes"
      using that fl(2) by (auto simp: unnamed_def list_ex_iff roster_of_def cl_nodes_def hd_map)
    ultimately show ?thesis by (auto simp: handled_ok_def news_of_def l(1))
  qed
  have "mesh_next addr N net (moved a (handle_announce ser now nodes (at_node net a))
      ((pre @ post) @ announcements ?ts ?l) net)"
  proof (rule mesh_ok_learning[where hs = "[(a, nodes)]", OF ok wa fl(1) _ s' _ _ _ _ _ _ _ _ nd])
    show "handled_ok a ?l (set ?ts) m" if "m \<in> set [(a, nodes)]" for m using handled that by simp
    show "set ?ts \<subseteq> N" using l(2) fl(2,3) by (auto simp: hd_map)
  qed (use fl in \<open>auto simp: remembering_views delivered(3)\<close>)
  then show ?thesis
    by (simp add: delivered(2) announce_sends_def Let_def)
qed

lemma mesh_step_next:
  assumes ok: "mesh_ok addr N net" and wa: "well_addressed addr" and step: "mesh_step ser N net net'"
  shows "mesh_next addr N net net'"
  using step
proof cases
  case (ms_join a b now)
  have s: "sound_node a (addr a) (at_node net a)" using ok by (simp add: mesh_ok_def)
  have "join ser now b (at_node net a) = (do_links ser (on_links (join_sends now b (at_node net a)))
      (learning now [b] (at_node net a)))\<lparr>nd_tasks := nd_tasks (join ser now b (at_node net a))\<rparr>"
    by (simp add: join_links)
  then show ?thesis
    unfolding ms_join(1) by (rule mesh_ok_join[OF ok wa ms_join(2,3) s refl order.refl])
next
  case (ms_join_at a p now)
  have s: "sound_node a (addr a) (at_node net a)" using ok by (simp add: mesh_ok_def)
  let ?nd = "remembering ser [p] (at_node net a)"
  have at: "\<exists>tks. join_at ser now p (at_node net a) = (do_links ser (on_links (join_sends now (addr_id p) ?nd))
      (learning now [addr_id p] ?nd))\<lparr>nd_tasks := tks\<rparr>"
    by (auto simp: join_at_links Let_def sync_with_all_def)
  have "roster_of ?nd = rosters net a" "in_book net a \<subseteq> addressed_of ?nd"
    by (auto simp: remembering_views)
  with mesh_ok_join[OF ok wa ms_join_at(2,3) sound_moved(2)[where addr = addr, OF s]] at show ?thesis
    unfolding ms_join_at(1) by metis
next
  case (ms_accept a b now)
  have s: "sound_node a (addr a) (at_node net a)" using ok by (simp add: mesh_ok_def)
  let ?nd = "at_node net a"
  obtain tks where nd: "accept_connection ser now b ?nd =
      (do_links ser (on_links (accept_sends now b ?nd)) (learning now [b] ?nd))\<lparr>nd_tasks := tks\<rparr>"
    using accept_links by metis
  have l: "set (learned_of now [b] ?nd) \<subseteq> {b}" using learning_sound(3)[OF s] by auto
  have "mesh_next addr N net (moved a (accept_connection ser now b ?nd)
      (in_flight net @ announcements (if learned_of now [b] ?nd = [] then [] else [b]) (learning now [b] ?nd)) net)"
    by (rule mesh_ok_learning[where hs = "[]", OF ok wa ms_accept(2) _ s refl order.refl _ _ _ _ _ _ nd])
      (use l ms_accept(3) in auto)
  then show ?thesis
    unfolding ms_accept(1) accept_sends_def by (simp split: if_splits)
next
  case (ms_deliver m)
  then show ?thesis by (rule mesh_ok_deliver[OF ok wa])
next
  case (ms_other a nd ops)
  have s: "sound_node a (addr a) (at_node net a)" using ok by (simp add: mesh_ok_def)
  then have s': "sound_node a (addr a) nd"
    using sound_links[of a "addr a" "at_node net a" ser ops] ms_other(3,4)
    by (simp add: sound_node_def do_links_def)
  have r: "roster_of nd = rosters net a \<union> {}" using ms_other(3) by (simp add: roster_of_def)
  have "addressed_of nd = addressed_of (do_links ser ops (at_node net a))"
    using ms_other(4) by (simp add: addressed_of_def do_links_def)
  then have "in_book net a \<subseteq> addressed_of nd"
    using addressed_grows[of "at_node net a" ser ops] s by (simp add: sound_node_def)
  from mesh_ok_moved[where hs = "[]" and ts = "[]", OF ok wa ms_other(2) _ _ s' r _ _ this s' refl refl, of "in_flight net"]
  show ?thesis unfolding ms_other(1) by simp
qed

lemma mesh_runs_next:
  assumes "mesh_runs ser N net net'" and "mesh_ok addr N net" and wa: "well_addressed addr"
  shows "mesh_next addr N net net'"
  using assms(1)
proof (induction rule: rtranclp_induct)
  case base
  then show ?case using assms(2) by (simp add: mesh_next_def mesh_grows_def)
next
  case (step y z)
  then show ?case
    using mesh_step_next[OF _ wa step(2)] unfolding mesh_next_def mesh_grows_def by blast
qed

lemma mesh_ok_new:
  fixes addr :: "'n \<Rightarrow> ('n, 'a) endpoint_addr"
  assumes "well_addressed addr"
  shows "mesh_ok addr N (mesh_new addr)"
proof -
  have "cl_me (cluster_new n) = n" "members (cluster_new n) = []" "quarantined (cluster_new n) = []" for n :: 'n
    by (simp_all add: cluster_new_def)
  then show ?thesis
    by (simp add: mesh_ok_def mesh_new_def sound_node_def node_new_def roster_of_def flight_ok_def
        mesh_sound_new our_addr_def peer_links_new_def book_ok_def cluster_inv_new)
qed

section \<open>One introduction is enough\<close>

lemma knows_roster: "mesh_knows net a b \<longleftrightarrow> b \<in> rosters net a"
  by (simp add: mesh_knows_def cl_contains_def roster_of_def)

lemma quiet_mesh:
  assumes "mesh_ok addr N net" and "in_flight net = []"
  shows "mesh_sound (rosters net) (in_book net) {}"
  using assms by (simp add: mesh_ok_def)

lemma dial_addressed:
  "sound_node a self nd \<Longrightarrow> b \<in> addressed_of nd \<Longrightarrow> addrs (dial_target (nd_peers nd) b) \<noteq> []"
  by (auto simp: sound_node_def book_ok_def addressed_of_def dial_target_def)

lemma quiet_path:
  assumes "mesh_ok addr N net" and "in_flight net = []"
    and "(\<lambda>x y. mesh_knows net x y \<or> mesh_knows net y x)\<^sup>*\<^sup>* a b" and "a \<noteq> b"
  shows "mesh_knows net a b"
  using assms(3,4)
proof (induction rule: rtranclp_induct)
  case (step y z)
  note q = mesh_sound_quiet[OF quiet_mesh[OF assms(1,2)]]
  have "mesh_knows net y z" using step(2) q(1) by (auto simp: knows_roster)
  with step q(3) show ?case by (cases "a = y") (auto simp: knows_roster)
qed simp

lemma mesh_complete_knows:
  assumes wa: "well_addressed addr" and r: "mesh_runs ser N (mesh_new addr) net"
    and path: "(\<lambda>x y. mesh_knows net x y \<or> mesh_knows net y x)\<^sup>*\<^sup>* a b" and ab: "a \<noteq> b"
    and r': "mesh_runs ser N net net'" and quiet: "in_flight net' = []"
  shows "mesh_ok addr N net' \<and> mesh_knows net' a b"
proof -
  have "mesh_ok addr N net"
    using mesh_runs_next[OF r mesh_ok_new[OF wa] wa] by (simp add: mesh_next_def)
  from mesh_runs_next[OF r' this wa] have ok: "mesh_ok addr N net'" and grows: "mesh_grows net net'"
    by (simp_all add: mesh_next_def)
  have "(\<lambda>x y. mesh_knows net' x y \<or> mesh_knows net' y x)\<^sup>*\<^sup>* a b"
    using path grows by (rule_tac mono_rtranclp[rule_format]) (auto simp: knows_roster mesh_grows_def)
  then show ?thesis using quiet_path[OF ok quiet _ ab] ok by blast
qed

text \<open>
  C3: one introduction is enough. Nodes that have an address of their own to announce join each
  other, accept connections, handle announcements in whatever order these arrive, and do anything
  else that leaves their rosters alone. If at some moment two nodes are connected by introductions
  that were made, in either direction and over any number of others, then once no announcement is in
  flight each has the other in its roster, and an address to dial it at.\<close>

theorem mesh_complete:
  fixes net :: "('n, 'c, 'a) mesh"
  assumes wa: "well_addressed addr" and r: "mesh_runs ser N (mesh_new addr) net"
    and path: "(\<lambda>x y. mesh_knows net x y \<or> mesh_knows net y x)\<^sup>*\<^sup>* a b" and ab: "a \<noteq> b"
    and r': "mesh_runs ser N net net'" and quiet: "in_flight net' = []"
  shows "mesh_knows net' a b \<and> addrs (dial_target (nd_peers (at_node net' a)) b) \<noteq> []"
proof -
  have ok: "mesh_ok addr N net'" and knows: "mesh_knows net' a b"
    using mesh_complete_knows[OF wa r path ab r' quiet] by simp_all
  have "b \<in> in_book net' a"
    using mesh_sound_quiet(2)[OF quiet_mesh[OF ok quiet]] knows by (simp add: knows_roster)
  moreover have "sound_node a (addr a) (at_node net' a)" using ok by (simp add: mesh_ok_def)
  ultimately show ?thesis using dial_addressed knows by metis
qed

section \<open>The announcements come to an end\<close>

text \<open>What a delivery does to the announcements in flight.\<close>

lemma announcements_news_list:
  assumes "sound_node a self nd" and "addr_id self = a"
  shows "map news_of (announcements ns nd) =
    map (\<lambda>m. (m, a, insert a {x \<in> roster_of nd. x \<noteq> m \<and> x \<in> addressed_of nd})) ns"
  using announcement_names[OF assms(1)] assms(2) by (simp add: announcements_def news_of_def)

lemma delivery:
  assumes ok: "mesh_ok addr N net" and wa: "well_addressed addr" and d: "deliver ser m net net'"
  obtains pre post r h D L where "news_of m = (r, h, D)" and "r \<in> N" and "h \<in> N"
    and "in_flight net = pre @ m # post"
    and "\<And>a. a \<noteq> r \<Longrightarrow> rosters net' a = rosters net a"
    and "rosters net' r = rosters net r \<union> (D - {r})" and "h \<in> in_book net' r"
    and "set L = rosters net' r - rosters net r"
    and "map news_of (in_flight net') = map news_of (pre @ post)
      @ map (\<lambda>n. (n, r, insert r {x \<in> rosters net' r. x \<noteq> n \<and> x \<in> in_book net' r}))
          (L @ (if \<exists>x\<in>rosters net' r. x \<noteq> h \<and> x \<notin> D then [h] else []))"
  using d
proof cases
  case (delivered pre a nodes post now)
  let ?nd = "remembering ser nodes (at_node net a)"
  let ?ids = "map addr_id nodes"
  let ?l = "learning now ?ids ?nd"
  let ?h = "addr_id (hd nodes)"
  have s: "sound_node a (addr a) (at_node net a)" and fl: "flight_ok N (in_flight net)"
    using ok by (simp_all add: mesh_ok_def)
  note s' = sound_moved(2)[where addr = addr, OF s, of ser nodes]
  note l = learning_sound[OF s', of now ?ids]
  have nodes: "a \<in> N" "nodes \<noteq> []" "\<And>p. p \<in> set nodes \<Longrightarrow> addr_id p \<in> N" "\<And>p. p \<in> set nodes \<Longrightarrow> addrs p \<noteq> []"
    using fl unfolding flight_ok_def delivered(3) by auto
  obtain tks where nd: "handle_announce ser now nodes (at_node net a) =
      (do_links ser (on_links (announce_sends ser now nodes (at_node net a))) ?l)\<lparr>nd_tasks := tks\<rparr>"
    using announce_links by metis
  have at: "at_node net' b = (if b = a then handle_announce ser now nodes (at_node net a) else at_node net b)" for b
    by (simp add: delivered(2) moved_def)
  have r: "rosters net' a = roster_of ?l" "in_book net' a = addressed_of ?l"
    by (simp_all add: at nd)
  show thesis
  proof (rule that)
    show "news_of m = (a, ?h, addr_id ` set nodes)" by (simp add: delivered(1) news_of_def)
    show "a \<in> N" "?h \<in> N" using nodes by simp_all
    show "in_flight net = pre @ m # post" by (simp add: delivered(1,3))
    show "rosters net' b = rosters net b" if "b \<noteq> a" for b using that by (simp add: at)
    show new: "rosters net' a = rosters net a \<union> (addr_id ` set nodes - {a})"
      unfolding r l(2) by (simp add: remembering_views)
    show "?h \<in> in_book net' a" using nodes(2,4) by (auto simp: r remembering_views)
    show "set (learned_of now ?ids ?nd) = rosters net' a - rosters net a"
      using l(3) new by (auto simp: remembering_views)
    have "in_flight net' = pre @ post @ announce_sends ser now nodes (at_node net a)"
      by (simp add: delivered(2) moved_def)
    moreover have "unnamed ?ids ?l \<longleftrightarrow> (\<exists>x\<in>rosters net' a. x \<noteq> ?h \<and> x \<notin> addr_id ` set nodes)"
      unfolding r(1) using nodes(2)
      by (simp add: unnamed_def list_ex_iff roster_of_def cl_nodes_def hd_map)
    ultimately show "map news_of (in_flight net') = map news_of (pre @ post)
      @ map (\<lambda>n. (n, a, insert a {x \<in> rosters net' a. x \<noteq> n \<and> x \<in> in_book net' a}))
          (learned_of now ?ids ?nd
            @ (if \<exists>x\<in>rosters net' a. x \<noteq> ?h \<and> x \<notin> addr_id ` set nodes then [?h] else []))"
      using announcements_news_list[OF l(1)] wa nodes(2)
      by (simp add: announce_sends_def Let_def well_addressed_def r hd_map)
  qed
qed

text \<open>
  When rosters no longer change and every address is known, an answer is a full roster, and an
  answer to an answer has nothing left to add.
\<close>

definition full_news :: "('n \<Rightarrow> 'n set) \<Rightarrow> 'n \<Rightarrow> 'n \<Rightarrow> 'n \<times> 'n \<times> 'n set" where
  "full_news K h r = (h, r, insert r (K r - {h}))"

definition answered :: "('n \<Rightarrow> 'n set) \<Rightarrow> 'n \<times> 'n \<times> 'n set \<Rightarrow> bool" where
  "answered K e = (case e of (r, h, D) \<Rightarrow> D \<subseteq> insert r (K r) \<and> (\<exists>x\<in>K r. x \<noteq> h \<and> x \<notin> D))"

definition news_weight :: "('n \<Rightarrow> 'n set) \<Rightarrow> 'n \<times> 'n \<times> 'n set \<Rightarrow> nat" where
  "news_weight K e = (case e of (r, h, D) \<Rightarrow>
     if \<not> answered K e then 1 else if \<not> answered K (full_news K h r) then 2 else 3)"

lemma answer_lighter:
  assumes "nobody_itself K" and "answered K (r, h, D)"
  shows "news_weight K (full_news K h r) < news_weight K (r, h, D)"
proof (cases "answered K (full_news K h r)")
  case True
  then have "insert r (K r - {h}) \<subseteq> insert h (K h)" by (simp add: answered_def full_news_def)
  then have "\<not> answered K (full_news K r h)"
    using assms(1) by (auto simp: answered_def full_news_def nobody_itself_def)
  then show ?thesis using True assms(2) by (simp add: news_weight_def full_news_def)
next
  case False
  then show ?thesis using assms(2) by (simp add: news_weight_def full_news_def)
qed

text \<open>
  A run of deliveries: one announcement after the other, \<open>h\<close> says which, as long as there is one. It
  is fair if every announcement in flight is delivered some time.
\<close>

definition delivery_run ::
  "('n, 'a) peer_message serializer \<Rightarrow> (nat \<Rightarrow> ('n, 'a) announced) \<Rightarrow> (nat \<Rightarrow> ('n, 'c, 'a) mesh) \<Rightarrow> bool" where
  "delivery_run ser h f \<longleftrightarrow>
     (\<forall>i. if in_flight (f i) = [] then f (Suc i) = f i else deliver ser (h i) (f i) (f (Suc i)))"

definition fair_run :: "(nat \<Rightarrow> ('n, 'a) announced) \<Rightarrow> (nat \<Rightarrow> ('n, 'c, 'a) mesh) \<Rightarrow> bool" where
  "fair_run h f \<longleftrightarrow> (\<forall>i m. m \<in> set (in_flight (f i)) \<longrightarrow> (\<exists>j\<ge>i. h j = m))"

definition missing_pairs :: "'n set \<Rightarrow> ('n \<Rightarrow> 'n set) \<Rightarrow> ('n \<times> 'n) set" where
  "missing_pairs N R = {(a, b) \<in> N \<times> N. b \<notin> R a}"

definition to_learn :: "'n set \<Rightarrow> ('n, 'c, 'a) mesh \<Rightarrow> nat" where
  "to_learn N net = card (missing_pairs N (rosters net)) + card (missing_pairs N (in_book net))"

lemma missing_pairs_mono:
  "finite N \<Longrightarrow> (\<And>a. R a \<subseteq> R' a) \<Longrightarrow>
   missing_pairs N R' \<subseteq> missing_pairs N R \<and> finite (missing_pairs N R)"
  by (auto simp: missing_pairs_def intro: finite_subset[of _ "N \<times> N"])

lemma to_learn_grows:
  assumes "finite N" and "mesh_grows net net'"
  shows "to_learn N net' \<le> to_learn N net"
    and "to_learn N net' = to_learn N net \<Longrightarrow>
      missing_pairs N (rosters net') = missing_pairs N (rosters net)
      \<and> missing_pairs N (in_book net') = missing_pairs N (in_book net)"
proof -
  have r: "missing_pairs N (rosters net') \<subseteq> missing_pairs N (rosters net) \<and> finite (missing_pairs N (rosters net))"
    and a: "missing_pairs N (in_book net') \<subseteq> missing_pairs N (in_book net) \<and> finite (missing_pairs N (in_book net))"
    using missing_pairs_mono[OF assms(1)] assms(2) by (auto simp: mesh_grows_def)
  note le = card_mono[OF r[THEN conjunct2] r[THEN conjunct1]] card_mono[OF a[THEN conjunct2] a[THEN conjunct1]]
  then show "to_learn N net' \<le> to_learn N net" by (simp add: to_learn_def)
  show "missing_pairs N (rosters net') = missing_pairs N (rosters net)
      \<and> missing_pairs N (in_book net') = missing_pairs N (in_book net)"
    if "to_learn N net' = to_learn N net"
  proof -
    have "card (missing_pairs N (rosters net')) = card (missing_pairs N (rosters net))"
      "card (missing_pairs N (in_book net')) = card (missing_pairs N (in_book net))"
      using that le unfolding to_learn_def by linarith+
    then show ?thesis using card_subset_eq r a by blast
  qed
qed

lemma run_ok:
  assumes "delivery_run ser h f" and "mesh_ok addr N (f 0)" and wa: "well_addressed addr"
  shows "mesh_ok addr N (f i) \<and> mesh_runs ser N (f 0) (f i) \<and> (i \<le> j \<longrightarrow> mesh_grows (f i) (f j))"
proof -
  have next_ok: "mesh_next addr N (f i) (f (Suc i)) \<and> mesh_runs ser N (f i) (f (Suc i))"
    if "mesh_ok addr N (f i)" for i
  proof (cases "in_flight (f i) = []")
    case True
    then have "f (Suc i) = f i" using assms(1) by (simp add: delivery_run_def)
    then show ?thesis using that by (simp add: mesh_next_def mesh_grows_def)
  next
    case False
    then have "deliver ser (h i) (f i) (f (Suc i))" using assms(1) by (simp add: delivery_run_def)
    then have "mesh_step ser N (f i) (f (Suc i))" by (rule ms_deliver)
    then show ?thesis using mesh_step_next[OF that wa] by blast
  qed
  have ok: "mesh_ok addr N (f i) \<and> mesh_runs ser N (f 0) (f i)" for i
    by (induction i) (use assms(2) next_ok in \<open>auto simp: mesh_next_def intro: rtranclp_trans\<close>)
  have "mesh_grows (f i) (f j)" if "i \<le> j"
    using that
  proof (induction rule: dec_induct)
    case (step n)
    then show ?case using next_ok[of n] ok[of n] unfolding mesh_next_def mesh_grows_def by blast
  qed (simp add: mesh_grows_def)
  with ok show ?thesis by simp
qed

lemma settled_from:
  assumes run: "delivery_run ser h f" and ok: "mesh_ok addr N (f 0)" and wa: "well_addressed addr" and "finite N"
  obtains i where "\<And>j a. i \<le> j \<Longrightarrow> a \<in> N \<Longrightarrow> rosters (f j) a = rosters (f i) a"
    and "\<And>j a b. i \<le> j \<Longrightarrow> a \<in> N \<Longrightarrow> b \<in> N \<Longrightarrow> b \<in> in_book (f j) a \<Longrightarrow> b \<in> in_book (f i) a"
proof -
  obtain i where least: "\<And>j. to_learn N (f i) \<le> to_learn N (f j)"
    using ex_has_least_nat[of "\<lambda>_. True" 0 "\<lambda>j. to_learn N (f j)"] by auto
  have same: "missing_pairs N (rosters (f j)) = missing_pairs N (rosters (f i))
      \<and> missing_pairs N (in_book (f j)) = missing_pairs N (in_book (f i))" if "i \<le> j" for j
    using to_learn_grows[OF assms(4), of "f i" "f j"] run_ok[OF run ok wa, of i j] least[of j] that by simp
  have sub: "rosters (f j) a \<subseteq> N" for j a
    using run_ok[OF run ok wa, of j] by (simp add: mesh_ok_def)
  show thesis
  proof (rule that)
    show "rosters (f j) a = rosters (f i) a" if "i \<le> j" "a \<in> N" for j a
    proof -
      have "b \<in> rosters (f j) a \<longleftrightarrow> b \<in> rosters (f i) a" if "b \<in> N" for b
        using same[OF \<open>i \<le> j\<close>, THEN conjunct1] \<open>a \<in> N\<close> that by (auto simp: missing_pairs_def set_eq_iff)
      then show ?thesis using sub by blast
    qed
    show "b \<in> in_book (f i) a" if "i \<le> j" "a \<in> N" "b \<in> N" "b \<in> in_book (f j) a" for j a b
      using same[OF that(1), THEN conjunct2] that by (auto simp: missing_pairs_def set_eq_iff)
  qed
qed

lemma settled_addressed:
  assumes run: "delivery_run ser h f" and fair: "fair_run h f" and ok: "mesh_ok addr N (f 0)"
    and wa: "well_addressed addr" and busy: "\<And>j. in_flight (f j) \<noteq> []"
    and rs: "\<And>j a. i \<le> j \<Longrightarrow> a \<in> N \<Longrightarrow> rosters (f j) a = rosters (f i) a"
    and as: "\<And>j a b. i \<le> j \<Longrightarrow> a \<in> N \<Longrightarrow> b \<in> N \<Longrightarrow> b \<in> in_book (f j) a \<Longrightarrow> b \<in> in_book (f i) a"
    and a: "a \<in> N" and b: "b \<in> rosters (f i) a"
  shows "b \<in> in_book (f i) a"
proof -
  have oks: "mesh_ok addr N (f j)" for j using run_ok[OF run ok wa] by blast
  have bN: "b \<in> N" using oks[of i] b by (auto simp: mesh_ok_def)
  have sound: "mesh_sound (rosters (f i)) (in_book (f i)) (news (f i))"
    using oks[of i] by (simp add: mesh_ok_def)
  have later: "\<exists>j\<ge>i. rosters (f (Suc j)) x = rosters (f j) x \<union> (D - {x}) \<and> y \<in> in_book (f (Suc j)) x"
    if news: "(x, y, D) \<in> news (f i)" for x y D
  proof -
    from news obtain m where m: "m \<in> set (in_flight (f i))" "news_of m = (x, y, D)" by auto
    with fair obtain j where j: "j \<ge> i" "h j = m" unfolding fair_run_def by blast
    have "deliver ser m (f j) (f (Suc j))" using run busy[of j] j(2) by (auto simp: delivery_run_def)
    from oks[of j] wa this show ?thesis
      by (rule delivery) (use m(2) j(1) in auto)
  qed
  have "a \<noteq> b" using sound b by (auto simp: mesh_sound_def nobody_itself_def)
  from sound b have "b \<in> in_book (f i) a \<or> awaits (rosters (f i)) (news (f i)) a b"
    by (auto simp: mesh_sound_def addresses_due_def)
  then consider "b \<in> in_book (f i) a" | D where "(a, b, D) \<in> news (f i)"
    | D where "a \<notin> rosters (f i) b" "(b, a, D) \<in> news (f i)"
    unfolding awaits_def by blast
  then show ?thesis
  proof cases
    case 2
    with later obtain j where "j \<ge> i" "b \<in> in_book (f (Suc j)) a" by blast
    then show ?thesis using as[of "Suc j" a b] a bN by simp
  next
    case 3
    with later obtain j where j: "j \<ge> i" "rosters (f (Suc j)) b = rosters (f j) b \<union> (D - {b})" by blast
    have "a \<in> D" using sound 3(2) news_trueD(1) unfolding mesh_sound_def by metis
    with j(2) \<open>a \<noteq> b\<close> have "a \<in> rosters (f (Suc j)) b" by simp
    with rs[of "Suc j" b] bN j(1) 3(1) show ?thesis by simp
  qed simp
qed

lemma settled_lighter:
  assumes run: "delivery_run ser h f" and ok: "mesh_ok addr N (f 0)"
    and wa: "well_addressed addr" and busy: "in_flight (f j) \<noteq> []" and "i \<le> j"
    and rs: "\<And>j a. i \<le> j \<Longrightarrow> a \<in> N \<Longrightarrow> rosters (f j) a = K a"
    and full: "\<And>a. a \<in> N \<Longrightarrow> K a \<subseteq> in_book (f i) a" and itself: "nobody_itself K"
  defines "w \<equiv> \<lambda>j. sum_list (map (news_weight K) (map news_of (in_flight (f j))))"
  shows "w (Suc j) < w j"
proof -
  have okj: "mesh_ok addr N (f j)" and grows: "mesh_grows (f i) (f (Suc j))"
    using run_ok[OF run ok wa, of j] run_ok[OF run ok wa, of i "Suc j"] assms(5) by auto
  have "deliver ser (h j) (f j) (f (Suc j))" using run busy by (simp add: delivery_run_def)
  from okj wa this show ?thesis
  proof (rule delivery)
    fix pre post r hd D L
    assume m: "news_of (h j) = (r, hd, D)" and r: "r \<in> N"
      and fl: "in_flight (f j) = pre @ h j # post"
      and new: "rosters (f (Suc j)) r = rosters (f j) r \<union> (D - {r})"
      and L: "set L = rosters (f (Suc j)) r - rosters (f j) r"
      and fl': "map news_of (in_flight (f (Suc j))) = map news_of (pre @ post)
        @ map (\<lambda>n. (n, r, insert r {x \<in> rosters (f (Suc j)) r. x \<noteq> n \<and> x \<in> in_book (f (Suc j)) r}))
            (L @ (if \<exists>x\<in>rosters (f (Suc j)) r. x \<noteq> hd \<and> x \<notin> D then [hd] else []))"
    have K: "rosters (f j) r = K r" "rosters (f (Suc j)) r = K r" using rs r assms(5) by simp_all
    have "L = []" using L K by simp
    have "D \<subseteq> insert r (K r)" using new K by auto
    then have answers: "(\<exists>x\<in>K r. x \<noteq> hd \<and> x \<notin> D) = answered K (r, hd, D)" by (simp add: answered_def)
    have "K r \<subseteq> in_book (f (Suc j)) r" using full[OF r] grows by (auto simp: mesh_grows_def)
    then have "{x \<in> K r. x \<noteq> hd \<and> x \<in> in_book (f (Suc j)) r} = K r - {hd}" by auto
    then have "w (Suc j) = sum_list (map (news_weight K) (map news_of (pre @ post)))
        + (if answered K (r, hd, D) then news_weight K (full_news K hd r) else 0)"
      unfolding w_def fl' K \<open>L = []\<close> answers by (simp add: full_news_def)
    moreover have "w j = sum_list (map (news_weight K) (map news_of (pre @ post))) + news_weight K (r, hd, D)"
      by (simp add: w_def fl m)
    moreover have "0 < news_weight K (r, hd, D)" by (simp add: news_weight_def)
    ultimately show ?thesis using answer_lighter[OF itself] by simp
  qed
qed

lemma no_descent: "\<not> (\<forall>j\<ge>i. (w (Suc j) :: nat) < w j)"
proof
  assume dec: "\<forall>j\<ge>i. w (Suc j) < w j"
  have "w (i + n) + n \<le> w i" for n
  proof (induction n)
    case (Suc n)
    with dec[rule_format, of "i + n"] show ?case by simp
  qed simp
  from this[of "Suc (w i)"] show False by simp
qed

text \<open>
  C4: the announcements come to an end, and then everybody knows everybody. Once the nodes, each
  with an address to announce, stop doing anything but handling announcements, a run that handles
  every announcement some time reaches a moment with none in flight; at that moment any two
  nodes that were connected by introductions know each other.\<close>

theorem mesh_settles:
  fixes f :: "nat \<Rightarrow> ('n, 'c, 'a) mesh"
  assumes wa: "well_addressed addr" and fin: "finite N" and r: "mesh_runs ser N (mesh_new addr) (f 0)"
    and run: "delivery_run ser h f" and fair: "fair_run h f"
  shows "\<exists>i. in_flight (f i) = [] \<and>
    (\<forall>a b. (\<lambda>x y. mesh_knows (f 0) x y \<or> mesh_knows (f 0) y x)\<^sup>*\<^sup>* a b \<longrightarrow> a \<noteq> b \<longrightarrow> mesh_knows (f i) a b)"
proof -
  have ok: "mesh_ok addr N (f 0)"
    using mesh_runs_next[OF r mesh_ok_new[OF wa] wa] by (simp add: mesh_next_def)
  have "\<exists>i. in_flight (f i) = []"
  proof (rule ccontr)
    assume "\<not> ?thesis"
    then have busy: "in_flight (f j) \<noteq> []" for j by blast
    obtain i where rs: "\<And>j a. i \<le> j \<Longrightarrow> a \<in> N \<Longrightarrow> rosters (f j) a = rosters (f i) a"
      and as: "\<And>j a b. i \<le> j \<Longrightarrow> a \<in> N \<Longrightarrow> b \<in> N \<Longrightarrow> b \<in> in_book (f j) a \<Longrightarrow> b \<in> in_book (f i) a"
      using settled_from[OF run ok wa fin] by blast
    have "b \<in> in_book (f i) a" if "a \<in> N" "b \<in> rosters (f i) a" for a b
      by (rule settled_addressed[OF run fair ok wa busy]) (fact rs as that)+
    then have full: "rosters (f i) a \<subseteq> in_book (f i) a" if "a \<in> N" for a
      using that by blast
    have itself: "nobody_itself (rosters (f i))"
      using run_ok[OF run ok wa, of i] by (simp add: mesh_ok_def mesh_sound_def)
    let ?w = "\<lambda>j. sum_list (map (news_weight (rosters (f i))) (map news_of (in_flight (f j))))"
    have "?w (Suc j) < ?w j" if "i \<le> j" for j
      by (rule settled_lighter[OF run ok wa busy that _ _ itself]) (fact rs full)+
    then show False using no_descent[of i ?w] by blast
  qed
  then obtain i where i: "in_flight (f i) = []" ..
  moreover have "mesh_runs ser N (f 0) (f i)" using run_ok[OF run ok wa] by blast
  ultimately show ?thesis
    using mesh_complete_knows[OF wa r] by blast
qed

section \<open>First come, first served\<close>

definition deliver_next ::
  "('n, 'a) peer_message serializer \<Rightarrow> nat \<Rightarrow> ('n, 'c, 'a) mesh \<Rightarrow> ('n, 'c, 'a) mesh" where
  "deliver_next ser now net =
     (case in_flight net of
        [] \<Rightarrow> net
      | (b, nodes) # rest \<Rightarrow>
          moved b (handle_announce ser now nodes (at_node net b))
            (rest @ announce_sends ser now nodes (at_node net b)) net)"

primrec settle ::
  "('n, 'a) peer_message serializer \<Rightarrow> nat \<Rightarrow> nat \<Rightarrow> ('n, 'c, 'a) mesh \<Rightarrow> ('n, 'c, 'a) mesh" where
  "settle ser now 0 net = net"
| "settle ser now (Suc k) net = deliver_next ser now (settle ser now k net)"

lemma deliver_next_cases:
  "if in_flight net = [] then deliver_next ser now net = net
   else deliver ser (hd (in_flight net)) net (deliver_next ser now net)
     \<and> (\<exists>ms. in_flight (deliver_next ser now net) = tl (in_flight net) @ ms)"
proof (cases "in_flight net")
  case (Cons m rest)
  obtain b nodes where m: "m = (b, nodes)" by fastforce
  have "deliver ser (b, nodes) net (moved b (handle_announce ser now nodes (at_node net b))
      ([] @ rest @ announce_sends ser now nodes (at_node net b)) net)"
    by (rule delivered) (simp add: Cons m)
  then show ?thesis by (simp add: deliver_next_def Cons m moved_def)
qed (simp add: deliver_next_def)

lemma settle_runs: "mesh_runs ser N net (settle ser now k net)"
proof (induction k)
  case (Suc k)
  have "settle ser now (Suc k) net = settle ser now k net
      \<or> mesh_step ser N (settle ser now k net) (settle ser now (Suc k) net)"
    using deliver_next_cases[of "settle ser now k net" ser now] ms_deliver
    by (cases "in_flight (settle ser now k net) = []") (simp_all, blast)
  with Suc.IH show ?case by (metis rtranclp.rtrancl_into_rtrancl)
qed simp

lemma fifo_run:
  "delivery_run ser (\<lambda>i. hd (in_flight (settle ser now i net))) (\<lambda>i. settle ser now i net)"
  unfolding delivery_run_def
  using deliver_next_cases[of "settle ser now _ net" ser now] by (auto split: if_splits)

lemma fifo_fair:
  "fair_run (\<lambda>i. hd (in_flight (settle ser now i net))) (\<lambda>i. settle ser now i net)"
proof -
  have "\<exists>j\<ge>i. hd (in_flight (settle ser now j net)) = in_flight (settle ser now i net) ! k"
    if "k < length (in_flight (settle ser now i net))" for i k
    using that
  proof (induction k arbitrary: i)
    case 0
    then show ?case by (intro exI[of _ i]) (simp add: hd_conv_nth)
  next
    case (Suc k)
    then have "in_flight (settle ser now i net) \<noteq> []" by auto
    with deliver_next_cases[of "settle ser now i net" ser now]
    obtain ms where "in_flight (settle ser now (Suc i) net) = tl (in_flight (settle ser now i net)) @ ms"
      by auto
    with Suc.prems have "k < length (in_flight (settle ser now (Suc i) net))"
      "in_flight (settle ser now (Suc i) net) ! k = in_flight (settle ser now i net) ! Suc k"
      by (auto simp: nth_append nth_tl)
    with Suc.IH[of "Suc i"] show ?case by (metis Suc_leD)
  qed
  then show ?thesis unfolding fair_run_def by (metis in_set_conv_nth)
qed

section \<open>Three nodes\<close>

text \<open>Nodes 1 and 3 each join node 2 and nothing else, as \<^verbatim>\<open>plasmoid start --peer\<close> does, by id.\<close>

definition ser0 :: "(nat, nat) peer_message serializer" where
  "ser0 m = Some []"

definition trio :: "nat set" where
  "trio = {1, 2, 3}"

definition joins ::
  "nat \<Rightarrow> nat \<Rightarrow> (nat, unit, nat) mesh \<Rightarrow> (nat, unit, nat) mesh" where
  "joins a b net = moved a (join ser0 0 b (at_node net a)) (in_flight net @ join_sends 0 b (at_node net a)) net"

lemma joins_step: "a \<in> N \<Longrightarrow> b \<in> N \<Longrightarrow> mesh_step ser0 N net (joins a b net)"
  unfolding joins_def by (rule ms_join)

definition own_addr :: "nat \<Rightarrow> (nat, nat) endpoint_addr" where
  "own_addr n = \<lparr>addr_id = n, addrs = [n]\<rparr>"

lemma own_addr_ok: "well_addressed own_addr"
  by (simp add: well_addressed_def own_addr_def)

definition introductions :: "(nat, unit, nat) mesh" where
  "introductions = joins 3 2 (joins 1 2 (mesh_new own_addr))"

lemma introductions_made: "mesh_runs ser0 trio (mesh_new own_addr) introductions"
  unfolding introductions_def
  by (rule rtranclp_trans[OF r_into_rtranclp r_into_rtranclp]; rule joins_step; simp add: trio_def)

lemma introductions_path:
  "(\<lambda>x y. mesh_knows introductions x y \<or> mesh_knows introductions y x)\<^sup>*\<^sup>* 1 3"
proof -
  have "mesh_knows introductions 1 2" "mesh_knows introductions 3 2" by code_simp+
  then show ?thesis by (intro rtranclp_trans[of _ 1 2 3] r_into_rtranclp) simp_all
qed

theorem mesh_complete_witness:
  "mesh_knows (settle ser0 0 8 introductions) 1 3
   \<and> addrs (dial_target (nd_peers (at_node (settle ser0 0 8 introductions) 1)) 3) \<noteq> []"
proof (rule mesh_complete[OF own_addr_ok introductions_made introductions_path _ settle_runs])
  show "in_flight (settle ser0 0 8 introductions) = []" by code_simp
qed simp

theorem mesh_settles_witness:
  "\<exists>i. in_flight (settle ser0 0 i introductions) = [] \<and> mesh_knows (settle ser0 0 i introductions) 1 3"
proof -
  have "mesh_runs ser0 trio (mesh_new own_addr) (settle ser0 0 0 introductions)" "finite trio"
    using introductions_made by (simp_all add: trio_def)
  from mesh_settles[OF own_addr_ok this(2,1) fifo_run fifo_fair]
  obtain i where "in_flight (settle ser0 0 i introductions) = []"
    and all: "\<forall>a b. (\<lambda>x y. mesh_knows introductions x y \<or> mesh_knows introductions y x)\<^sup>*\<^sup>* a b \<longrightarrow> a \<noteq> b
      \<longrightarrow> mesh_knows (settle ser0 0 i introductions) a b"
    by auto
  moreover have "mesh_knows (settle ser0 0 i introductions) 1 3"
    using all introductions_path by simp
  ultimately show ?thesis by blast
qed

section \<open>A node without an address\<close>

text \<open>
  Two nodes whose rosters agree, both knowing a third that neither has an address for; what is in
  flight is their announcements to each other.
\<close>

definition pinging :: "'n \<Rightarrow> 'n \<Rightarrow> 'n \<Rightarrow> ('n, 'c, 'a) mesh \<Rightarrow> bool" where
  "pinging a b x net \<longleftrightarrow>
     a \<noteq> b \<and> x \<noteq> a \<and> x \<noteq> b
     \<and> (\<forall>c\<in>{a, b}. \<exists>self. sound_node c self (at_node net c) \<and> addr_id self = c)
     \<and> insert a (rosters net a) = insert b (rosters net b)
     \<and> x \<in> rosters net a \<and> x \<notin> in_book net a \<and> x \<notin> in_book net b
     \<and> (\<forall>m\<in>set (in_flight net). snd m \<noteq> [] \<and> {fst m, addr_id (hd (snd m))} = {a, b}
          \<and> addr_id ` set (snd m) \<subseteq> insert a (rosters net a) - {x})"

lemma pinging_sym: "pinging a b x net \<Longrightarrow> pinging b a x net"
proof -
  assume p: "pinging a b x net"
  then have agree: "insert a (rosters net a) = insert b (rosters net b)" and "x \<in> rosters net a" "x \<noteq> b"
    by (simp_all add: pinging_def)
  then have "x \<in> rosters net b" by blast
  with p show ?thesis
    unfolding pinging_def agree[symmetric] by (auto simp: insert_commute[of b a])
qed

text \<open>Whatever addresses the nodes have, their own state is in order.\<close>

lemma sound_step:
  assumes all: "\<And>a. sound_node a (addr a) (at_node net a)" and step: "mesh_step ser N net net'"
  shows "sound_node a (addr a) (at_node net' a)"
proof -
  have moved: "sound_node a (addr a) (at_node (moved b nd fl net) a)"
    if "sound_node b (addr b) nd" for b nd fl
    using that all by (simp add: moved_def)
  have told: "sound_node b (addr b) ((do_links ser (on_links ms) (learning now ns nd))\<lparr>nd_tasks := tks\<rparr>)"
    if "sound_node b (addr b) nd" for b ms now ns nd tks
    using sound_links[OF learning_sound(1)[OF that]] by simp
  note remembered = sound_moved(2)[where addr = addr and net = net, OF all]
  from step show ?thesis
  proof cases
    case (ms_join c b now)
    have "\<exists>tks. join ser now b (at_node net c) = (do_links ser (on_links (join_sends now b (at_node net c)))
        (learning now [b] (at_node net c)))\<lparr>nd_tasks := tks\<rparr>"
      by (rule exI[of _ "nd_tasks (join ser now b (at_node net c))"]) (simp add: join_links)
    then show ?thesis using moved told[OF all] ms_join(1) by metis
  next
    case (ms_join_at c p now)
    have "\<exists>tks. join_at ser now p (at_node net c) = (do_links ser (on_links
        (join_sends now (addr_id p) (remembering ser [p] (at_node net c))))
        (learning now [addr_id p] (remembering ser [p] (at_node net c))))\<lparr>nd_tasks := tks\<rparr>"
      by (auto simp: join_at_links Let_def sync_with_all_def)
    then show ?thesis using moved told[OF remembered] ms_join_at(1) by metis
  next
    case (ms_accept c b now)
    then show ?thesis using moved told[OF all] accept_links by metis
  next
    case (ms_deliver m)
    from ms_deliver(1) show ?thesis
    proof cases
      case (delivered pre c nodes post now)
      then show ?thesis using moved told[OF remembered] announce_links by metis
    qed
  next
    case (ms_other c nd ops)
    have "sound_node c (addr c) nd"
      using sound_links[OF all[of c], of ser ops] ms_other(3,4) by (simp add: sound_node_def do_links_def)
    then show ?thesis using moved ms_other(1) by simp
  qed
qed

lemma sound_new: "sound_node a (addr a) (at_node (mesh_new addr) a)"
  by (simp add: mesh_new_def sound_node_def node_new_def our_addr_def peer_links_new_def book_ok_def
      cluster_inv_new) (simp add: cluster_new_def)

lemma sound_runs: "mesh_runs ser N (mesh_new addr) net \<Longrightarrow> sound_node a (addr a) (at_node net a)"
proof (induction arbitrary: a rule: rtranclp_induct)
  case base
  show ?case by (rule sound_new)
next
  case (step y z)
  show ?case by (rule sound_step[OF step.IH step.hyps(2)])
qed

lemma pong:
  assumes p: "pinging a b x net" and fl: "in_flight net = pre @ (b, nodes) # post"
    and net': "net' = moved b (handle_announce ser now nodes (at_node net b))
        (pre @ post @ announce_sends ser now nodes (at_node net b)) net"
  shows "pinging a b x net' \<and> length (in_flight net') = length (in_flight net)
    \<and> rosters net' a = rosters net a \<and> rosters net' b = rosters net b"
proof -
  let ?nd = "remembering ser nodes (at_node net b)"
  let ?ids = "map addr_id nodes"
  let ?l = "learning now ?ids ?nd"
  have ne: "a \<noteq> b" "x \<noteq> a" "x \<noteq> b" and agree: "insert a (rosters net a) = insert b (rosters net b)"
    and x: "x \<in> rosters net a" "x \<notin> in_book net b"
    using p by (simp_all add: pinging_def)
  have pings: "\<forall>m\<in>set (in_flight net). snd m \<noteq> [] \<and> {fst m, addr_id (hd (snd m))} = {a, b}
      \<and> addr_id ` set (snd m) \<subseteq> insert a (rosters net a) - {x}"
    by - (insert p[unfolded pinging_def], elim conjE, assumption)
  obtain self where s: "sound_node b self (at_node net b)" and self: "addr_id self = b"
    using p by (auto simp: pinging_def)
  note s' = sound_links[OF s, of ser "map LRemember nodes", folded remembering_def]
  note l = learning_sound[OF s', of now ?ids]
  have m: "nodes \<noteq> []" "addr_id (hd nodes) = a" "addr_id ` set nodes \<subseteq> insert a (rosters net a) - {x}"
    using p ne(1) unfolding pinging_def fl by (auto simp: doubleton_eq_iff)
  have xb: "x \<in> rosters net b" using agree x(1) ne(3) by blast
  have roster: "roster_of ?l = rosters net b"
    using l(2) m(3) agree by (auto simp: remembering_views)
  have in_book: "x \<notin> addressed_of ?l" using x(2) m(3) by (auto simp: remembering_views)
  have "learned_of now ?ids ?nd = []"
    using l(3) m(3) agree by (auto simp: remembering_views learned_nothing)
  moreover have "unnamed ?ids ?l"
  proof -
    have "x \<notin> set ?ids" "x \<noteq> hd ?ids" using m ne by (auto simp: hd_map)
    then show ?thesis
      using xb roster by (auto simp: unnamed_def list_ex_iff cl_nodes_def roster_of_def)
  qed
  ultimately have sends: "announce_sends ser now nodes (at_node net b) = [(a, announcement ?l a)]"
    using m(1,2) by (simp add: announce_sends_def Let_def announcements_def hd_map)
  obtain tks where nd: "handle_announce ser now nodes (at_node net b) =
      (do_links ser (on_links (announce_sends ser now nodes (at_node net b))) ?l)\<lparr>nd_tasks := tks\<rparr>"
    using announce_links by metis
  have at: "at_node net' c = (if c = b then handle_announce ser now nodes (at_node net b) else at_node net c)" for c
    by (simp add: net' moved_def)
  have fl': "in_flight net' = pre @ post @ [(a, announcement ?l a)]" by (simp add: net' moved_def sends)
  have r: "rosters net' a = rosters net a" "rosters net' b = rosters net b"
    "in_book net' a = in_book net a" "in_book net' b = addressed_of ?l"
    using ne(1) by (simp_all add: at nd roster)
  have "sound_node b self (at_node net' b)" using sound_links[OF l(1)] by (simp add: at nd)
  then have sound: "\<forall>c\<in>{a, b}. \<exists>self. sound_node c self (at_node net' c) \<and> addr_id self = c"
    using p self ne(1) by (auto simp: pinging_def at)
  note ann = announcement_names[OF l(1), where n = a]
  have "addr_id ` set (announcement ?l a) \<subseteq> insert a (rosters net a) - {x}"
    using ann(3) roster in_book agree self ne by auto
  moreover have "\<forall>m\<in>set (pre @ post). snd m \<noteq> [] \<and> {fst m, addr_id (hd (snd m))} = {a, b}
      \<and> addr_id ` set (snd m) \<subseteq> insert a (rosters net a) - {x}"
    using pings by (simp add: fl)
  ultimately have "pinging a b x net'"
    using ne agree x(1) p in_book sound ann(1,2) self by (simp add: pinging_def fl' r)
  with r show ?thesis by (simp add: fl fl')
qed

text \<open>
  C17: announcements can circulate for ever. Two nodes know each other and their rosters agree, but
  both know a third node whose address neither has. Once announcements are all that is in flight
  between them, they answer each other's without end: whichever of the two an announcement is for, it
  sends one back, since the sender did not name the third node; nobody learns anything.\<close>

theorem announcements_livelock:
  assumes "pinging a b x net" and "(\<lambda>n n'. \<exists>m. deliver ser m n n')\<^sup>*\<^sup>* net net'"
  shows "length (in_flight net') = length (in_flight net)
    \<and> rosters net' a = rosters net a \<and> rosters net' b = rosters net b"
proof -
  have "pinging a b x net' \<and> length (in_flight net') = length (in_flight net)
    \<and> rosters net' a = rosters net a \<and> rosters net' b = rosters net b"
    using assms(2)
  proof (induction rule: rtranclp_induct)
    case (step y z)
    then obtain m where p: "pinging a b x y" and d: "deliver ser m y z" by blast
    from d show ?case
    proof cases
      case (delivered pre q nodes post now)
      have "q = a \<or> q = b" using p unfolding pinging_def delivered(3) by (auto simp: doubleton_eq_iff)
      then have "pinging a b x z \<and> length (in_flight z) = length (in_flight y)
          \<and> rosters z a = rosters y a \<and> rosters z b = rosters y b"
      proof
        assume "q = b"
        with pong[OF p delivered(3)[unfolded \<open>q = b\<close>]] delivered(2) show ?thesis by simp
      next
        assume "q = a"
        with pong[OF pinging_sym[OF p] delivered(3)[unfolded \<open>q = a\<close>]] delivered(2) pinging_sym[of b a x z]
        show ?thesis by simp
      qed
      then show ?thesis using step.IH by simp
    qed
  qed (use assms(1) in simp)
  then show ?thesis by simp
qed

text \<open>
  Node 3 starts, does not yet know its own address, and joins nodes 1 and 2, which have never met.
\<close>

definition late_addr :: "nat \<Rightarrow> (nat, nat) endpoint_addr" where
  "late_addr n = (if n = 3 then \<lparr>addr_id = n, addrs = []\<rparr> else own_addr n)"

definition late_joins :: "(nat, unit, nat) mesh" where
  "late_joins = joins 3 2 (joins 3 1 (mesh_new late_addr))"

lemma late_joins_made: "mesh_runs ser0 trio (mesh_new late_addr) (settle ser0 0 7 late_joins)"
proof -
  have "mesh_runs ser0 trio (mesh_new late_addr) late_joins"
    unfolding late_joins_def
    by (rule rtranclp_trans[OF r_into_rtranclp r_into_rtranclp]; rule joins_step; simp add: trio_def)
  then show ?thesis using settle_runs by (rule rtranclp_trans)
qed

lemma settle_deliveries: "(\<lambda>n n'. \<exists>m. deliver ser m n n')\<^sup>*\<^sup>* net (settle ser now k net)"
proof (induction k)
  case (Suc k)
  show ?case
  proof (cases "in_flight (settle ser now k net) = []")
    case True
    then have "settle ser now (Suc k) net = settle ser now k net" by (simp add: deliver_next_def)
    with Suc.IH show ?thesis by simp
  next
    case False
    then have "deliver ser (hd (in_flight (settle ser now k net))) (settle ser now k net) (settle ser now (Suc k) net)"
      using deliver_next_cases[of "settle ser now k net" ser now] by simp
    then have "\<exists>m. deliver ser m (settle ser now k net) (settle ser now (Suc k) net)" ..
    with Suc.IH show ?thesis by (rule rtranclp.rtrancl_into_rtrancl)
  qed
qed simp

theorem announcements_livelock_witness:
  "mesh_runs ser0 trio (mesh_new late_addr) (settle ser0 0 7 late_joins)
   \<and> (\<forall>k. length (in_flight (settle ser0 0 k (settle ser0 0 7 late_joins))) = 2)"
proof -
  let ?net = "settle ser0 0 7 late_joins"
  have fl: "in_flight ?net = [(2, [own_addr 1]), (2, [own_addr 1])]" by code_simp
  have mem: "members (nd_cluster (at_node ?net 1)) = [3, 2]" "members (nd_cluster (at_node ?net 2)) = [3, 1]"
    by code_simp+
  have known: "hm_get (known (nd_peers (at_node ?net 1))) 3 = None"
    "hm_get (known (nd_peers (at_node ?net 2))) 3 = None" by code_simp+
  have sound: "\<exists>self. sound_node c self (at_node ?net c) \<and> addr_id self = c" for c
    using sound_runs[OF late_joins_made, of c] by (auto simp: late_addr_def own_addr_def intro!: exI)
  have "pinging 1 2 3 ?net"
    unfolding pinging_def using sound
    by (simp add: fl mem known roster_of_def addressed_of_def own_addr_def insert_commute del: One_nat_def)
  from announcements_livelock[OF this settle_deliveries] fl late_joins_made show ?thesis by simp
qed

text \<open>The mesh then is not transitive: nodes 1 and 3 join node 2, and never hear of each other.\<close>

definition unaddressed :: "(nat, unit, nat) mesh" where
  "unaddressed = joins 3 2 (joins 1 2 (mesh_new (\<lambda>n. \<lparr>addr_id = n, addrs = []\<rparr>)))"

lemma mesh_not_transitive:
  "in_flight (settle ser0 0 6 unaddressed) = []
   \<and> mesh_knows (settle ser0 0 6 unaddressed) 1 2 \<and> mesh_knows (settle ser0 0 6 unaddressed) 2 3
   \<and> \<not> mesh_knows (settle ser0 0 6 unaddressed) 1 3"
  by code_simp

end
