(* ===== verification/Commands.thy ===== *)
theory Commands
  imports Hosts
begin

text \<open>
  The command line and the application of a node (\<^verbatim>\<open>src/main.rs\<close>, \<^verbatim>\<open>src/app.rs\<close>): parsing the
  arguments, booting a node from them, and what the death of an application's root means for it.

  The file system, the environment, the parser of node ids and the TOML parser are the fields of
  \<open>cli_env\<close>. What a command prints is not modelled.
\<close>

section \<open>Application manifests\<close>

datatype restart_type = RtPermanent | RtTransient | RtTemporary

definition should_stop_node :: "restart_type \<Rightarrow> bool \<Rightarrow> bool" where
  "should_stop_node t abnormal = (case t of RtPermanent \<Rightarrow> True | RtTransient \<Rightarrow> abnormal | RtTemporary \<Rightarrow> False)"

record manifest =
  app_name :: string
  app_root :: string
  app_type :: restart_type
  app_init_args :: string

text \<open>What a manifest says, as the TOML parser yields it; the type and the arguments may be left out.\<close>

record raw_manifest =
  raw_name :: "string option"
  raw_root :: "string option"
  raw_type :: "string option"
  raw_init_args :: "string option"

definition restart_type_of :: "string \<Rightarrow> restart_type option" where
  "restart_type_of s =
     (if s = ''permanent'' then Some RtPermanent
      else if s = ''transient'' then Some RtTransient
      else if s = ''temporary'' then Some RtTemporary
      else None)"

definition manifest_from_toml :: "(string \<Rightarrow> raw_manifest option) \<Rightarrow> string \<Rightarrow> manifest option" where
  "manifest_from_toml toml src =
     (case toml src of
        None \<Rightarrow> None
      | Some raw \<Rightarrow>
          (case (raw_name raw, raw_root raw,
                 case raw_type raw of None \<Rightarrow> Some RtPermanent | Some t \<Rightarrow> restart_type_of t) of
             (Some n, Some r, Some t) \<Rightarrow>
               Some \<lparr>app_name = n, app_root = r, app_type = t,
                     app_init_args = (case raw_init_args raw of Some a \<Rightarrow> a | None \<Rightarrow> [])\<rparr>
           | _ \<Rightarrow> None))"

section \<open>Paths\<close>

fun split_on :: "char \<Rightarrow> string \<Rightarrow> string list" where
  "split_on c [] = [[]]"
| "split_on c (x # xs) =
     (if x = c then [] # split_on c xs
      else (case split_on c xs of [] \<Rightarrow> [[x]] | p # ps \<Rightarrow> (x # p) # ps))"

definition path_file_name :: "string \<Rightarrow> string option" where
  "path_file_name path =
     (let parts = filter (\<lambda>p. p \<noteq> [] \<and> p \<noteq> ''.'') (split_on CHR ''/'' path)
      in if parts = [] \<or> last parts = ''..'' then None else Some (last parts))"

text \<open>\<^verbatim>\<open>Path::file_stem\<close> and \<^verbatim>\<open>Path::extension\<close>: a leading dot belongs to the stem.\<close>

definition path_stem :: "string \<Rightarrow> string option" where
  "path_stem path =
     map_option (\<lambda>f. case rsplit_once CHR ''.'' f of
        Some (before, _) \<Rightarrow> if before = [] then f else before | None \<Rightarrow> f) (path_file_name path)"

definition path_extension :: "string \<Rightarrow> string option" where
  "path_extension path =
     (case path_file_name path of
        None \<Rightarrow> None
      | Some f \<Rightarrow>
          (case rsplit_once CHR ''.'' f of
             Some (before, after) \<Rightarrow> if before = [] then None else Some after | None \<Rightarrow> None))"

definition path_join :: "string \<Rightarrow> string \<Rightarrow> string" where
  "path_join a b = (if a = [] then b else if last a = CHR ''/'' then a @ b else a @ ''/'' @ b)"

definition contains_str :: "string \<Rightarrow> string \<Rightarrow> bool" where
  "contains_str s part \<longleftrightarrow> list_ex (\<lambda>i. take (length part) (drop i s) = part) [0..<Suc (length s)]"

definition ends_with :: "string \<Rightarrow> string \<Rightarrow> bool" where
  "ends_with s suffix_str \<longleftrightarrow> length suffix_str \<le> length s \<and> drop (length s - length suffix_str) s = suffix_str"

section \<open>Arguments\<close>

record 'n cli_env =
  parse_id :: "string \<Rightarrow> 'n option"
  is_dir :: "string \<Rightarrow> bool"
  read_dir :: "string \<Rightarrow> string list option"
  read_file :: "string \<Rightarrow> bytes option"
  read_text :: "string \<Rightarrow> string option"
  parse_toml :: "string \<Rightarrow> raw_manifest option"
  env_var :: "string \<Rightarrow> string option"

datatype cli_error =
    NeedsValue string
  | BadNodeId string
  | NotADirectory string
  | CannotRead string
  | BadManifest string
  | UnexpectedArgument string
  | NoModules
  | BadWasmPath string
  | LoadFailed string
  | SpawnFailed string
  | RootFailed string
  | MissingComponent
  | NoNodeGiven
  | Usage

record spawn_spec =
  spec_component :: string
  spec_name :: "string option"
  spec_init_args :: string

definition load_manifest :: "'n cli_env \<Rightarrow> string \<Rightarrow> manifest option" where
  "load_manifest e path =
     (case read_text e path of None \<Rightarrow> None | Some src \<Rightarrow> manifest_from_toml (parse_toml e) src)"

record 'n start_args =
  arg_wasm_files :: "string list"
  arg_spawns :: "spawn_spec list"
  arg_data_dir :: "string option"
  arg_peers :: "'n list"
  arg_manifest :: "manifest option"

text \<open>The options after \<^verbatim>\<open>--spawn <component>\<close>; the loop ends at the first argument that is neither.\<close>

fun parse_spawn_options ::
  "string list \<Rightarrow> string option \<Rightarrow> string \<Rightarrow> cli_error + (string option \<times> string \<times> string list)" where
  "parse_spawn_options [] name init = Inr (name, init, [])"
| "parse_spawn_options (a # as) name init =
     (if a = ''--name'' then
        (case as of [] \<Rightarrow> Inl (NeedsValue a) | v # rest \<Rightarrow> parse_spawn_options rest (Some v) init)
      else if a = ''--init'' then
        (case as of [] \<Rightarrow> Inl (NeedsValue a) | v # rest \<Rightarrow> parse_spawn_options rest name v)
      else Inr (name, init, a # as))"

lemma parse_spawn_options_shrinks:
  "parse_spawn_options as name init = Inr (n, i, rest) \<Longrightarrow> length rest \<le> length as"
proof (induction as name init rule: parse_spawn_options.induct)
  case (2 a as name init)
  then show ?case by (auto split: if_splits list.splits)
qed simp

function parse_start :: "'n cli_env \<Rightarrow> string list \<Rightarrow> 'n start_args \<Rightarrow> cli_error + 'n start_args" where
  "parse_start e [] acc = Inr acc"
| "parse_start e (a # as) acc =
     (if a = ''--data-dir'' then
        (case as of [] \<Rightarrow> Inl (NeedsValue a) | v # rest \<Rightarrow> parse_start e rest (acc\<lparr>arg_data_dir := Some v\<rparr>))
      else if a = ''--peer'' then
        (case as of [] \<Rightarrow> Inl (NeedsValue a)
         | v # rest \<Rightarrow>
             (case parse_id e v of None \<Rightarrow> Inl (BadNodeId v)
              | Some n \<Rightarrow> parse_start e rest (acc\<lparr>arg_peers := arg_peers acc @ [n]\<rparr>)))
      else if a = ''--load-path'' then
        (case as of [] \<Rightarrow> Inl (NeedsValue a)
         | v # rest \<Rightarrow>
             if \<not> is_dir e v then Inl (NotADirectory v)
             else (case read_dir e v of None \<Rightarrow> Inl (CannotRead v)
                   | Some entries \<Rightarrow>
                       parse_start e rest (acc\<lparr>arg_wasm_files := arg_wasm_files acc
                          @ filter (\<lambda>p. path_extension p = Some ''wasm'') entries\<rparr>)))
      else if a = ''--app'' then
        (case as of [] \<Rightarrow> Inl (NeedsValue a)
         | v # rest \<Rightarrow>
             (case load_manifest e v of None \<Rightarrow> Inl (BadManifest v)
              | Some m \<Rightarrow> parse_start e rest (acc\<lparr>arg_manifest := Some m\<rparr>)))
      else if a = ''--spawn'' then
        (case as of [] \<Rightarrow> Inl (NeedsValue a)
         | c # rest \<Rightarrow>
             (case parse_spawn_options rest None [] of Inl er \<Rightarrow> Inl er
              | Inr (name, init, rest') \<Rightarrow>
                  parse_start e rest' (acc\<lparr>arg_spawns := arg_spawns acc
                    @ [\<lparr>spec_component = c, spec_name = name, spec_init_args = init\<rparr>]\<rparr>)))
      else if ends_with a ''.wasm'' then
        parse_start e as (acc\<lparr>arg_wasm_files := arg_wasm_files acc @ [a]\<rparr>)
      else Inl (UnexpectedArgument a))"
  by pat_completeness auto

termination
  by (relation "measure (\<lambda>(_, as, _). length as)") (auto dest: parse_spawn_options_shrinks)

definition no_args :: "'n start_args" where
  "no_args = \<lparr>arg_wasm_files = [], arg_spawns = [], arg_data_dir = None, arg_peers = [], arg_manifest = None\<rparr>"

definition start_options :: "'n cli_env \<Rightarrow> string list \<Rightarrow> cli_error + 'n start_args" where
  "start_options e as =
     (case parse_start e as no_args of
        Inl er \<Rightarrow> Inl er
      | Inr opts \<Rightarrow> if arg_wasm_files opts = [] then Inl NoModules else Inr opts)"

definition default_data_dir :: "'n cli_env \<Rightarrow> string" where
  "default_data_dir e =
     (case env_var e ''XDG_CONFIG_HOME'' of
        Some x \<Rightarrow> path_join x ''plasmoid''
      | None \<Rightarrow> (case env_var e ''HOME'' of Some x \<Rightarrow> path_join x ''.config/plasmoid'' | None \<Rightarrow> ''.config/plasmoid''))"

record 'n spawn_call =
  call_node :: 'n
  call_request :: spawn_request

fun parse_call_options :: "string list \<Rightarrow> string option \<Rightarrow> string \<Rightarrow> cli_error + (string option \<times> string)" where
  "parse_call_options [] name init = Inr (name, init)"
| "parse_call_options (a # as) name init =
     (if a = ''--name'' then
        (case as of [] \<Rightarrow> Inl (NeedsValue a) | v # rest \<Rightarrow> parse_call_options rest (Some v) init)
      else if a = ''--init'' then
        (case as of [] \<Rightarrow> Inl (NeedsValue a) | v # rest \<Rightarrow> parse_call_options rest name v)
      else Inl (UnexpectedArgument a))"

definition node_from_env :: "'n cli_env \<Rightarrow> cli_error + 'n" where
  "node_from_env e =
     (case env_var e ''PLASMOID_NODE'' of
        None \<Rightarrow> Inl NoNodeGiven
      | Some s \<Rightarrow> (case parse_id e s of None \<Rightarrow> Inl (BadNodeId s) | Some n \<Rightarrow> Inr n))"

definition cmd_spawn :: "'n cli_env \<Rightarrow> string list \<Rightarrow> cli_error + 'n spawn_call" where
  "cmd_spawn e args =
     (if args = [] then Inl Usage
      else
        (case (if hd args = ''--node'' then
                 (case tl args of
                    [] \<Rightarrow> Inl (NeedsValue ''--node'')
                  | v # rest \<Rightarrow>
                      (case parse_id e v of None \<Rightarrow> Inl (BadNodeId v) | Some n \<Rightarrow> Inr (Some n, rest)))
               else Inr (None, args)) of
           Inl er \<Rightarrow> Inl er
         | Inr (given, rest) \<Rightarrow>
             (case rest of
                [] \<Rightarrow> Inl MissingComponent
              | c # opts \<Rightarrow>
                  (case parse_call_options opts None [] of
                     Inl er \<Rightarrow> Inl er
                   | Inr (name, init) \<Rightarrow>
                       (case (case given of Some n \<Rightarrow> Inr n | None \<Rightarrow> node_from_env e) of
                          Inl er \<Rightarrow> Inl er
                        | Inr n \<Rightarrow>
                            Inr \<lparr>call_node = n, call_request = \<lparr>request_component = c,
                                 request_name = name, request_init_args = init\<rparr>\<rparr>)))))"

record 'n send_call =
  send_node :: 'n
  send_target :: string
  send_message :: string

definition cmd_send :: "'n cli_env \<Rightarrow> string list \<Rightarrow> cli_error + 'n send_call" where
  "cmd_send e args =
     (if length args < 2 then Inl Usage
      else
        (case parse_id e (hd args) of
           Some n \<Rightarrow>
             if length args < 3 then Inl Usage
             else Inr \<lparr>send_node = n, send_target = args ! 1, send_message = args ! 2\<rparr>
         | None \<Rightarrow>
             (case node_from_env e of
                Inl er \<Rightarrow> Inl er
              | Inr n \<Rightarrow> Inr \<lparr>send_node = n, send_target = args ! 0, send_message = args ! 1\<rparr>)))"

section \<open>Booting a node\<close>

fun join_all ::
  "('n, 'a) peer_message serializer \<Rightarrow> nat \<Rightarrow> 'n list \<Rightarrow> ('n, 'c, 'a) node_state \<Rightarrow> ('n, 'c, 'a) node_state" where
  "join_all ser now [] nd = nd"
| "join_all ser now (n # ns) nd = join_all ser now ns (join ser now n nd)"

fun load_all ::
  "'n cli_env \<Rightarrow> (bytes \<Rightarrow> string + 'c) \<Rightarrow> string list \<Rightarrow> ('n, 'c) registry
     \<Rightarrow> (cli_error + unit) \<times> ('n, 'c) registry" where
  "load_all e compile [] reg = (Inr (), reg)"
| "load_all e compile (path # paths) reg =
     (case read_file e path of
        None \<Rightarrow> (Inl (CannotRead path), reg)
      | Some wasm_bytes \<Rightarrow>
          (case path_stem path of
             None \<Rightarrow> (Inl (BadWasmPath path), reg)
           | Some component \<Rightarrow>
               (case register_component compile component wasm_bytes policy_all reg of
                  (Inl _, reg1) \<Rightarrow> (Inl (LoadFailed path), reg1)
                | (Inr (), reg1) \<Rightarrow> load_all e compile paths reg1)))"

fun spawn_all ::
  "('c, 't) wasm \<Rightarrow> spawn_spec list \<Rightarrow> ('n, 'c) registry \<Rightarrow> (cli_error + 'n pid list) \<times> ('n, 'c) registry" where
  "spawn_all w [] reg = (Inr [], reg)"
| "spawn_all w (s # ss) reg =
     (case runtime_spawn w (spec_component s) (spec_name s) (Some policy_all) (spec_init_args s) reg of
        (Inl _, reg1) \<Rightarrow> (Inl (SpawnFailed (spec_component s)), reg1)
      | (Inr p, reg1) \<Rightarrow>
          (case spawn_all w ss reg1 of (Inl er, reg2) \<Rightarrow> (Inl er, reg2) | (Inr ps, reg2) \<Rightarrow> (Inr (p # ps), reg2)))"

text \<open>Up to the point where the node watches its root, or just runs.\<close>

definition boot ::
  "'n cli_env \<Rightarrow> ('n, 'a) peer_message serializer \<Rightarrow> nat \<Rightarrow> (bytes \<Rightarrow> string + 'c) \<Rightarrow> ('c, 't) wasm
     \<Rightarrow> 'n start_args \<Rightarrow> ('n, 'c, 'a) node_state
     \<Rightarrow> (cli_error + 'n pid list \<times> ('n pid \<times> restart_type) option) \<times> ('n, 'c, 'a) node_state" where
  "boot e ser now compile w opts nd =
     (let nd1 = join_all ser now (arg_peers opts) nd
      in case load_all e compile (arg_wasm_files opts) (nd_registry nd1) of
           (Inl er, reg) \<Rightarrow> (Inl er, nd1\<lparr>nd_registry := reg\<rparr>)
         | (Inr (), reg) \<Rightarrow>
             (case spawn_all w (arg_spawns opts) reg of
                (Inl er, reg1) \<Rightarrow> (Inl er, nd1\<lparr>nd_registry := reg1\<rparr>)
              | (Inr ps, reg1) \<Rightarrow>
                  (case arg_manifest opts of
                     None \<Rightarrow> (Inr (ps, None), nd1\<lparr>nd_registry := reg1\<rparr>)
                   | Some m \<Rightarrow>
                       (case runtime_spawn w (app_root m) (Some (app_name m)) (Some policy_all) (app_init_args m) reg1 of
                          (Inl _, reg2) \<Rightarrow> (Inl (RootFailed (app_root m)), nd1\<lparr>nd_registry := reg2\<rparr>)
                        | (Inr root, reg2) \<Rightarrow> (Inr (ps, Some (root, app_type m)), nd1\<lparr>nd_registry := reg2\<rparr>)))))"

section \<open>The root and the fate of the node\<close>

datatype root_fate = StillWatching | NodeContinues | NodeExits int

definition fate_of :: "restart_type \<Rightarrow> exit_reason \<Rightarrow> root_fate" where
  "fate_of t reason =
     (let abnormal = reason \<noteq> Normal
      in if \<not> should_stop_node t abnormal then NodeContinues
         else NodeExits (if abnormal then 1 else 0))"

text \<open>The events are those the receiver sees from its subscription on.\<close>

fun watch_root :: "'n pid \<Rightarrow> restart_type \<Rightarrow> 'n particle_death bc list \<Rightarrow> root_fate" where
  "watch_root root t [] = StillWatching"
| "watch_root root t (BcOk d # es) =
     (if dead_pid d \<noteq> root then watch_root root t es else fate_of t (dead_reason d))"
| "watch_root root t (BcLagged # es) = watch_root root t es"
| "watch_root root t (BcClosed # es) = NodeExits 1"

section \<open>Scaffolding\<close>

definition ascii_lower :: "char \<Rightarrow> bool" where
  "ascii_lower c \<longleftrightarrow> (let n = of_char c :: nat in 97 \<le> n \<and> n \<le> 122)"

definition ascii_digit :: "char \<Rightarrow> bool" where
  "ascii_digit c \<longleftrightarrow> (let n = of_char c :: nat in 48 \<le> n \<and> n \<le> 57)"

datatype name_error = EmptyName | BadFirst | BadCharacter | EndsInHyphen

definition validate_name :: "string \<Rightarrow> name_error + unit" where
  "validate_name s =
     (if s = [] then Inl EmptyName
      else if \<not> ascii_lower (hd s) then Inl BadFirst
      else if \<not> list_all (\<lambda>c. ascii_lower c \<or> ascii_digit c \<or> c = CHR ''-'') s then Inl BadCharacter
      else if last s = CHR ''-'' then Inl EndsInHyphen
      else Inr ())"

text \<open>\<^verbatim>\<open>char::to_uppercase\<close>, for the ASCII letters a valid name has.\<close>

definition to_uppercase :: "char \<Rightarrow> char" where
  "to_uppercase c = (if ascii_lower c then char_of (of_char c - 32 :: nat) else c)"

definition to_pascal_case :: "string \<Rightarrow> string" where
  "to_pascal_case name =
     concat (map (\<lambda>part. case part of [] \<Rightarrow> [] | c # cs \<Rightarrow> to_uppercase c # cs) (split_on CHR ''-'' name))"

text \<open>
  The search for the workspace walks up from the current directory, whose components are given
  innermost first; \<open>cargo d\<close> is the text of \<^verbatim>\<open>Cargo.toml\<close> in \<open>d\<close>: none, unreadable, or read.
\<close>

datatype cargo_file = NoCargo | CargoUnreadable | CargoText string

datatype workspace_error = WorkspaceUnreadable | NotInWorkspace

fun find_workspace_root :: "(string list \<Rightarrow> cargo_file) \<Rightarrow> string list \<Rightarrow> workspace_error + string list" where
  "find_workspace_root cargo [] =
     (case cargo [] of
        CargoUnreadable \<Rightarrow> Inl WorkspaceUnreadable
      | CargoText s \<Rightarrow> if contains_str s ''[workspace]'' then Inr [] else Inl NotInWorkspace
      | NoCargo \<Rightarrow> Inl NotInWorkspace)"
| "find_workspace_root cargo (d # ds) =
     (case cargo (d # ds) of
        CargoUnreadable \<Rightarrow> Inl WorkspaceUnreadable
      | CargoText s \<Rightarrow> if contains_str s ''[workspace]'' then Inr (d # ds) else find_workspace_root cargo ds
      | NoCargo \<Rightarrow> find_workspace_root cargo ds)"

section \<open>The subcommands\<close>

datatype subcommand =
    SubNew "string list"
  | SubComponentNew "string list"
  | SubStart "string list"
  | SubSpawn "string list"
  | SubSend "string list"
  | SubRenamed string
  | SubUsage

text \<open>The arguments, without the name of the program.\<close>

definition subcommand_of :: "string list \<Rightarrow> subcommand" where
  "subcommand_of args =
     (case args of
        [] \<Rightarrow> SubUsage
      | c # rest \<Rightarrow>
          if c = ''new'' then SubNew rest
          else if c = ''component'' then
            (case rest of s # rest' \<Rightarrow> if s = ''new'' then SubComponentNew rest' else SubUsage | [] \<Rightarrow> SubUsage)
          else if c = ''start'' then SubStart rest
          else if c = ''spawn'' then SubSpawn rest
          else if c = ''send'' then SubSend rest
          else if c = ''call'' \<or> c = ''run'' then SubRenamed c
          else SubUsage)"

section \<open>Arguments say what they mean\<close>

definition render_spec :: "spawn_spec \<Rightarrow> string list" where
  "render_spec s =
     [''--spawn'', spec_component s]
     @ (case spec_name s of None \<Rightarrow> [] | Some n \<Rightarrow> [''--name'', n])
     @ (if spec_init_args s = [] then [] else [''--init'', spec_init_args s])"

definition render_start :: "('n \<Rightarrow> string) \<Rightarrow> string \<Rightarrow> 'n start_args \<Rightarrow> string list" where
  "render_start show_id app_path opts =
     (case arg_data_dir opts of None \<Rightarrow> [] | Some d \<Rightarrow> [''--data-dir'', d])
     @ concat (map (\<lambda>n. [''--peer'', show_id n]) (arg_peers opts))
     @ concat (map render_spec (arg_spawns opts))
     @ arg_wasm_files opts
     @ (case arg_manifest opts of None \<Rightarrow> [] | Some _ \<Rightarrow> [''--app'', app_path])"

text \<open>An argument that ends the options of a \<^verbatim>\<open>--spawn\<close>.\<close>

definition no_spawn_option :: "string list \<Rightarrow> bool" where
  "no_spawn_option as \<longleftrightarrow> (case as of [] \<Rightarrow> True | a # _ \<Rightarrow> a \<noteq> ''--name'' \<and> a \<noteq> ''--init'')"

lemma parse_spawn_options_stop:
  "no_spawn_option as \<Longrightarrow> parse_spawn_options as name init = Inr (name, init, as)"
  by (cases as) (simp_all add: no_spawn_option_def)

lemma parse_render_spec:
  assumes "no_spawn_option rest"
  shows "parse_start e (render_spec s @ rest) acc = parse_start e rest (acc\<lparr>arg_spawns := arg_spawns acc @ [s]\<rparr>)"
proof -
  let ?options = "(case spec_name s of None \<Rightarrow> [] | Some n \<Rightarrow> [''--name'', n])
      @ (if spec_init_args s = [] then [] else [''--init'', spec_init_args s])"
  have "parse_spawn_options (?options @ rest) None [] = Inr (spec_name s, spec_init_args s, rest)"
    using parse_spawn_options_stop[OF assms] by (auto split: option.splits)
  moreover have "render_spec s @ rest = ''--spawn'' # spec_component s # (?options @ rest)"
    by (simp add: render_spec_def)
  ultimately show ?thesis by (simp only: parse_start.simps) (cases s, simp)
qed

lemma parse_render_specs:
  "no_spawn_option rest \<Longrightarrow>
   parse_start e (concat (map render_spec ss) @ rest) acc = parse_start e rest (acc\<lparr>arg_spawns := arg_spawns acc @ ss\<rparr>)"
proof (induction ss arbitrary: acc)
  case (Cons s ss)
  have "no_spawn_option (concat (map render_spec ss) @ rest)"
    using Cons.prems by (cases ss) (simp_all add: no_spawn_option_def render_spec_def)
  with Cons show ?case by (simp add: parse_render_spec)
qed simp

lemma parse_render_peers:
  "\<forall>n \<in> set ns. parse_id e (show_id n) = Some n \<Longrightarrow>
   parse_start e (concat (map (\<lambda>n. [''--peer'', show_id n]) ns) @ rest) acc
     = parse_start e rest (acc\<lparr>arg_peers := arg_peers acc @ ns\<rparr>)"
  by (induction ns arbitrary: acc) auto

lemma wasm_file_no_option:
  assumes "ends_with f ''.wasm''"
  shows "f \<notin> {''--data-dir'', ''--peer'', ''--load-path'', ''--app'', ''--spawn'', ''--name'', ''--init''}"
  using assms by (auto simp: ends_with_def)

lemma parse_render_files:
  "\<forall>f \<in> set fs. ends_with f ''.wasm'' \<Longrightarrow>
   parse_start e (fs @ rest) acc = parse_start e rest (acc\<lparr>arg_wasm_files := arg_wasm_files acc @ fs\<rparr>)"
proof (induction fs arbitrary: acc)
  case (Cons f fs)
  with wasm_file_no_option[of f] show ?case by simp
qed simp

text \<open>
  C36: the arguments of \<^verbatim>\<open>plasmoid start\<close> say what they mean. Whatever a node is to be started
  with, the command line that lists it is accepted and parsed back to exactly that: every value,
  whatever its text, is taken as a value, and the names and arguments of one \<^verbatim>\<open>--spawn\<close> never
  leak into the next.
\<close>

theorem start_args_roundtrip:
  assumes "\<forall>n \<in> set (arg_peers opts). parse_id e (show_id n) = Some n"
    and "\<forall>f \<in> set (arg_wasm_files opts). ends_with f ''.wasm''" and "arg_wasm_files opts \<noteq> []"
    and "\<forall>m. arg_manifest opts = Some m \<longrightarrow> load_manifest e app_path = Some m"
  shows "start_options e (render_start show_id app_path opts) = Inr opts"
proof -
  let ?tail = "case arg_manifest opts of None \<Rightarrow> [] | Some _ \<Rightarrow> [''--app'', app_path]"
  have stop: "no_spawn_option (arg_wasm_files opts @ ?tail)"
    using assms(2,3) wasm_file_no_option by (cases "arg_wasm_files opts") (auto simp: no_spawn_option_def)
  have chain: "parse_start e (concat (map (\<lambda>n. [''--peer'', show_id n]) (arg_peers opts))
        @ concat (map render_spec (arg_spawns opts)) @ arg_wasm_files opts @ ?tail) acc
      = parse_start e ?tail (acc\<lparr>arg_peers := arg_peers acc @ arg_peers opts,
          arg_spawns := arg_spawns acc @ arg_spawns opts,
          arg_wasm_files := arg_wasm_files acc @ arg_wasm_files opts\<rparr>)" for acc
    by (simp only: parse_render_peers[OF assms(1)] parse_render_specs[OF stop] parse_render_files[OF assms(2)])
      simp
  have "parse_start e (render_start show_id app_path opts) no_args
      = parse_start e ?tail (no_args\<lparr>arg_data_dir := arg_data_dir opts, arg_peers := arg_peers opts,
          arg_spawns := arg_spawns opts, arg_wasm_files := arg_wasm_files opts\<rparr>)"
    by (cases "arg_data_dir opts") (simp_all add: render_start_def no_args_def chain)
  also have "\<dots> = Inr opts"
    using assms(4) by (cases "arg_manifest opts") (simp_all add: no_args_def)
  finally show ?thesis using assms(3) by (simp add: start_options_def)
qed

text \<open>A node started with a peer, two particles and an application.\<close>

definition demo_cli :: "nat cli_env" where
  "demo_cli = \<lparr>parse_id = (\<lambda>s. if s = ''n9'' then Some 9 else None), is_dir = (\<lambda>_. False), read_dir = (\<lambda>_. None),
     read_file = (\<lambda>_. None), read_text = (\<lambda>_. Some ''text''),
     parse_toml = (\<lambda>_. Some \<lparr>raw_name = Some ''app'', raw_root = Some ''c'', raw_type = None, raw_init_args = None\<rparr>),
     env_var = (\<lambda>_. None)\<rparr>"

definition demo_start :: "nat start_args" where
  "demo_start = \<lparr>arg_wasm_files = [''c.wasm''],
     arg_spawns = [\<lparr>spec_component = ''c'', spec_name = Some ''--init'', spec_init_args = []\<rparr>,
       \<lparr>spec_component = ''--spawn'', spec_name = None, spec_init_args = ''x''\<rparr>],
     arg_data_dir = None, arg_peers = [9],
     arg_manifest = Some \<lparr>app_name = ''app'', app_root = ''c'', app_type = RtPermanent, app_init_args = []\<rparr>\<rparr>"

theorem start_args_roundtrip_witness:
  "start_options demo_cli (render_start (\<lambda>_. ''n9'') ''app.toml'' demo_start) = Inr demo_start"
  by (rule start_args_roundtrip) (simp_all add: demo_cli_def demo_start_def ends_with_def
      load_manifest_def manifest_from_toml_def)

section \<open>The death of the root\<close>

lemma watch_root_others:
  "\<forall>d \<in> set ds. dead_pid d \<noteq> root \<Longrightarrow> watch_root root t (map BcOk ds @ es) = watch_root root t es"
  by (induction ds) auto

lemma watch_root_deaths:
  assumes "\<forall>d \<in> set ds. dead_reason d = reason"
  shows "watch_root root t (map BcOk ds) =
    (if root \<in> dead_pid ` set ds then fate_of t reason else StillWatching)"
  using assms by (induction ds) auto

text \<open>
  C25: what the death of the root means for the node. In a reachable registry the node's watch,
  taken before an exit, ends exactly when the exit reaches the root, whoever it started from, and
  with the fate the application's type gives the reason: a permanent root always stops the node,
  with status 0 only if it ended normally; a transient one stops it for every other reason,
  \<^verbatim>\<open>Shutdown\<close> included; a temporary one never. A root that was dead before the watch was taken
  (the watch subscribes only after the root was started) is waited for forever.
\<close>

theorem root_death_decides:
  assumes "reg_reachable reg"
  shows "watch_root root t (map BcOk (drop (length (deaths reg)) (deaths (exit_particle p reason reg)))) =
      (if root \<in> reached reg reason [p] then
         (case t of
            RtPermanent \<Rightarrow> NodeExits (if reason = Normal then 0 else 1)
          | RtTransient \<Rightarrow> if reason = Normal then NodeContinues else NodeExits 1
          | RtTemporary \<Rightarrow> NodeContinues)
       else StillWatching)
    \<and> (particle_exists reg root \<longrightarrow> root \<in> reached reg reason [root])
    \<and> (\<not> particle_exists reg root \<longrightarrow>
        watch_root root t (map BcOk (drop (length (deaths reg)) (deaths (exit_particle p reason reg)))) = StillWatching)"
proof -
  let ?new = "drop (length (deaths reg)) (deaths (exit_particle p reason reg))"
  obtain vs where vs: "set vs = reached reg reason [p]"
    "cascade reg reason vs (exit_particle p reason reg)"
    using exit_particle_cascade[OF reg_inv_ok[OF reg_inv_reachable[OF assms]], of reason p] by metis
  then have new: "?new = map (\<lambda>q. death_of reg q reason (the (state_of reg q))) vs"
    by (simp add: cascade_def)
  have pids: "dead_pid ` set ?new = reached reg reason [p]" and reasons: "\<forall>d \<in> set ?new. dead_reason d = reason"
    unfolding new by (simp_all add: death_of_def image_image vs(1))
  have watch: "watch_root root t (map BcOk ?new) =
      (if root \<in> reached reg reason [p] then fate_of t reason else StillWatching)"
    using watch_root_deaths[OF reasons, of root t] pids by simp
  have fate: "fate_of t reason =
      (case t of RtPermanent \<Rightarrow> NodeExits (if reason = Normal then 0 else 1)
       | RtTransient \<Rightarrow> if reason = Normal then NodeContinues else NodeExits 1
       | RtTemporary \<Rightarrow> NodeContinues)"
    by (simp add: fate_of_def should_stop_node_def split: restart_type.split)
  have "particle_exists reg root \<longrightarrow> root \<in> reached reg reason [root]"
    by (auto intro: reached.intros)
  moreover have "\<not> particle_exists reg root \<longrightarrow> root \<notin> reached reg reason [p]"
    using reached_exists by blast
  ultimately show ?thesis unfolding watch fate by simp
qed

text \<open>Particle 1 of the demonstration node is the root of a transient application and is shut down.\<close>

theorem root_death_decides_witness:
  "watch_root (Pid 0 1) RtTransient
     (map BcOk (drop (length (deaths demo)) (deaths (exit_particle (Pid 0 1) (Shutdown ''shutdown'') demo)))) = NodeExits 1"
proof -
  have "particle_exists demo (Pid 0 1)" by code_simp
  then show ?thesis
    using root_death_decides[OF demo_reachable, of "Pid 0 1" RtTransient "Pid 0 1" "Shutdown ''shutdown''"] by simp
qed

end
