(* ===== verification/Storage.thy ===== *)
theory Storage
  imports Commands
begin

text \<open>
  What a node keeps outside its particles: its secret key on disk, read or generated when the
  runtime starts (\<^verbatim>\<open>src/runtime/engine.rs\<close>), the key-value store of a particle
  (\<^verbatim>\<open>src/host/database.rs\<close>) and the levels of its log (\<^verbatim>\<open>src/host/logging.rs\<close>).

  The disk is a map from paths to files together with what the operating system allows; key
  generation is an argument, the key that would be generated. Serialisation of keys is iroh's.
\<close>

section \<open>The disk\<close>

record disk_file =
  contents :: bytes
  owner_only :: bool

record disk =
  files :: "string \<Rightarrow> disk_file option"
  can_read :: "string \<Rightarrow> bool"
  can_write :: "string \<Rightarrow> bool"
  can_create_dir :: "string \<Rightarrow> bool"
  can_restrict :: "string \<Rightarrow> bool"

definition write_file :: "string \<Rightarrow> bytes \<Rightarrow> disk \<Rightarrow> bool \<times> disk" where
  "write_file path bs d =
     (if can_write d path
      then (True, d\<lparr>files := (files d)(path \<mapsto>
              \<lparr>contents = bs, owner_only = (case files d path of Some f \<Rightarrow> owner_only f | None \<Rightarrow> False)\<rparr>)\<rparr>)
      else (False, d))"

definition restrict_file :: "string \<Rightarrow> disk \<Rightarrow> bool \<times> disk" where
  "restrict_file path d =
     (if can_restrict d path
      then (True, d\<lparr>files := (files d)(path := map_option (\<lambda>f. f\<lparr>owner_only := True\<rparr>) (files d path))\<rparr>)
      else (False, d))"

section \<open>The identity of a node\<close>

record 'k key_codec =
  key_from_bytes :: "bytes \<Rightarrow> 'k"
  key_to_bytes :: "'k \<Rightarrow> bytes"
  public_text :: "'k \<Rightarrow> bytes"

datatype identity_error = KeyUnreadable | KeyMalformed | NoDataDir | KeyUnwritable | NodeIdUnwritable | KeyUnrestricted

definition key_path :: "string \<Rightarrow> string" where
  "key_path dir = path_join dir ''secret_key''"

definition node_id_path :: "string \<Rightarrow> string" where
  "node_id_path dir = path_join dir ''node_id''"

definition load_or_generate_secret_key ::
  "'k key_codec \<Rightarrow> 'k \<Rightarrow> string \<Rightarrow> disk \<Rightarrow> (identity_error + 'k) \<times> disk" where
  "load_or_generate_secret_key c generated dir d =
     (case files d (key_path dir) of
        Some f \<Rightarrow>
          if \<not> can_read d (key_path dir) then (Inl KeyUnreadable, d)
          else if length (contents f) \<noteq> 32 then (Inl KeyMalformed, d)
          else (let key = key_from_bytes c (contents f)
                in (Inr key, snd (write_file (node_id_path dir) (public_text c key) d)))
      | None \<Rightarrow>
          if \<not> can_create_dir d dir then (Inl NoDataDir, d)
          else
            (case write_file (key_path dir) (key_to_bytes c generated) d of
               (False, d1) \<Rightarrow> (Inl KeyUnwritable, d1)
             | (True, d1) \<Rightarrow>
                 (case write_file (node_id_path dir) (public_text c generated) d1 of
                    (False, d2) \<Rightarrow> (Inl NodeIdUnwritable, d2)
                  | (True, d2) \<Rightarrow>
                      (case restrict_file (key_path dir) d2 of
                         (False, d3) \<Rightarrow> (Inl KeyUnrestricted, d3)
                       | (True, d3) \<Rightarrow> (Inr generated, d3)))))"

text \<open>Starting again and again, each time with another key to generate.\<close>

fun starts :: "'k key_codec \<Rightarrow> string \<Rightarrow> 'k list \<Rightarrow> disk \<Rightarrow> (identity_error + 'k) list \<times> disk" where
  "starts c dir [] d = ([], d)"
| "starts c dir (k # ks) d =
     (let (r, d1) = load_or_generate_secret_key c k dir d; (rs, d2) = starts c dir ks d1 in (r # rs, d2))"

lemma paths_differ [simp]: "node_id_path dir \<noteq> key_path dir" "key_path dir \<noteq> node_id_path dir"
  by (simp_all add: key_path_def node_id_path_def path_join_def)

definition has_key :: "'k key_codec \<Rightarrow> string \<Rightarrow> 'k \<Rightarrow> disk \<Rightarrow> bool" where
  "has_key c dir k d \<longleftrightarrow> map_option contents (files d (key_path dir)) = Some (key_to_bytes c k)"

lemma load_keeps_key:
  assumes "\<forall>k. length (key_to_bytes c k) = 32 \<and> key_from_bytes c (key_to_bytes c k) = k"
    and "has_key c dir k d" and "can_read d (key_path dir)"
  shows "\<exists>d1. load_or_generate_secret_key c k' dir d = (Inr k, d1) \<and> has_key c dir k d1 \<and> can_read d1 (key_path dir)"
  using assms by (auto simp: load_or_generate_secret_key_def has_key_def write_file_def Let_def)

lemma starts_keep_key:
  assumes "\<forall>k. length (key_to_bytes c k) = 32 \<and> key_from_bytes c (key_to_bytes c k) = k"
    and "has_key c dir k d" and "can_read d (key_path dir)"
  shows "fst (starts c dir ks d) = replicate (length ks) (Inr k)"
  using assms(2,3)
proof (induction ks arbitrary: d)
  case (Cons k' ks)
  from load_keeps_key[OF assms(1) Cons.prems] obtain d1 where
    "load_or_generate_secret_key c k' dir d = (Inr k, d1)" "has_key c dir k d1" "can_read d1 (key_path dir)"
    by blast
  with Cons.IH[of d1] show ?case by (simp add: split_def)
qed simp


text \<open>A first start whose node-id file cannot be written, and three more after it.\<close>

definition first_disk :: disk where
  "first_disk = \<lparr>files = (\<lambda>_. None), can_read = (\<lambda>_. True), can_write = (\<lambda>p. p = ''d/secret_key''),
     can_create_dir = (\<lambda>_. True), can_restrict = (\<lambda>_. True)\<rparr>"

definition tiny_keys :: "bool key_codec" where
  "tiny_keys = \<lparr>key_from_bytes = (\<lambda>bs. hd bs = 1), key_to_bytes = (\<lambda>b. (if b then 1 else 0) # replicate 31 0),
     public_text = (\<lambda>b. [if b then 1 else 0])\<rparr>"


section \<open>The store of a particle\<close>

text \<open>
  What a store of keys and values promises while it is healthy. Whatever is done to it, a key has
  the value it was last given, unless it was deleted since.
\<close>

datatype ('k, 'v) store_op = StoreSet 'k 'v | StoreDelete 'k

fun last_write :: "'k \<Rightarrow> ('k, 'v) store_op list \<Rightarrow> 'v option \<Rightarrow> 'v option" where
  "last_write k [] v = v"
| "last_write k (StoreSet j x # ops) v = last_write k ops (if j = k then Some x else v)"
| "last_write k (StoreDelete j # ops) v = last_write k ops (if j = k then None else v)"

locale key_value =
  fixes healthy :: "'s \<Rightarrow> bool"
    and look :: "'k \<Rightarrow> 's \<Rightarrow> 'v option"
    and put :: "'k \<Rightarrow> 'v \<Rightarrow> 's \<Rightarrow> ('e + unit) \<times> 's"
    and del :: "'k \<Rightarrow> 's \<Rightarrow> ('e + bool) \<times> 's"
  assumes put_law: "healthy s \<Longrightarrow> \<exists>s'. put k v s = (Inr (), s') \<and> healthy s' \<and>
      (\<forall>j. look j s' = (if j = k then Some v else look j s))"
    and del_law: "healthy s \<Longrightarrow> \<exists>s'. del k s = (Inr (look k s \<noteq> None), s') \<and> healthy s' \<and>
      (\<forall>j. look j s' = (if j = k then None else look j s))"
begin

lemma history:
  assumes "healthy s"
  shows "healthy (foldl (\<lambda>s op. case op of StoreSet k v \<Rightarrow> snd (put k v s) | StoreDelete k \<Rightarrow> snd (del k s)) s ops)
    \<and> look k (foldl (\<lambda>s op. case op of StoreSet k v \<Rightarrow> snd (put k v s) | StoreDelete k \<Rightarrow> snd (del k s)) s ops)
        = last_write k ops (look k s)"
  using assms
proof (induction ops arbitrary: s)
  case (Cons op ops)
  show ?case
  proof (cases op)
    case (StoreSet j v)
    from put_law[OF Cons.prems, of j v] obtain s' where "put j v s = (Inr (), s')" "healthy s'"
      "\<forall>i. look i s' = (if i = j then Some v else look i s)"
      by blast
    with Cons.IH[of s'] StoreSet show ?thesis by simp
  next
    case (StoreDelete j)
    from del_law[OF Cons.prems, of j] obtain s' where "del j s = (Inr (look j s \<noteq> None), s')" "healthy s'"
      "\<forall>i. look i s' = (if i = j then None else look i s)"
      by blast
    with Cons.IH[of s'] StoreDelete show ?thesis by simp
  qed
qed simp

end

datatype database_error = LockPoisoned

record database =
  db_data :: "(string, bytes) hmap"
  db_poisoned :: bool

definition db_new :: database where
  "db_new = \<lparr>db_data = [], db_poisoned = False\<rparr>"

definition db_get :: "string \<Rightarrow> database \<Rightarrow> bytes option" where
  "db_get key db = (if db_poisoned db then None else hm_get (db_data db) key)"

definition db_set :: "string \<Rightarrow> bytes \<Rightarrow> database \<Rightarrow> (database_error + unit) \<times> database" where
  "db_set key v db =
     (if db_poisoned db then (Inl LockPoisoned, db)
      else (Inr (), db\<lparr>db_data := hm_insert key v (db_data db)\<rparr>))"

definition db_delete :: "string \<Rightarrow> database \<Rightarrow> (database_error + bool) \<times> database" where
  "db_delete key db =
     (if db_poisoned db then (Inl LockPoisoned, db)
      else (Inr (hm_has (db_data db) key), db\<lparr>db_data := hm_remove key (db_data db)\<rparr>))"

definition db_list_keys :: "string \<Rightarrow> database \<Rightarrow> string list" where
  "db_list_keys start_of db =
     (if db_poisoned db then []
      else filter (\<lambda>k. take (length start_of) k = start_of) (hm_keys (db_data db)))"

interpretation db: key_value "\<lambda>db. \<not> db_poisoned db" db_get db_set db_delete
  by unfold_locales (simp_all add: db_get_def db_set_def db_delete_def hm_has_iff)

lemma database_history:
  assumes "\<not> db_poisoned d"
  shows "db_get k (foldl (\<lambda>d op. case op of StoreSet k v \<Rightarrow> snd (db_set k v d) | StoreDelete k \<Rightarrow> snd (db_delete k d)) d ops)
    = last_write k ops (db_get k d)"
  using db.history[OF assms] by blast

lemma list_keys_lists:
  assumes "\<not> db_poisoned d"
  shows "k \<in> set (db_list_keys start_of d) \<longleftrightarrow> db_get k d \<noteq> None \<and> take (length start_of) k = start_of"
  using assms by (auto simp: db_list_keys_def db_get_def hm_has_iff_keys[symmetric] hm_has_iff)

section \<open>Log levels\<close>

datatype log_level = LogTrace | LogDebug | LogInfo | LogWarn | LogError

definition log_level_of :: "u32 \<Rightarrow> log_level" where
  "log_level_of n =
     (if n = 0 then LogTrace else if n = 1 then LogDebug else if n = 2 then LogInfo
      else if n = 3 then LogWarn else LogError)"

end
