(* ===== verification/Scaffold.thy ===== *)
theory Scaffold
  imports Commands
begin

text \<open>
  \<^verbatim>\<open>plasmoid new\<close> and \<^verbatim>\<open>plasmoid component new\<close> (\<^verbatim>\<open>cmd_new\<close> and \<^verbatim>\<open>cmd_component_new\<close> of \<^verbatim>\<open>src/main.rs\<close>):
  what they refuse, and the files they leave.

  A path is the list of its components, innermost first, \<open>[]\<close> the root of the file system; the
  file system is a map from paths to folders and texts, and says where it can be read and written. The
  text of the runtime's WIT, the constant \<^verbatim>\<open>RUNTIME_WIT\<close>, is only copied: it is an argument.
\<close>

section \<open>The file system\<close>

type_synonym path = "string list"

datatype entry = Folder | Text string

record file_system =
  tree :: "path \<Rightarrow> entry option"
  may_write :: "path \<Rightarrow> bool"
  may_read :: "path \<Rightarrow> bool"

definition fs_exists :: "path \<Rightarrow> file_system \<Rightarrow> bool" where
  "fs_exists p fs \<longleftrightarrow> p = [] \<or> tree fs p \<noteq> None"

definition is_folder :: "path \<Rightarrow> file_system \<Rightarrow> bool" where
  "is_folder p fs \<longleftrightarrow> p = [] \<or> tree fs p = Some Folder"

fun create_dir_all :: "path \<Rightarrow> file_system \<Rightarrow> bool \<times> file_system" where
  "create_dir_all [] fs = (True, fs)"
| "create_dir_all (d # ds) fs =
     (case tree fs (d # ds) of
        Some Folder \<Rightarrow> (True, fs)
      | Some (Text _) \<Rightarrow> (False, fs)
      | None \<Rightarrow>
          (case create_dir_all ds fs of
             (False, fs1) \<Rightarrow> (False, fs1)
           | (True, fs1) \<Rightarrow>
               if may_write fs1 (d # ds) then (True, fs1\<lparr>tree := (tree fs1)(d # ds \<mapsto> Folder)\<rparr>) else (False, fs1)))"

definition write_text :: "path \<Rightarrow> string \<Rightarrow> file_system \<Rightarrow> bool \<times> file_system" where
  "write_text p s fs =
     (if p \<noteq> [] \<and> is_folder (tl p) fs \<and> tree fs p \<noteq> Some Folder \<and> may_write fs p
      then (True, fs\<lparr>tree := (tree fs)(p \<mapsto> Text s)\<rparr>) else (False, fs))"

definition read_text :: "path \<Rightarrow> file_system \<Rightarrow> string option" where
  "read_text p fs = (case tree fs p of Some (Text s) \<Rightarrow> if may_read fs p then Some s else None | _ \<Rightarrow> None)"

text \<open>A sequence of effects, each followed by \<^verbatim>\<open>?\<close>.\<close>

datatype effect = CreateDirs path | WriteText path string

fun perform :: "effect list \<Rightarrow> file_system \<Rightarrow> bool \<times> file_system" where
  "perform [] fs = (True, fs)"
| "perform (e # es) fs =
     (case (case e of CreateDirs p \<Rightarrow> create_dir_all p fs | WriteText p s \<Rightarrow> write_text p s fs) of
        (False, fs1) \<Rightarrow> (False, fs1)
      | (True, fs1) \<Rightarrow> perform es fs1)"

section \<open>Paths\<close>

text \<open>The components of a path as text: \<^verbatim>\<open>Path::new\<close> drops empty ones and dots.\<close>

definition path_parts :: "string \<Rightarrow> string list" where
  "path_parts s = filter (\<lambda>c. c \<noteq> [] \<and> c \<noteq> ''.'') (split_on CHR ''/'' s)"

definition resolve_path :: "path \<Rightarrow> string \<Rightarrow> path" where
  "resolve_path cwd s =
     foldl (\<lambda>p c. if c = ''..'' then tl p else c # p)
       (if s \<noteq> [] \<and> hd s = CHR ''/'' then [] else cwd) (path_parts s)"

definition below :: "path \<Rightarrow> string list \<Rightarrow> path" where
  "below p parts = rev parts @ p"

definition unlines :: "string list \<Rightarrow> string" where
  "unlines ls = concat (map (\<lambda>l. l @ [CHR 0x0A]) ls)"

section \<open>A new application\<close>

datatype scaffold_error =
    NoArgument | NoAppName | BadName name_error | AlreadyExists | NoWorkspace workspace_error
  | NoNamespace | NotAnApplication | ScaffoldIo

definition workspace_toml :: string where \<open>
  workspace_toml = unlines [''[workspace]'', ''members = ["components/*"]'', ''resolver = "2"'']\<close>

definition new_effects :: "string \<Rightarrow> path \<Rightarrow> effect list" where
  "new_effects wit root =
     [CreateDirs (below root [''wit'', ''components'', ''deps'', ''runtime'']),
      CreateDirs (below root [''components'']),
      WriteText (below root [''Cargo.toml'']) workspace_toml,
      WriteText (below root [''wit'', ''world.wit'']) wit,
      WriteText (below root [''wit'', ''components'', ''deps'', ''runtime'', ''world.wit'']) wit,
      WriteText (below root [''components'', ''.gitkeep'']) []]"

definition cmd_new ::
  "string \<Rightarrow> path \<Rightarrow> string list \<Rightarrow> file_system \<Rightarrow> (scaffold_error + string) \<times> file_system" where
  "cmd_new wit cwd args fs =
     (case args of
        [] \<Rightarrow> (Inl NoArgument, fs)
      | arg # _ \<Rightarrow>
          (case path_file_name arg of
             None \<Rightarrow> (Inl NoAppName, fs)
           | Some app \<Rightarrow>
               (case validate_name app of
                  Inl e \<Rightarrow> (Inl (BadName e), fs)
                | Inr _ \<Rightarrow>
                    if fs_exists (resolve_path cwd arg) fs then (Inl AlreadyExists, fs)
                    else
                      (case perform (new_effects wit (resolve_path cwd arg)) fs of
                         (False, fs1) \<Rightarrow> (Inl ScaffoldIo, fs1)
                       | (True, fs1) \<Rightarrow> (Inr app, fs1)))))"

section \<open>A new component\<close>

definition underscored :: "string \<Rightarrow> string" where
  "underscored name = map (\<lambda>c. if c = CHR ''-'' then CHR ''_'' else c) name"

definition component_toml :: "string \<Rightarrow> string \<Rightarrow> string" where \<open>
  component_toml namespace name = unlines
      [''[package]'',
       ''name = "'' @ name @ ''"'',
       ''version = "0.1.0"'',
       ''edition = "2021"'',
       [],
       ''[lib]'',
       ''crate-type = ["cdylib"]'',
       [],
       ''[dependencies]'',
       ''wit-bindgen-rt = "0.41"'',
       [],
       ''[package.metadata.component]'',
       ''package = "'' @ namespace @ '':'' @ name @ ''"'',
       [],
       ''[package.metadata.component.target]'',
       ''path = "../../wit/components/'' @ name @ ''"'',
       ''world = "'' @ underscored name @ ''"'',
       [],
       ''[package.metadata.component.target.dependencies]'',
       ''"plasmoid:runtime" = { path = "../../wit/components/'' @ name @ ''/deps/runtime" }'']\<close>

definition component_rs :: "string \<Rightarrow> string" where \<open>
  component_rs name = unlines
      [''#[allow(warnings)]'',
       ''mod bindings;'',
       [],
       ''use bindings::plasmoid::runtime::host;'',
       [],
       ''struct '' @ to_pascal_case name @ '';'',
       [],
       ''impl bindings::Guest for '' @ to_pascal_case name @ '' {'',
       ''    fn start() -> Result<(), String> {'',
       ''        host::log(host::LogLevel::Info, "'' @ underscored name @ '' started");'',
       ''        loop {'',
       ''            match host::recv(None) {'',
       ''                Some(host::Message::Data(data)) => {'',
       ''                    if data == b"stop" {'',
       ''                        return Ok(());'',
       ''                    }'',
       ''                    host::log(host::LogLevel::Info, &format!("'' @ underscored name @ '' received {} bytes", data.len()));'',
       ''                }'',
       ''                Some(host::Message::Exit(_)) | Some(host::Message::Down(_)) => {}'',
       ''                Some(host::Message::Tagged(_)) => {}'',
       ''                Some(host::Message::SpawnReply(_)) => {}'',
       ''                None => return Ok(()),'',
       ''            }'',
       ''        }'',
       ''    }'',
       ''}'',
       [],
       ''bindings::export!('' @ to_pascal_case name @ '' with_types_in bindings);'']\<close>

definition component_wit :: "string \<Rightarrow> string \<Rightarrow> string" where \<open>
  component_wit namespace name = unlines
      [''package '' @ namespace @ '':'' @ name @ ''@0.1.0;'',
       [],
       ''world '' @ underscored name @ '' {'',
       ''    include plasmoid:runtime/particle@0.11.0;'',
       ''    export start: func() -> result<_, string>;'',
       ''}'']\<close>

definition component_effects :: "path \<Rightarrow> string \<Rightarrow> string \<Rightarrow> effect list" where
  "component_effects workspace namespace name =
     [CreateDirs (below workspace [''components'', name, ''src'']),
      CreateDirs (below workspace [''wit'', ''components'', name, ''deps'', ''runtime'']),
      WriteText (below workspace [''components'', name, ''Cargo.toml'']) (component_toml namespace name),
      WriteText (below workspace [''components'', name, ''src'', ''lib.rs'']) (component_rs name),
      WriteText (below workspace [''wit'', ''components'', name, name @ ''.wit'']) (component_wit namespace name)]"

definition cargo_at :: "file_system \<Rightarrow> path \<Rightarrow> cargo_file" where
  "cargo_at fs d =
     (if \<not> fs_exists (below d [''Cargo.toml'']) fs then NoCargo
      else case read_text (below d [''Cargo.toml'']) fs of None \<Rightarrow> CargoUnreadable | Some s \<Rightarrow> CargoText s)"

definition cmd_component_new ::
  "path \<Rightarrow> string list \<Rightarrow> file_system \<Rightarrow> (scaffold_error + string \<times> string) \<times> file_system" where
  "cmd_component_new cwd args fs =
     (case args of
        [] \<Rightarrow> (Inl NoArgument, fs)
      | name # _ \<Rightarrow>
          (case validate_name name of
             Inl e \<Rightarrow> (Inl (BadName e), fs)
           | Inr _ \<Rightarrow>
               (case find_workspace_root (cargo_at fs) cwd of
                  Inl e \<Rightarrow> (Inl (NoWorkspace e), fs)
                | Inr [] \<Rightarrow> (Inl NoNamespace, fs)
                | Inr (namespace # parent) \<Rightarrow>
                    (let workspace = namespace # parent;
                         runtime_wit = below workspace [''wit'', ''components'', ''deps'', ''runtime'', ''world.wit'']
                     in if \<not> fs_exists runtime_wit fs then (Inl NotAnApplication, fs)
                        else if fs_exists (below workspace [''components'', name]) fs then (Inl AlreadyExists, fs)
                        else
                          (case perform (component_effects workspace namespace name) fs of
                             (False, fs1) \<Rightarrow> (Inl ScaffoldIo, fs1)
                           | (True, fs1) \<Rightarrow>
                               (case read_text runtime_wit fs1 of
                                  None \<Rightarrow> (Inl ScaffoldIo, fs1)
                                | Some s \<Rightarrow>
                                    (case write_text (below workspace
                                        [''wit'', ''components'', name, ''deps'', ''runtime'', ''world.wit'']) s fs1 of
                                       (False, fs2) \<Rightarrow> (Inl ScaffoldIo, fs2)
                                     | (True, fs2) \<Rightarrow> (Inr (name, namespace), fs2))))))))"

section \<open>What the commands do\<close>

definition fs_sound :: "file_system \<Rightarrow> bool" where
  "fs_sound fs \<longleftrightarrow> (\<forall>d p. tree fs (d # p) \<noteq> None \<longrightarrow> is_folder p fs)"

lemma nothing_below:
  assumes "fs_sound fs" and "\<not> fs_exists p fs"
  shows "tree fs (q @ p) = None"
proof (induction q)
  case (Cons d q)
  have "\<not> is_folder (q @ p) fs" using Cons.IH assms(2) by (simp add: is_folder_def fs_exists_def)
  then show ?case using assms(1) unfolding fs_sound_def by (metis append_Cons)
qed (use assms(2) in \<open>simp add: fs_exists_def\<close>)

lemma split_on_absent: "c \<notin> set s \<Longrightarrow> split_on c s = [s]"
  by (induction s) auto

lemma valid_name_chars:
  assumes "validate_name s = Inr ()"
  shows "s \<noteq> []" and "CHR ''/'' \<notin> set s" and "CHR ''.'' \<notin> set s"
proof -
  have "s \<noteq> []" and all: "\<forall>c\<in>set s. ascii_lower c \<or> ascii_digit c \<or> c = CHR ''-''"
    using assms by (auto simp: validate_name_def list_all_iff split: if_splits)
  then show "s \<noteq> []" "CHR ''/'' \<notin> set s" "CHR ''.'' \<notin> set s"
    by (auto simp: ascii_lower_def ascii_digit_def Let_def)
qed

lemma valid_name_path:
  assumes "validate_name s = Inr ()"
  shows "path_file_name s = Some s" and "resolve_path cwd s = s # cwd"
proof -
  note v = valid_name_chars[OF assms]
  have "hd s \<in> set s" using v(1) by simp
  then have "hd s \<noteq> CHR ''/''" using v(2) by metis
  moreover have "path_parts s = [s]" "s \<noteq> ''..''"
    using v by (auto simp: path_parts_def split_on_absent)
  ultimately show "path_file_name s = Some s" "resolve_path cwd s = s # cwd"
    by (simp_all add: path_file_name_def resolve_path_def path_parts_def)
qed

definition new_tree :: "string \<Rightarrow> path \<Rightarrow> (path \<Rightarrow> entry option) \<Rightarrow> path \<Rightarrow> entry option" where
  "new_tree wit r t = t
     (r \<mapsto> Folder, ''wit'' # r \<mapsto> Folder, ''components'' # ''wit'' # r \<mapsto> Folder,
      ''deps'' # ''components'' # ''wit'' # r \<mapsto> Folder,
      ''runtime'' # ''deps'' # ''components'' # ''wit'' # r \<mapsto> Folder, ''components'' # r \<mapsto> Folder,
      ''Cargo.toml'' # r \<mapsto> Text workspace_toml, ''world.wit'' # ''wit'' # r \<mapsto> Text wit,
      ''world.wit'' # ''runtime'' # ''deps'' # ''components'' # ''wit'' # r \<mapsto> Text wit,
      ''.gitkeep'' # ''components'' # r \<mapsto> Text [])"

lemma perform_new:
  assumes w: "\<And>p. may_write fs p" and cwd: "is_folder cwd fs" and fresh: "\<And>q. tree fs (q @ app # cwd) = None"
  shows "perform (new_effects wit (app # cwd)) fs = (True, fs\<lparr>tree := new_tree wit (app # cwd) (tree fs)\<rparr>)"
proof -
  have f: "tree fs (app # cwd) = None" "tree fs (a # app # cwd) = None" "tree fs (a # b # app # cwd) = None"
    "tree fs (a # b # c # app # cwd) = None" "tree fs (a # b # c # d # app # cwd) = None"
    "tree fs (a # b # c # d # e # app # cwd) = None" for a b c d e
    using fresh[of "[]"] fresh[of "[a]"] fresh[of "[a, b]"] fresh[of "[a, b, c]"] fresh[of "[a, b, c, d]"]
      fresh[of "[a, b, c, d, e]"] by simp_all
  have cwd': "create_dir_all cwd fs = (True, fs)" using cwd by (cases cwd) (simp_all add: is_folder_def)
  show ?thesis
    by (simp add: new_effects_def below_def f cwd' w write_text_def is_folder_def new_tree_def)
qed

definition component_tree ::
  "string \<Rightarrow> string \<Rightarrow> path \<Rightarrow> (path \<Rightarrow> entry option) \<Rightarrow> path \<Rightarrow> entry option" where
  "component_tree app name r t = t
     (name # ''components'' # r \<mapsto> Folder, ''src'' # name # ''components'' # r \<mapsto> Folder,
      name # ''components'' # ''wit'' # r \<mapsto> Folder, ''deps'' # name # ''components'' # ''wit'' # r \<mapsto> Folder,
      ''runtime'' # ''deps'' # name # ''components'' # ''wit'' # r \<mapsto> Folder,
      ''Cargo.toml'' # name # ''components'' # r \<mapsto> Text (component_toml app name),
      ''lib.rs'' # ''src'' # name # ''components'' # r \<mapsto> Text (component_rs name),
      (name @ ''.wit'') # name # ''components'' # ''wit'' # r \<mapsto> Text (component_wit app name))"

lemma perform_component:
  assumes w: "\<And>p. may_write fs p" and fresh: "\<And>q. tree fs (q @ r) = None" and "name \<noteq> ''deps''"
    and "name \<noteq> ''.gitkeep''" and fs1: "fs1 = fs\<lparr>tree := new_tree wit r (tree fs)\<rparr>"
  shows "perform (component_effects r app name) fs1 = (True, fs1\<lparr>tree := component_tree app name r (tree fs1)\<rparr>)"
proof -
  have f: "tree fs r = None" "tree fs (a # r) = None" "tree fs (a # b # r) = None"
    "tree fs (a # b # c # r) = None" "tree fs (a # b # c # d # r) = None"
    "tree fs (a # b # c # d # e # r) = None" for a b c d e
    using fresh[of "[]"] fresh[of "[a]"] fresh[of "[a, b]"] fresh[of "[a, b, c]"] fresh[of "[a, b, c, d]"]
      fresh[of "[a, b, c, d, e]"] by simp_all
  show ?thesis
    using assms(3,4)
    by (simp add: component_effects_def below_def f w write_text_def is_folder_def new_tree_def component_tree_def fs1)
qed

lemma new_tree_elsewhere:
  "(\<And>q. p \<noteq> q @ r) \<Longrightarrow> new_tree wit r t p = t p \<and> component_tree app name r t p = t p"
proof -
  assume no: "\<And>q. p \<noteq> q @ r"
  have "p \<noteq> r" "p \<noteq> a # r" "p \<noteq> a # b # r" "p \<noteq> a # b # c # r" "p \<noteq> a # b # c # d # r"
    "p \<noteq> a # b # c # d # e # r" for a b c d e
    using no[of "[]"] no[of "[a]"] no[of "[a, b]"] no[of "[a, b, c]"] no[of "[a, b, c, d]"]
      no[of "[a, b, c, d, e]"] by simp_all
  then show ?thesis by (simp add: new_tree_def component_tree_def)
qed

lemma find_new_workspace:
  assumes "\<And>p. may_read fs p" and "tree fs (''Cargo.toml'' # app # cwd) = Some (Text workspace_toml)"
  shows "find_workspace_root (cargo_at fs) (app # cwd) = Inr (app # cwd)"
proof -
  have "contains_str workspace_toml ''[workspace]''" by code_simp
  then show ?thesis using assms by (simp add: cargo_at_def fs_exists_def read_text_def below_def)
qed

definition added_tree ::
  "string \<Rightarrow> string \<Rightarrow> string \<Rightarrow> path \<Rightarrow> (path \<Rightarrow> entry option) \<Rightarrow> path \<Rightarrow> entry option" where
  "added_tree wit app name r t =
     (component_tree app name r (new_tree wit r t))
       (''world.wit'' # ''runtime'' # ''deps'' # name # ''components'' # ''wit'' # r \<mapsto> Text wit)"

lemma component_added:
  assumes may: "\<And>p. may_write fs p \<and> may_read fs p" and fresh: "\<And>q. tree fs (q @ app # cwd) = None"
    and name: "validate_name name = Inr ()" "name \<noteq> ''deps''"
  shows "cmd_component_new (app # cwd) [name] (fs\<lparr>tree := new_tree wit (app # cwd) (tree fs)\<rparr>)
    = (Inr (name, app), fs\<lparr>tree := added_tree wit app name (app # cwd) (tree fs)\<rparr>)"
proof -
  let ?r = "app # cwd"
  let ?copy = "''world.wit'' # ''runtime'' # ''deps'' # name # ''components'' # ''wit'' # ?r"
  define fs1 where "fs1 = fs\<lparr>tree := new_tree wit ?r (tree fs)\<rparr>"
  define fsc where "fsc = fs1\<lparr>tree := component_tree app name ?r (tree fs1)\<rparr>"
  have nogit: "name \<noteq> ''.gitkeep''" using valid_name_chars(3)[OF name(1)] by auto
  have may': "may_write g p" "may_read g p" if "g \<in> {fs, fs1, fsc}" for g p
    using that may by (auto simp: fs1_def fsc_def)
  have at1: "tree fs1 (''Cargo.toml'' # ?r) = Some (Text workspace_toml)"
    "tree fs1 (name # ''components'' # ?r) = None"
    "tree fs1 (''world.wit'' # ''runtime'' # ''deps'' # ''components'' # ''wit'' # ?r) = Some (Text wit)"
    "tree fs1 ?copy = None"
    using fresh[of "[name, ''components'']"] nogit name(2)
      fresh[of "[''world.wit'', ''runtime'', ''deps'', name, ''components'', ''wit'']"]
    by (simp_all add: fs1_def new_tree_def)
  have atc: "tree fsc (''world.wit'' # ''runtime'' # ''deps'' # ''components'' # ''wit'' # ?r) = Some (Text wit)"
    "tree fsc (''runtime'' # ''deps'' # name # ''components'' # ''wit'' # ?r) = Some Folder"
    "tree fsc ?copy = None"
    using at1(3,4) name(2) by (simp_all add: fsc_def component_tree_def)
  have "perform (component_effects ?r app name) fs1 = (True, fsc)"
    unfolding fsc_def by (rule perform_component[OF _ fresh name(2) nogit fs1_def]) (simp add: may')
  moreover have "find_workspace_root (cargo_at fs1) ?r = Inr ?r"
    by (rule find_new_workspace) (simp_all add: may' at1(1))
  moreover have "write_text ?copy wit fsc = (True, fs\<lparr>tree := added_tree wit app name ?r (tree fs)\<rparr>)"
    using atc(2,3) by (simp add: write_text_def is_folder_def may' fsc_def fs1_def added_tree_def)
  ultimately show ?thesis
    using name(1) at1 atc(1)
    by (simp add: cmd_component_new_def below_def fs_exists_def read_text_def may' flip: fs1_def)
qed

lemma added_elsewhere:
  assumes "\<And>q. p \<noteq> q @ r"
  shows "added_tree wit app name r t p = t p"
  using new_tree_elsewhere[OF assms] assms[of "[''world.wit'', ''runtime'', ''deps'', name, ''components'', ''wit'']"]
  by (simp add: added_tree_def component_tree_def)


text \<open>In an empty home directory, the application \<^verbatim>\<open>shop\<close> gets the component \<^verbatim>\<open>order-service\<close>.\<close>

definition home_dir :: file_system where
  "home_dir = \<lparr>tree = (\<lambda>p. if p = [''home''] then Some Folder else None), may_write = (\<lambda>_. True), may_read = (\<lambda>_. True)\<rparr>"


text \<open>What a refusal leaves alone: everything. Only a failing write can leave half an application.\<close>

lemma scaffold_refuses:
  "cmd_new wit cwd args fs = (Inl e, fs1) \<Longrightarrow> e \<noteq> ScaffoldIo \<Longrightarrow> fs1 = fs"
  "cmd_component_new cwd args fs = (Inl e, fs1) \<Longrightarrow> e \<noteq> ScaffoldIo \<Longrightarrow> fs1 = fs"
  by (auto simp: cmd_new_def cmd_component_new_def Let_def
      split: list.splits option.splits sum.splits if_splits prod.splits bool.splits)

end
