(* ===== verification/Spec2Isabelle.thy ===== *)
theory Spec2Isabelle
  imports Mailbox_Notify Supervisors Registry_Laws Claims Supervise Gen_Servers Node_Steps Mesh Storage Scaffold
begin

text \<open>
  Plasmoid is an Erlang-like runtime for WebAssembly components. A node runs particles (component
  instances with a pid, a mailbox, links and monitors); nodes form a cluster over QUIC links, send
  each other messages and exit signals, agree on cluster-wide names, and answer requests of
  clients. Supervision is a library of the SDK that runs inside a particle. Paths below are
  relative to the repository's root (\<^verbatim>\<open>src/mailbox.rs\<close> is \<^verbatim>\<open>src/src/mailbox.rs\<close> of a checkout that
  keeps the repository in \<^verbatim>\<open>src\<close>).

  \<^bold>\<open>How the parts interact.\<close> A particle acts through host functions (\<open>Hosts\<close>). What it asks of its own
  node goes to the registry (\<open>Registry\<close>, \<open>Exits\<close>), which owns the mailboxes (\<open>Mailboxes\<close>); what it
  asks of another node becomes a peer message (\<open>Wire\<close>), framed (\<open>Frames\<close>) and written by the link
  to that node (\<open>Transport\<close>); the node at the other end reads the link and handles its messages
  (\<open>Nodes\<close>). The registry publishes deaths; reactors turn them into signals for other nodes and
  releases of cluster-wide names. The peer links publish lost nodes; reactors turn them into exits
  and downs for those who were linked or watching (\<open>Nodes\<close>), forget the member (\<open>Clusters\<close>) and
  report the loss (\<open>Partitions\<close>). Starting a particle (\<open>Particles\<close>) is the registry's spawn, then
  the engine; the end of its start function is an exit.

  \<^bold>\<open>Theories.\<close>

  \<^item> \<open>Prelude\<close>: machine integers, hash maps and sets as lists with their laws, list positions.
  \<^item> \<open>Pids\<close>: \<^verbatim>\<open>src/pid.rs\<close>; the generator, the display form, the key form and its inverse.
  \<^item> \<open>Messages\<close>: \<^verbatim>\<open>src/message.rs\<close>, \<^verbatim>\<open>src/policy.rs\<close>; exit reasons, mailbox messages, failures.
  \<^item> \<open>Mailboxes\<close>, \<open>Mailbox_Notify\<close>: \<^verbatim>\<open>src/mailbox.rs\<close>; the queue and its two receiving loops, then
    the same loop split at its locks, against tokio's \<^verbatim>\<open>Notify\<close>.
  \<^item> \<open>Supervisors\<close>: \<^verbatim>\<open>plasmoid-sdk/src/supervisor.rs\<close>; the strategies, the restart brake, dynamic pools.
    \<open>Supervise\<close>: \<^verbatim>\<open>plasmoid-sdk/src/supervise.rs\<close>; the loops that drive them in a particle.
  \<^item> \<open>Registry\<close>, \<open>Exits\<close>, \<open>Registry_Laws\<close>: \<^verbatim>\<open>src/registry.rs\<close>; state and operations, the exit cascade,
    the invariant of every reachable registry and the properties that rest on it.
  \<^item> \<open>Wire\<close>, \<open>Frames\<close>, \<open>Transport\<close>: \<^verbatim>\<open>src/wire.rs\<close>, \<^verbatim>\<open>src/transport.rs\<close>; messages, framing, outbound links
    with their writer, the address book.
  \<^item> \<open>Clusters\<close>, \<open>Partitions\<close>: \<^verbatim>\<open>src/cluster.rs\<close>, \<^verbatim>\<open>src/cluster_reactor.rs\<close>, \<^verbatim>\<open>src/partitions.rs\<close>; the roster
    with its quarantine, and the reports that keep partitions fully connected.
  \<^item> \<open>Global_Names\<close>, \<open>Claims\<close>: \<^verbatim>\<open>src/global.rs\<close>; name tables, claims, syncs; then claims of several
    nodes interleaved request by request.
  \<^item> \<open>Particles\<close>: the spawn paths of \<^verbatim>\<open>src/runtime/invoke.rs\<close>, \<^verbatim>\<open>engine.rs\<close> and \<^verbatim>\<open>src/protocol.rs\<close>.
  \<^item> \<open>Nodes\<close>: \<^verbatim>\<open>src/protocol.rs\<close>, \<^verbatim>\<open>src/signals.rs\<close>; the handlers of a node and its reactors.
  \<^item> \<open>Hosts\<close>: the host functions of \<^verbatim>\<open>src/runtime/invoke.rs\<close>, \<^verbatim>\<open>src/host/state.rs\<close>, \<^verbatim>\<open>src/client.rs\<close>.
  \<^item> \<open>Node_Steps\<close>: a node's whole life as one step relation, with its invariant.
  \<^item> \<open>Mesh\<close>: all nodes of a cluster and the announcements in flight between them, over the handlers
    of \<open>Nodes\<close>; how rosters come to agree.
  \<^item> \<open>Gen_Servers\<close>: \<^verbatim>\<open>plasmoid-macros/src/lib.rs\<close> and \<^verbatim>\<open>plasmoid-sdk/src/messaging.rs\<close>; the code the
    macros generate, server and client.
  \<^item> \<open>Commands\<close>: \<^verbatim>\<open>src/main.rs\<close>, \<^verbatim>\<open>src/app.rs\<close>; arguments, booting, the fate of an application's root.
  \<^item> \<open>Scaffold\<close>: \<^verbatim>\<open>plasmoid new\<close> and \<^verbatim>\<open>plasmoid component new\<close> of \<^verbatim>\<open>src/main.rs\<close>, over a map of paths.
  \<^item> \<open>Storage\<close>: the secret key of \<^verbatim>\<open>src/runtime/engine.rs\<close>, \<^verbatim>\<open>src/host/database.rs\<close>, \<^verbatim>\<open>src/host/logging.rs\<close>.
\<close>

text \<open>
  \<^bold>\<open>How the model corresponds to the code.\<close> A struct is a record with its fields, an enum a datatype,
  \<^verbatim>\<open>u64\<close> and \<^verbatim>\<open>u32\<close> are words. A mutex or read-write lock held over a block makes the block one
  function; where the code lets go of a lock and looks again, the model takes what others do in
  between as an argument (\<open>spawn_raced\<close>, \<open>lock_raced\<close>) or splits the steps (\<open>Mailbox_Notify\<close>,
  \<open>Claims\<close>). A mailbox is shared by reference, so a registry holds addresses and a store of boxes.
  Every error return is a value of a sum type with the code's cases; where the code only logs an
  error and goes on, so does the model. Tasks that wait on a broadcast channel are functions of
  what the channel yields, lagging and closing included.

  The order a Rust hash map is iterated in is unspecified: maps are association lists in some
  order, and no theorem depends on which.

  \<^bold>\<open>Parameters.\<close> What is not in the repository is an argument: wasmtime (record \<open>wasm\<close>), postcard
  (\<open>serializer\<close>, \<open>deserializer\<close>, \<open>gs_codec\<close>), the hex and key codecs of iroh (\<open>node_codec\<close>,
  \<open>key_codec\<close>), the network (\<open>network\<close>, the lists of fates and of write outcomes), the file system,
  the TOML parser and the clock. Theorems that rely on them name what they rely on as hypotheses,
  such as \<open>codec_ok\<close> and \<open>codec_inverse\<close>.

  \<^bold>\<open>Bounds and fuel.\<close> Receiving loops run against a schedule of wake-ups, one entry per wait; a run
  that outlasts its schedule says so (\<open>Blocked\<close>), and the theorems are for every schedule. The flood
  of a report carries fuel, and \<open>flood_terminates\<close> shows a bound on the deliveries, whatever their
  order. Deliveries of a mesh are infinite runs, of which only fairness is assumed; \<open>mesh_settles\<close>
  shows that they fall silent. The exit cascade is total: each exit removes a particle. Draining a supervisor's mailbox
  returns within the schedule \<open>drain_returns\<close> names. Pids are 64-bit counters: theorems about fresh
  pids assume the counter has not reached its last value.

  \<^bold>\<open>Groups of lemmas.\<close> In \<open>Mailboxes\<close> the locale \<open>message_box\<close> is what the registry relies on, and the
  mailbox interprets it. \<open>Exits\<close> computes what the two loops of an exit do and then the whole cascade
  (\<open>exit_particle_cascade\<close>): who dies, what is published, what every survivor finds. \<open>Registry_Laws\<close>
  shows \<open>reg_inv\<close> for each operation and so for \<open>reg_reachable\<close>; \<open>Node_Steps\<close> shows that a node's
  registry only moves by those operations (\<open>runs\<close>), which makes every such law a law of nodes. In
  \<open>Global_Names\<close> a locale states what a rule for resolving a name conflict must satisfy; the lower
  pid does, and agreement and commutation follow. \<open>Claims\<close> proves mutual exclusion for any
  interleaving and that running alone refines to \<open>try_claim\<close>. \<open>Storage\<close> interprets a key-value
  contract on the particle's store. \<open>Mesh\<close> first ties what the handlers queue on the links to what is in
  flight (\<open>announce_links\<close>), then works with rosters as sets: \<open>roster_step\<close> is what any handler does to
  them, and keeps \<open>mesh_sound\<close>, in which whatever is not yet known is accounted for by an announcement
  in flight. Two nodes whose rosters agree need every member's address to fall silent, and
  \<open>announcements_livelock\<close> shows what happens without.

  \<^bold>\<open>Not modelled.\<close> Binding the QUIC endpoint, hole punching, the accept loop of the router, the
  wiring of reactors to channels and the waiting for a shutdown signal (\<^verbatim>\<open>src/runtime/engine.rs\<close>) are
  calls into iroh and tokio; log lines and command output are output; the text of \<^verbatim>\<open>RUNTIME_WIT\<close>
  is an argument of \<open>cmd_new\<close>, which only copies it; the resource table behind pid handles and WASI belong
  to wasmtime; the example components under \<^verbatim>\<open>components\<close> use the SDK; \<^verbatim>\<open>tests\<close> are tests. Memory
  exhaustion, a poisoned lock other than the store's, and a cluster of more than 2 to the 64
  messages are outside the model.
\<close>

end
